(* ===== verification/Ufs_Prelude.thy ===== *)
theory Ufs_Prelude
  imports Main "HOL-Library.Word" "HOL-Library.AList" "HOL-Library.Monad_Syntax"
begin

unbundle bit_operations_syntax

text \<open>
  Shared vocabulary of the development: the machine types of the C++ sources, the
  \<^theory_text>\<open>named_theorems\<close> collections, facts on word arithmetic without overflow, on
  association lists (the model of \<open>std::unordered_map\<close>, whose list order stands for the
  unspecified iteration order), folds and sequencing of computations that may fail.
\<close>

type_synonym u8 = "8 word"
type_synonym u16 = "16 word"
type_synonym u32 = "32 word"
type_synonym u64 = "64 word"

type_synonym bytes = "u8 list"
type_synonym ('k, 'v) umap = "('k \<times> 'v) list"
type_synonym 'a uset = "'a list"

named_theorems word_nat \<open>word operations read as operations on nat\<close>
named_theorems alist \<open>facts on unordered maps kept as association lists\<close>

subsection \<open>Unsigned arithmetic\<close>

lemma unat_add_no_overflow [word_nat]:
  fixes a b :: "'a::len word"
  assumes "unat a + unat b < 2 ^ LENGTH('a)"
  shows "unat (a + b) = unat a + unat b"
  using assms by (simp add: unat_word_ariths)

lemma unat_sub_no_underflow [word_nat]:
  fixes a b :: "'a::len word"
  assumes "b \<le> a"
  shows "unat (a - b) = unat a - unat b"
  using assms by (rule unat_sub)

lemma unat_mod_word [word_nat]:
  fixes a b :: "'a::len word"
  shows "unat (a mod b) = unat a mod unat b"
  by (rule unat_mod)

lemma unat_below: "unat (w :: 'a::len word) < 2 ^ LENGTH('a)"
  by (rule unsigned_less)

lemma unat_ucast_up [word_nat]: "unat (ucast (w :: u32) :: u64) = unat w"
  using unat_below [of w] by (simp add: unsigned_ucast_eq take_bit_nat_eq_self)

lemma unat_ucast_down [word_nat]: "unat (ucast (w :: u64) :: u32) = unat w mod 2 ^ 32"
  by (simp add: unsigned_ucast_eq take_bit_eq_mod)

lemma ucast_of_nat_down: "(ucast (of_nat n :: u64) :: u32) = of_nat n"
  by (simp add: word_unat_eq_iff unat_ucast_down unat_of_nat mod_mod_cancel)

text \<open>Masking with a power of two, and sums under a mask.\<close>

lemma unat_and_pow2:
  fixes w sz :: "'a::len word"
  assumes "unat sz = 2 ^ k"
  shows "unat (w AND (sz - 1)) = unat w mod unat sz"
proof -
  have "sz = of_nat (unat sz)" by (simp add: of_nat_unat)
  then have "sz = 2 ^ k" using assms by simp
  then have "w AND (sz - 1) = take_bit k w" by (simp add: take_bit_eq_mask mask_eq_exp_minus_1)
  then have "unat (w AND (sz - 1)) = take_bit k (unat w)" by (simp only: unsigned_take_bit_eq)
  then show ?thesis by (simp only: take_bit_eq_mod assms)
qed

lemma pow2_dvd_range:
  fixes sz :: "'a::len word"
  assumes "unat sz = 2 ^ k"
  shows "unat sz dvd 2 ^ LENGTH('a)" "k < LENGTH('a)"
proof -
  have "(2 :: nat) ^ k < 2 ^ LENGTH('a)" using unat_below [of sz] assms by simp
  then show "k < LENGTH('a)" by (rule power_less_imp_less_exp [rotated]) simp
  then show "unat sz dvd 2 ^ LENGTH('a)" unfolding assms by (intro le_imp_power_dvd) simp
qed

lemma unat_add_mod_pow2:
  fixes a b sz :: "'a::len word"
  assumes "unat sz = 2 ^ k"
  shows "unat (a + b) mod unat sz = (unat a + unat b) mod unat sz"
  using pow2_dvd_range(1) [OF assms] by (simp add: unat_word_ariths mod_mod_cancel)

lemma unat_of_nat_mod_pow2:
  fixes sz :: "'a::len word"
  assumes "unat sz = 2 ^ k"
  shows "unat (of_nat n :: 'a word) mod unat sz = n mod unat sz"
  using pow2_dvd_range(1) [OF assms] by (simp add: unat_of_nat mod_mod_cancel)

lemmas word_order_nat [word_nat] = word_le_nat_alt word_less_nat_alt

subsection \<open>Unordered maps\<close>

abbreviation keys :: "('k, 'v) umap \<Rightarrow> 'k list" where
  "keys m \<equiv> map fst m"

definition wf_umap :: "('k, 'v) umap \<Rightarrow> bool" where
  "wf_umap m \<longleftrightarrow> distinct (keys m)"

lemma wf_umap_Nil [simp, alist]: "wf_umap []"
  by (simp add: wf_umap_def)

lemma wf_umap_update [simp, alist]: "wf_umap m \<Longrightarrow> wf_umap (AList.update k v m)"
  by (simp add: wf_umap_def distinct_update)

lemma wf_umap_delete [simp, alist]: "wf_umap m \<Longrightarrow> wf_umap (AList.delete k m)"
  by (simp add: wf_umap_def distinct_delete)

lemma update_fresh [alist]: "k \<notin> fst ` set m \<Longrightarrow> AList.update k v m = m @ [(k, v)]"
  by (induction m) auto

text \<open>Inserting the pairs of a well-formed map one by one into an empty map rebuilds it.\<close>

lemma fold_update_append [alist]:
  "wf_umap (acc @ m) \<Longrightarrow> fold (\<lambda>(k, v). AList.update k v) m acc = acc @ m"
proof (induction m arbitrary: acc)
  case Nil
  then show ?case by simp
next
  case (Cons p m)
  obtain k v where p: "p = (k, v)" by (cases p)
  from Cons.prems have "k \<notin> fst ` set acc" by (auto simp: wf_umap_def p)
  then have "AList.update k v acc = acc @ [p]" by (simp add: update_fresh p)
  moreover from Cons.prems have "wf_umap ((acc @ [p]) @ m)" by simp
  ultimately show ?case using Cons.IH [of "acc @ [p]"] by (simp add: p)
qed

lemma fold_update_rebuild [alist]:
  "wf_umap m \<Longrightarrow> fold (\<lambda>(k, v). AList.update k v) m [] = m"
  using fold_update_append [of "[]" m] by simp

lemma set_fold_insert: "set (fold List.insert s xs) = set s \<union> set xs"
  "distinct xs \<Longrightarrow> distinct (fold List.insert s xs)"
  by (induction s arbitrary: xs) auto

subsection \<open>Circular positions\<close>

lemma mod_shift: "a mod S = b mod S \<Longrightarrow> (a + i) mod S = (b + i) mod (S :: nat)"
  by (metis mod_add_left_eq)

lemma mod_distinct:
  assumes "i < j" "j < i + S"
  shows "(s + i) mod S \<noteq> (s + j) mod (S :: nat)"
proof
  assume "(s + i) mod S = (s + j) mod S"
  then have "S dvd (s + j) - (s + i)" using assms(1) by (metis add_le_cancel_left less_imp_le mod_eq_dvd_iff_nat)
  moreover have "0 < (s + j) - (s + i)" "(s + j) - (s + i) < S" using assms by simp_all
  ultimately show False using nat_dvd_not_less by blast
qed

lemma mod_distinct_below: "i < S \<Longrightarrow> j < S \<Longrightarrow> i \<noteq> j \<Longrightarrow> (c + i) mod S \<noteq> (c + j) mod (S :: nat)"
  using mod_distinct [of i j S c] mod_distinct [of j i S c] by (metis nat_neq_iff trans_less_add2)

subsection \<open>Searching an interval\<close>

lemma find_upto_skip:
  assumes "lo \<le> hi" "\<And>k. lo \<le> k \<Longrightarrow> k < hi \<Longrightarrow> \<not> P k"
  shows "find P [lo..n] = find P [hi..n]"
  using assms
proof (induction "nat (hi - lo)" arbitrary: lo)
  case 0
  then show ?case by simp
next
  case (Suc d)
  then have lt: "lo < hi" and "\<not> P lo" by auto
  have "find P [lo..n] = find P [lo + 1..n]"
    by (subst upto.simps) (use \<open>\<not> P lo\<close> in auto)
  also have "\<dots> = find P [hi..n]"
    by (rule Suc.hyps(1)) (use Suc.hyps(2) Suc.prems lt in auto)
  finally show ?case .
qed

lemma find_upto_hit: "P lo \<Longrightarrow> lo \<le> n \<Longrightarrow> find P [lo..n] = Some lo"
  by (subst upto.simps) simp

lemma find_upto_props:
  fixes P :: "int \<Rightarrow> bool"
  shows "case find P [lo..hi] of
     None \<Rightarrow> (\<forall>k \<in> {lo..hi}. \<not> P k)
   | Some r \<Rightarrow> lo \<le> r \<and> r \<le> hi \<and> P r \<and> (\<forall>k \<in> {lo..<r}. \<not> P k)"
proof (induction "nat (hi + 1 - lo)" arbitrary: lo)
  case 0
  then show ?case by simp
next
  case (Suc d)
  have "lo \<le> hi" using Suc.hyps(2) by simp
  show ?case
  proof (cases "P lo")
    case True
    then show ?thesis using \<open>lo \<le> hi\<close> by (simp add: find_upto_hit)
  next
    case False
    then have eq: "find P [lo..hi] = find P [lo + 1..hi]"
      by (subst upto.simps) auto
    have IH: "case find P [lo + 1..hi] of
                None \<Rightarrow> (\<forall>k \<in> {lo + 1..hi}. \<not> P k)
              | Some r \<Rightarrow> lo + 1 \<le> r \<and> r \<le> hi \<and> P r \<and> (\<forall>k \<in> {lo + 1..<r}. \<not> P k)"
      using Suc.hyps(2) by (intro Suc.hyps(1)) auto
    have *: "\<forall>k \<in> {lo..<r}. \<not> P k" if "\<forall>k \<in> {lo + 1..<r}. \<not> P k" for r
      using that False by (metis atLeastLessThan_iff order_le_less zless_imp_add1_zle)
    have "\<forall>k \<in> {lo..hi}. \<not> P k" if "\<forall>k \<in> {lo + 1..hi}. \<not> P k"
      using * [of "hi + 1"] that by simp
    with IH show ?thesis
      by (cases "find P [lo + 1..hi]") (auto simp: eq dest: *)
  qed
qed

subsection \<open>Folds that may fail\<close>

fun fold_opt :: "('a \<Rightarrow> 's \<Rightarrow> 's option) \<Rightarrow> 'a list \<Rightarrow> 's \<Rightarrow> 's option" where
  "fold_opt f [] s = Some s"
| "fold_opt f (x # xs) s = do { s' \<leftarrow> f x s; fold_opt f xs s' }"

lemma fold_opt_append: "fold_opt f (xs @ ys) s = do { s' \<leftarrow> fold_opt f xs s; fold_opt f ys s' }"
  by (induction xs arbitrary: s) (auto split: bind_splits)

subsection \<open>Results\<close>

text \<open>
  The outcome of an operation that may throw, hit a failed assertion or undefined behaviour, or
  wait for another thread that never comes: a value (\<^const>\<open>Inr\<close>) or the reason why there is
  none. \<open>res_bind\<close> runs the rest of the operation on the value.
\<close>

datatype error = Abort | Throw string | Spin

type_synonym 'a res = "error + 'a"

definition res_bind :: "'a res \<Rightarrow> ('a \<Rightarrow> 'b res) \<Rightarrow> 'b res" where
  "res_bind r f = (case r of Inl e \<Rightarrow> Inl e | Inr x \<Rightarrow> f x)"

named_theorems res \<open>evaluation of results\<close>

lemma res_bind_simps [simp]: "res_bind (Inl e) f = Inl e" "res_bind (Inr x) f = f x"
  by (simp_all add: res_bind_def)

lemma res_bind_eq_Inr [res]: "res_bind r f = Inr y \<longleftrightarrow> (\<exists>x. r = Inr x \<and> f x = Inr y)"
  by (cases r) simp_all

lemma res_bind_eq_Inl [res]: "res_bind r f = Inl e \<longleftrightarrow> r = Inl e \<or> (\<exists>x. r = Inr x \<and> f x = Inl e)"
  by (cases r) simp_all

fun fold_res :: "('a \<Rightarrow> 's \<Rightarrow> 's res) \<Rightarrow> 'a list \<Rightarrow> 's \<Rightarrow> 's res" where
  "fold_res f [] s = Inr s"
| "fold_res f (x # xs) s = res_bind (f x s) (fold_res f xs)"

lemma fold_res_inv:
  assumes "fold_res f xs s = Inr s'" "P s" "\<And>x s s'. x \<in> set xs \<Longrightarrow> P s \<Longrightarrow> f x s = Inr s' \<Longrightarrow> P s'"
  shows "P s'"
  using assms by (induction xs arbitrary: s) (auto simp: res)

end
