(* ===== verification/Ufs_Bitmap.thy ===== *)
theory Ufs_Bitmap
  imports Ufs_Prelude
begin

unbundle bit_operations_syntax

text \<open>
  Bit operations on bitmap blocks, from \<open>cfs/src/util.cc\<close>: testing, setting and clearing
  one bit, and the three searches for a free bit that the inode and data block allocators
  use. A bitmap block is its list of bytes; an access outside it is undefined behaviour in
  C++ and \<^const>\<open>None\<close> here. C \<open>int\<close> and \<open>int64_t\<close> variables that the code
  never drives near their limits are \<^typ>\<open>int\<close>; the conversion of a bit number to the
  \<open>uint32_t\<close> argument is written out.
\<close>

subsection \<open>One bit\<close>

definition bit_mask :: "u32 \<Rightarrow> u8" where
  "bit_mask nr = push_bit (unat (nr AND 7)) 1"

definition bit_addr :: "u32 \<Rightarrow> nat" where
  "bit_addr nr = unat (drop_bit 3 nr)"

definition block_set_bit :: "u32 \<Rightarrow> bytes \<Rightarrow> (int \<times> bytes) option" where
  "block_set_bit nr a =
     (if bit_addr nr < length a
      then Some (uint (bit_mask nr AND a ! bit_addr nr),
                 a[bit_addr nr := a ! bit_addr nr OR bit_mask nr])
      else None)"

definition block_clear_bit :: "u32 \<Rightarrow> bytes \<Rightarrow> (int \<times> bytes) option" where
  "block_clear_bit nr a =
     (if bit_addr nr < length a
      then Some (uint (bit_mask nr AND a ! bit_addr nr),
                 a[bit_addr nr := a ! bit_addr nr AND NOT (bit_mask nr)])
      else None)"

definition block_test_bit :: "u32 \<Rightarrow> bytes \<Rightarrow> int option" where
  "block_test_bit nr a =
     (if bit_addr nr < length a then Some (uint (bit_mask nr AND a ! bit_addr nr)) else None)"

subsection \<open>Searches\<close>

text \<open>
  \<open>find_block_free_bit_no_start_from\<close>: a \<open>do\<close>/\<open>while\<close> loop over the variables
  \<open>bit_no\<close> and \<open>bit_set\<close>; the loop body is one unfolding of the function.
\<close>

function find_free_loop :: "bytes \<Rightarrow> int \<Rightarrow> int \<Rightarrow> int \<Rightarrow> (int \<times> int) option" where
  "find_free_loop a num bit_no bit_set =
     (if bit_no + 1 = num then Some (bit_no + 1, bit_set)
      else case block_test_bit (of_int (bit_no + 1)) a of
        None \<Rightarrow> None
      | Some b \<Rightarrow>
          if b \<noteq> 0 \<and> bit_no + 1 < num then find_free_loop a num (bit_no + 1) b
          else Some (bit_no + 1, b))"
  by pat_completeness auto
termination
  by (relation "measure (\<lambda>(a, num, bit_no, bit_set). nat (num - bit_no))") auto

declare find_free_loop.simps [simp del]

definition find_block_free_bit_no_start_from :: "bytes \<Rightarrow> int \<Rightarrow> int \<Rightarrow> int option" where
  "find_block_free_bit_no_start_from a start_bit_no num =
     (case find_free_loop a num start_bit_no (-1) of
        None \<Rightarrow> None
      | Some (bit_no, bit_set) \<Rightarrow>
          Some (if bit_set \<noteq> 0 \<or> bit_no = num then -1 else bit_no))"

definition find_block_free_bit_no :: "bytes \<Rightarrow> int \<Rightarrow> int option" where
  "find_block_free_bit_no a num = find_block_free_bit_no_start_from a (-1) num"

text \<open>
  \<open>find_block_free_multi_bits_no\<close>: the loop state is \<open>(bit_no, bit_set, start_bit_no,
  numBitsFound)\<close>. As in the source, \<open>start_bit_no\<close> is written only on the path where
  the search goes on after the first clear bit of a run.
\<close>

partial_function (option) find_multi_loop ::
    "bytes \<Rightarrow> int \<Rightarrow> int \<Rightarrow> int \<Rightarrow> int \<Rightarrow> int \<Rightarrow> int \<Rightarrow>
     (int \<times> int \<times> int \<times> int) option" where
  "find_multi_loop a num need bit_no bit_set start found =
     (if bit_no + 1 = num then Some (bit_no + 1, bit_set, start, found)
      else case block_test_bit (of_int (bit_no + 1)) a of
        None \<Rightarrow> None
      | Some b \<Rightarrow>
          if b \<noteq> 0 then
            (if bit_no + 1 \<ge> num then Some (bit_no + 1, b, start, found)
             else find_multi_loop a num need (bit_no + 1) b start 0)
          else if found + 1 = need then Some (bit_no + 1, b, start, found + 1)
          else if found + 1 < need
            then find_multi_loop a num need (bit_no + 1) b
                   (if found + 1 = 1 then bit_no + 1 else start) (found + 1)
            else Some (bit_no + 1, b, if found + 1 = 1 then bit_no + 1 else start, found + 1))"

definition find_block_free_multi_bits_no :: "bytes \<Rightarrow> int \<Rightarrow> int \<Rightarrow> int option" where
  "find_block_free_multi_bits_no a num need =
     (case find_multi_loop a num need (-1) (-1) (-1) 0 of
        None \<Rightarrow> None
      | Some (bit_no, bit_set, start, found) \<Rightarrow>
          Some (if bit_set \<noteq> 0 \<or> found \<noteq> need then -1 else start))"

text \<open>
  \<open>find_block_free_jump_bits_no_start_from\<close>: the bits \<open>0, jump, 2 * jump, \<dots>\<close> (or those
  after \<open>start_bit_no\<close> when it is positive) are tested. The loop state is \<open>(bit_no, bit_set,
  start_bit_no)\<close>; it does not end when \<open>numBitsJump\<close> is not positive and the bit is set.
\<close>

partial_function (option) find_jump_loop ::
    "bytes \<Rightarrow> int \<Rightarrow> int \<Rightarrow> int \<Rightarrow> int \<Rightarrow> int \<Rightarrow> (int \<times> int \<times> int) option" where
  "find_jump_loop a num jump bit_no bit_set start =
     (if bit_no + jump \<ge> num then Some (bit_no + jump, bit_set, start)
      else case block_test_bit (of_int (bit_no + jump)) a of
        None \<Rightarrow> None
      | Some b \<Rightarrow>
          if b \<noteq> 0 then find_jump_loop a num jump (bit_no + jump) b start
          else Some (bit_no + jump, b, bit_no + jump))"

definition find_block_free_jump_bits_no_start_from ::
    "bytes \<Rightarrow> int \<Rightarrow> int \<Rightarrow> int \<Rightarrow> int option" where
  "find_block_free_jump_bits_no_start_from a start_bit_no num jump =
     (case find_jump_loop a num jump (if start_bit_no > 0 then start_bit_no else - jump) (-1)
             start_bit_no of
        None \<Rightarrow> None
      | Some (bit_no, bit_set, start) \<Rightarrow>
          Some (if bit_set \<noteq> 0 \<or> num - start < jump then -1 else start))"

subsection \<open>Bits of a block\<close>

definition bset :: "bytes \<Rightarrow> nat \<Rightarrow> bool" where
  "bset a i \<longleftrightarrow> bit (a ! (i div 8)) (i mod 8)"

lemma bit_addr_of_nat: "i < 2 ^ 32 \<Longrightarrow> bit_addr (of_nat i) = i div 8"
  by (simp add: bit_addr_def drop_bit_eq_div unat_div unat_of_nat)

lemma bit_mask_of_nat: "i < 2 ^ 32 \<Longrightarrow> bit_mask (of_nat i) = push_bit (i mod 8) 1"
proof -
  assume i: "i < 2 ^ 32"
  have "(of_nat i :: u32) AND 7 = take_bit 3 (of_nat i)"
    by (simp add: take_bit_eq_mask mask_eq_exp_minus_1)
  then have "unat ((of_nat i :: u32) AND 7) = take_bit 3 (unat (of_nat i :: u32))"
    by (simp add: unsigned_take_bit_eq)
  with i show ?thesis
    by (simp add: bit_mask_def take_bit_eq_mod unat_of_nat)
qed

lemma mask_AND_iff: "uint (2 ^ k AND (b :: u8)) = 0 \<longleftrightarrow> \<not> bit b k"
  by (simp add: bit_iff_and_push_bit_not_eq_0 and.commute unsigned_eq_0_iff)

lemma block_test_bit_of_nat:
  assumes "i < 8 * length a" "i < 2 ^ 32"
  shows "\<exists>v. block_test_bit (of_nat i) a = Some v \<and> (v \<noteq> 0 \<longleftrightarrow> bset a i)"
  using assms
  by (auto simp: block_test_bit_def bit_addr_of_nat bit_mask_of_nat bset_def mask_AND_iff)

lemma block_test_bit_of_int:
  assumes "0 \<le> i" "i < 8 * int (length a)" "i < 2 ^ 32"
  shows "\<exists>v. block_test_bit (of_int i) a = Some v \<and> (v \<noteq> 0 \<longleftrightarrow> bset a (nat i))"
  using block_test_bit_of_nat [of "nat i" a] assms
  by (simp add: nat_less_iff)

lemma bset_update:
  assumes "i < 8 * length a" "j < 8 * length a"
  shows "bset (a[i div 8 := a ! (i div 8) OR push_bit (i mod 8) 1]) j \<longleftrightarrow> j = i \<or> bset a j"
    and "bset (a[i div 8 := a ! (i div 8) AND NOT (push_bit (i mod 8) 1)]) j \<longleftrightarrow> j \<noteq> i \<and> bset a j"
proof -
  have ij: "j = i \<longleftrightarrow> j div 8 = i div 8 \<and> j mod 8 = i mod 8"
    by (metis div_mult_mod_eq)
  have len: "i div 8 < length a" using assms by auto
  have lt: "j mod 8 < 8" "i mod 8 < 8" by simp_all
  show "bset (a[i div 8 := a ! (i div 8) OR push_bit (i mod 8) 1]) j \<longleftrightarrow> j = i \<or> bset a j"
    using len lt
    by (cases "j div 8 = i div 8")
       (auto simp: bset_def ij nth_list_update bit_simps)
  show "bset (a[i div 8 := a ! (i div 8) AND NOT (push_bit (i mod 8) 1)]) j \<longleftrightarrow> j \<noteq> i \<and> bset a j"
    using len lt
    by (cases "j div 8 = i div 8")
       (auto simp: bset_def ij nth_list_update bit_simps)
qed

lemma block_set_bit_of_nat:
  assumes "i < 8 * length a" "i < 2 ^ 32"
  shows "\<exists>v a'. block_set_bit (of_nat i) a = Some (v, a') \<and> (v \<noteq> 0 \<longleftrightarrow> bset a i) \<and>
           length a' = length a \<and> (\<forall>j < 8 * length a. bset a' j \<longleftrightarrow> j = i \<or> bset a j) \<and>
           block_test_bit (of_nat i) a' \<noteq> Some 0"
proof -
  define a' where "a' = a[i div 8 := a ! (i div 8) OR push_bit (i mod 8) 1]"
  have upd: "bset a' j \<longleftrightarrow> j = i \<or> bset a j" if "j < 8 * length a" for j
    unfolding a'_def using assms(1) that by (rule bset_update(1))
  have len: "length a' = length a" by (simp add: a'_def)
  have "block_set_bit (of_nat i) a = Some (uint (2 ^ (i mod 8) AND a ! (i div 8)), a')"
    using assms by (auto simp: block_set_bit_def bit_addr_of_nat bit_mask_of_nat a'_def)
  moreover have "block_test_bit (of_nat i) a' \<noteq> Some 0"
    using block_test_bit_of_nat [of i a'] upd [of i] assms len by auto
  ultimately show ?thesis
    using upd len by (intro exI conjI) (auto simp: bset_def mask_AND_iff)
qed

lemma block_clear_bit_of_nat:
  assumes "i < 8 * length a" "i < 2 ^ 32"
  shows "\<exists>v a'. block_clear_bit (of_nat i) a = Some (v, a') \<and> (v \<noteq> 0 \<longleftrightarrow> bset a i) \<and>
           length a' = length a \<and> (\<forall>j < 8 * length a. bset a' j \<longleftrightarrow> j \<noteq> i \<and> bset a j) \<and>
           block_test_bit (of_nat i) a' = Some 0"
proof -
  define a' where "a' = a[i div 8 := a ! (i div 8) AND NOT (push_bit (i mod 8) 1)]"
  have upd: "bset a' j \<longleftrightarrow> j \<noteq> i \<and> bset a j" if "j < 8 * length a" for j
    unfolding a'_def using assms(1) that by (rule bset_update(2))
  have len: "length a' = length a" by (simp add: a'_def)
  have "block_clear_bit (of_nat i) a = Some (uint (2 ^ (i mod 8) AND a ! (i div 8)), a')"
    using assms by (auto simp: block_clear_bit_def bit_addr_of_nat bit_mask_of_nat a'_def)
  moreover have "block_test_bit (of_nat i) a' = Some 0"
    using block_test_bit_of_nat [of i a'] upd [of i] assms len by auto
  ultimately show ?thesis
    using upd len by (intro exI conjI) (auto simp: bset_def mask_AND_iff)
qed

subsection \<open>Correctness of the searches\<close>

text \<open>
  The size conditions the searches share: the scan stays inside the block and inside the
  range of a C \<open>int\<close>.
\<close>

definition scan_ok :: "bytes \<Rightarrow> int \<Rightarrow> bool" where
  "scan_ok a num \<longleftrightarrow> 0 \<le> num \<and> num \<le> 8 * int (length a) \<and> num < 2 ^ 31"

lemma scan_ok_test:
  assumes "scan_ok a num" "0 \<le> i" "i < num"
  obtains v where "block_test_bit (of_int i) a = Some v" "v \<noteq> 0 \<longleftrightarrow> bset a (nat i)"
  using block_test_bit_of_int [of i a] assms by (auto simp: scan_ok_def)

text \<open>Reference: the first clear bit after \<open>start\<close>, or -1.\<close>

definition first_clear :: "bytes \<Rightarrow> int \<Rightarrow> int \<Rightarrow> int" where
  "first_clear a start num =
     (case find (\<lambda>k. \<not> bset a (nat k)) [start + 1..num - 1] of None \<Rightarrow> -1 | Some k \<Rightarrow> k)"

lemma first_clear_step:
  "start + 1 < num \<Longrightarrow>
   first_clear a start num =
     (if bset a (nat (start + 1)) then first_clear a (start + 1) num else start + 1)"
  unfolding first_clear_def by (subst upto.simps) (simp add: add.commute)

lemma first_clear_stop: "num \<le> start + 1 \<Longrightarrow> first_clear a start num = -1"
  by (simp add: first_clear_def)

lemma find_free_loop_correct:
  assumes "scan_ok a num" "-1 \<le> bit_no" "bit_no < num" "bit_set \<noteq> 0"
  shows "\<exists>r b. find_free_loop a num bit_no bit_set = Some (r, b) \<and>
           (if b \<noteq> 0 \<or> r = num then -1 else r) = first_clear a bit_no num"
  using assms
proof (induction a num bit_no bit_set rule: find_free_loop.induct)
  case (1 a num bit_no bit_set)
  show ?case
  proof (cases "bit_no + 1 = num")
    case True
    then show ?thesis
      by (simp add: find_free_loop.simps [of a num bit_no] first_clear_stop)
  next
    case False
    with 1 obtain v where v: "block_test_bit (of_int (bit_no + 1)) a = Some v"
      "v \<noteq> 0 \<longleftrightarrow> bset a (nat (bit_no + 1))"
      by (auto elim: scan_ok_test [of a num "bit_no + 1"])
    with False 1 show ?thesis
      by (auto simp: find_free_loop.simps [of a num bit_no] first_clear_step)
  qed
qed

lemma first_clear_props:
  assumes "-1 \<le> start"
  shows "if first_clear a start num = -1 then \<forall>k \<in> {start<..<num}. bset a (nat k)
         else start < first_clear a start num \<and> first_clear a start num < num \<and>
              \<not> bset a (nat (first_clear a start num)) \<and>
              (\<forall>k \<in> {start<..<first_clear a start num}. bset a (nat k))"
  using find_upto_props [where P = "\<lambda>k. \<not> bset a (nat k)" and lo = "start + 1" and hi = "num - 1"] assms
  by (auto simp: first_clear_def split: option.splits)

lemma find_free_bit_correct:
  assumes "scan_ok a num" "-1 \<le> start" "start < num"
  shows "find_block_free_bit_no_start_from a start num = Some (first_clear a start num)"
  using find_free_loop_correct [OF assms, of "-1"]
  by (auto simp: find_block_free_bit_no_start_from_def)

text \<open>Reference: the first start of \<open>need\<close> clear bits in a row, or -1.\<close>

definition clear_run :: "bytes \<Rightarrow> int \<Rightarrow> int \<Rightarrow> bool" where
  "clear_run a need k \<longleftrightarrow> (\<forall>j \<in> set [k..k + need - 1]. \<not> bset a (nat j))"

definition first_run :: "bytes \<Rightarrow> int \<Rightarrow> int \<Rightarrow> int \<Rightarrow> int" where
  "first_run a need lo num =
     (case find (clear_run a need) [lo..num - need] of None \<Rightarrow> -1 | Some k \<Rightarrow> k)"

lemma first_run_skip:
  assumes "bset a (nat b)" "lo \<le> b" "b < lo + need"
  shows "first_run a need lo num = first_run a need (b + 1) num"
proof -
  have "\<not> clear_run a need k" if "lo \<le> k" "k < b + 1" for k
    using assms that by (auto simp: clear_run_def)
  then show ?thesis
    using assms by (simp add: first_run_def find_upto_skip [of lo "b + 1"])
qed

lemma find_multi_loop_correct:
  assumes "scan_ok a num" "2 \<le> need" "-1 \<le> bit_no" "bit_no < num"
    "0 \<le> found" "found < need" "found \<le> bit_no + 1"
    "\<And>j. bit_no - found < j \<Longrightarrow> j \<le> bit_no \<Longrightarrow> \<not> bset a (nat j)"
    "0 < found \<Longrightarrow> start = bit_no + 1 - found"
  shows "\<exists>r b s f. find_multi_loop a num need bit_no bit_set start found = Some (r, b, s, f) \<and>
           (if b \<noteq> 0 \<or> f \<noteq> need then -1 else s) = first_run a need (bit_no + 1 - found) num"
  using assms
proof (induction "nat (num - bit_no)" arbitrary: bit_no bit_set start found rule: less_induct)
  case less
  note inv = less.prems
  show ?case
  proof (cases "bit_no + 1 = num")
    case True
    with inv show ?thesis
      by (simp add: find_multi_loop.simps [of a num need bit_no] first_run_def)
  next
    case False
    with inv obtain v where v: "block_test_bit (of_int (bit_no + 1)) a = Some v"
      and vb: "v \<noteq> 0 \<longleftrightarrow> bset a (nat (bit_no + 1))"
      by (auto elim: scan_ok_test [of a num "bit_no + 1"])
    have lt: "bit_no + 1 < num" using False inv by simp
    note unfold = find_multi_loop.simps [of a num need bit_no]
    show ?thesis
    proof (cases "v = 0")
      case set: False
      have "first_run a need (bit_no + 1 - found) num = first_run a need (bit_no + 1 + 1) num"
        using set vb inv by (intro first_run_skip) auto
      moreover have "\<exists>r b s f. find_multi_loop a num need (bit_no + 1) v start 0 = Some (r, b, s, f) \<and>
           (if b \<noteq> 0 \<or> f \<noteq> need then -1 else s) = first_run a need (bit_no + 1 + 1 - 0) num"
        using inv lt by (intro less.hyps) auto
      ultimately show ?thesis using set lt False v by (simp add: unfold)
    next
      case clear: True
      have clr: "\<not> bset a (nat j)" if "bit_no + 1 - (found + 1) < j" "j \<le> bit_no + 1" for j
        using that inv(8) [of j] clear vb by (cases "j = bit_no + 1") auto
      show ?thesis
      proof (cases "found + 1 = need")
        case True
        have "clear_run a need (bit_no + 1 - found)"
          using clr True by (auto simp: clear_run_def)
        then have "first_run a need (bit_no + 1 - found) num = bit_no + 1 - found"
          using lt True by (simp add: first_run_def find_upto_hit)
        then show ?thesis using clear True False v inv by (simp add: unfold)
      next
        case more: False
        let ?start = "if found + 1 = 1 then bit_no + 1 else start"
        have "find_multi_loop a num need bit_no bit_set start found
                = find_multi_loop a num need (bit_no + 1) v ?start (found + 1)"
          using clear more False v inv by (simp add: unfold)
        moreover have "\<exists>r b s f. find_multi_loop a num need (bit_no + 1) v ?start (found + 1)
                 = Some (r, b, s, f) \<and>
               (if b \<noteq> 0 \<or> f \<noteq> need then -1 else s)
                 = first_run a need (bit_no + 1 + 1 - (found + 1)) num"
          using inv lt more clr by (intro less.hyps) auto
        moreover have "bit_no + 1 + 1 - (found + 1) = bit_no + 1 - found" by simp
        ultimately show ?thesis by (simp only:)
      qed
    qed
  qed
qed

lemma find_multi_bits_correct:
  assumes "scan_ok a num" "0 < num" "2 \<le> need"
  shows "find_block_free_multi_bits_no a num need = Some (first_run a need 0 num)"
  using find_multi_loop_correct [of a num need "-1" 0 "-1" "-1"] assms
  by (auto simp: find_block_free_multi_bits_no_def)

lemma clear_run_iff: "clear_run a need k \<longleftrightarrow> (\<forall>j \<in> {k..<k + need}. \<not> bset a (nat j))"
  by (auto simp: clear_run_def)

lemma find_multi_loop_one:
  assumes "scan_ok a num" "-1 \<le> bit_no" "bit_no < num"
  shows "\<exists>r b f. find_multi_loop a num 1 bit_no bit_set (-1) 0 = Some (r, b, -1, f)"
  using assms
proof (induction "nat (num - bit_no)" arbitrary: bit_no bit_set rule: less_induct)
  case less
  show ?case
  proof (cases "bit_no + 1 = num")
    case True
    then show ?thesis by (simp add: find_multi_loop.simps [of a num 1 bit_no])
  next
    case False
    with less.prems obtain v where v: "block_test_bit (of_int (bit_no + 1)) a = Some v"
      by (auto elim: scan_ok_test [of a num "bit_no + 1"])
    have "\<exists>r b f. find_multi_loop a num 1 (bit_no + 1) v (-1) 0 = Some (r, b, -1, f)"
      using less.prems False by (intro less.hyps) auto
    with v show ?thesis by (simp add: find_multi_loop.simps [of a num 1 bit_no])
  qed
qed

text \<open>Reference: the first multiple of \<open>jump\<close> whose bit is clear, or -1.\<close>

definition first_slot :: "bytes \<Rightarrow> int \<Rightarrow> int \<Rightarrow> int \<Rightarrow> int" where
  "first_slot a jump lo num =
     (case find (\<lambda>k. \<not> bset a (nat (k * jump))) [lo..num div jump - 1] of
        None \<Rightarrow> -1 | Some k \<Rightarrow> k * jump)"

lemma find_jump_loop_correct:
  assumes "scan_ok a num" "0 < jump" "jump dvd num" "0 \<le> k" "bit_no = k * jump - jump"
    "bit_no < num" "bit_set \<noteq> 0"
  shows "\<exists>r b s. find_jump_loop a num jump bit_no bit_set start = Some (r, b, s) \<and>
           (if b \<noteq> 0 \<or> num - s < jump then -1 else s) = first_slot a jump k num"
  using assms
proof (induction "nat (num - bit_no)" arbitrary: bit_no bit_set k rule: less_induct)
  case less
  note inv = less.prems
  from inv obtain m where m: "num = m * jump" by (auto elim: dvdE simp: mult.commute)
  with inv(2) have div: "num div jump = m" by simp
  note unfold = find_jump_loop.simps [of a num jump bit_no]
  have next_bit: "bit_no + jump = k * jump" using inv by simp
  have km: "k * jump < m * jump \<longleftrightarrow> k < m" using inv(2) by simp
  show ?case
  proof (cases "k < m")
    case False
    with km m have "\<not> k * jump < num" by simp
    then have "find_jump_loop a num jump bit_no bit_set start = Some (k * jump, bit_set, start)"
      using inv(7) by (simp add: unfold next_bit)
    with False inv(7) show ?thesis by (simp add: first_slot_def div)
  next
    case True
    with km m have lt: "k * jump < num" by simp
    have pos: "0 \<le> k * jump" using inv by simp
    from inv(1) pos lt obtain v where v: "block_test_bit (of_int (k * jump)) a = Some v"
      and vb: "v \<noteq> 0 \<longleftrightarrow> bset a (nat (k * jump))" by (rule scan_ok_test)
    show ?thesis
    proof (cases "v = 0")
      case clear: True
      with vb True have "first_slot a jump k num = k * jump"
        by (simp add: first_slot_def div find_upto_hit)
      moreover have "(k + 1) * jump \<le> m * jump"
        using True inv(2) by (intro mult_right_mono) auto
      then have "jump \<le> num - k * jump" by (simp add: m algebra_simps)
      moreover have "find_jump_loop a num jump bit_no bit_set start = Some (k * jump, 0, k * jump)"
        using clear lt v by (simp add: unfold next_bit)
      ultimately show ?thesis by simp
    next
      case set: False
      with vb have "find (\<lambda>k. \<not> bset a (nat (k * jump))) [k..m - 1]
                      = find (\<lambda>k. \<not> bset a (nat (k * jump))) [k + 1..m - 1]"
        by (intro find_upto_skip) (auto dest: zless_imp_add1_zle)
      then have "first_slot a jump k num = first_slot a jump (k + 1) num"
        by (simp add: first_slot_def div)
      moreover have "find_jump_loop a num jump bit_no bit_set start
                       = find_jump_loop a num jump (k * jump) v start"
        using set lt v by (simp add: unfold next_bit)
      moreover have "\<exists>r b s. find_jump_loop a num jump (k * jump) v start = Some (r, b, s) \<and>
           (if b \<noteq> 0 \<or> num - s < jump then -1 else s) = first_slot a jump (k + 1) num"
        using inv set lt by (intro less.hyps) (auto simp: algebra_simps)
      ultimately show ?thesis by (simp only:)
    qed
  qed
qed

lemma find_jump_bits_correct:
  assumes "scan_ok a num" "0 < num" "0 < jump" "jump dvd num"
  shows "find_block_free_jump_bits_no_start_from a 0 num jump = Some (first_slot a jump 0 num)"
  using find_jump_loop_correct [of a num jump 0 "- jump" "-1" 0] assms
  by (auto simp: find_block_free_jump_bits_no_start_from_def)

subsection \<open>Correctness properties\<close>

text \<open>C39: On every bitmap block, searching from bit \<open>start\<close> (-1 for the whole block)
  returns, without leaving the block, the first clear bit after \<open>start\<close>, and -1 exactly
  when every bit after \<open>start\<close> is set.\<close>

theorem find_free_bit_first_clear:
  assumes "scan_ok a num" "-1 \<le> start" "start < num"
  shows "\<exists>r. find_block_free_bit_no_start_from a start num = Some r \<and>
           (if r = -1 then \<forall>k \<in> {start<..<num}. bset a (nat k)
            else start < r \<and> r < num \<and> \<not> bset a (nat r) \<and> (\<forall>k \<in> {start<..<r}. bset a (nat k)))"
  using find_free_bit_correct [OF assms] first_clear_props [of start a num] assms
  by (auto split: if_splits)

theorem find_free_bit_first_clear_witness:
  "scan_ok [255, 1] 16 \<and> find_block_free_bit_no_start_from [255, 1] (-1) 16 = Some 9"
proof -
  have ok: "scan_ok [255, 1] 16" by (simp add: scan_ok_def)
  have b: "bset [255, 1] (nat k) \<longleftrightarrow> k < 9" if "0 \<le> k" "k < 16" for k
  proof -
    have "\<forall>k \<in> {0..<16::nat}. bset [255, 1] k \<longleftrightarrow> k < 9" by code_simp
    with that show ?thesis by (simp add: nat_less_iff)
  qed
  from find_free_bit_first_clear [OF ok, of "-1"] obtain r where
    r: "find_block_free_bit_no_start_from [255, 1] (-1) 16 = Some r"
    and p: "if r = -1 then \<forall>k \<in> {-1<..<16}. bset [255, 1] (nat k)
            else -1 < r \<and> r < 16 \<and> \<not> bset [255, 1] (nat r) \<and>
                 (\<forall>k \<in> {-1<..<r}. bset [255, 1] (nat k))" by auto
  from p b [of r] b [of 9] have "r = 9"
    by (cases "r = -1"; cases "9 < r") (auto dest: bspec [of _ _ 9])
  with ok r show ?thesis by simp
qed

text \<open>On every non-empty bitmap block and for every run length of at least two, the
  run search returns the first position where that many clear bits follow one another, and
  -1 exactly when the block has no such run.\<close>

theorem find_multi_bits_first_run:
  assumes "scan_ok a num" "0 < num" "2 \<le> need"
  shows "\<exists>r. find_block_free_multi_bits_no a num need = Some r \<and>
           (if r = -1 then \<forall>k \<in> {0..num - need}. \<exists>j \<in> {k..<k + need}. bset a (nat j)
            else 0 \<le> r \<and> r + need \<le> num \<and> (\<forall>j \<in> {r..<r + need}. \<not> bset a (nat j)) \<and>
                 (\<forall>k \<in> {0..<r}. \<exists>j \<in> {k..<k + need}. bset a (nat j)))"
proof -
  have "find_block_free_multi_bits_no a num need = Some (first_run a need 0 num)"
    using assms by (rule find_multi_bits_correct)
  then show ?thesis
    using find_upto_props [where P = "clear_run a need" and lo = 0 and hi = "num - need"]
    by (auto simp: first_run_def clear_run_iff split: option.splits)
qed

theorem find_multi_bits_first_run_witness:
  "scan_ok [181, 3] 16 \<and>
   (\<exists>r. find_block_free_multi_bits_no [181, 3] 16 3 = Some r \<and> (r = -1 \<or> 0 \<le> r \<and> r \<le> 13))"
  using find_multi_bits_first_run [of "[181, 3]" 16 3]
  by (auto simp: scan_ok_def split: if_splits)

text \<open>A run of length one is never found: on every non-empty block, also one with free
  bits, the run search with \<open>numBitsNeed = 1\<close> returns -1, because \<open>start_bit_no\<close> is not
  written before the loop is left at the first clear bit.\<close>

theorem find_multi_bits_need_one:
  assumes "scan_ok a num" "0 < num"
  shows "find_block_free_multi_bits_no a num 1 = Some (-1)"
  using find_multi_loop_one [OF assms(1), of "-1" "-1"] assms(2)
  by (auto simp: find_block_free_multi_bits_no_def)

theorem find_multi_bits_need_one_witness:
  "\<not> bset [0] 0 \<and> find_block_free_multi_bits_no [0] 8 1 = Some (-1)"
  using find_multi_bits_need_one [of "[0]" 8] by (simp add: scan_ok_def bset_def)

text \<open>C40: The aligned search returns the first multiple of \<open>numBitsJump\<close> whose bit is
  clear, and -1 exactly when every such bit is set, on every block whose size is a multiple
  of \<open>numBitsJump\<close>.\<close>

theorem find_jump_bits_first_slot:
  assumes "scan_ok a num" "0 < num" "0 < jump" "jump dvd num"
  shows "\<exists>r. find_block_free_jump_bits_no_start_from a 0 num jump = Some r \<and>
           (if r = -1 then \<forall>k \<in> {0..<num div jump}. bset a (nat (k * jump))
            else \<exists>s. r = s * jump \<and> 0 \<le> s \<and> s < num div jump \<and> \<not> bset a (nat r) \<and>
                     (\<forall>k \<in> {0..<s}. bset a (nat (k * jump))))"
proof -
  have pos: "0 \<le> s * jump" if "0 \<le> s" for s using that assms(3) by simp
  have "find_block_free_jump_bits_no_start_from a 0 num jump = Some (first_slot a jump 0 num)"
    using assms by (rule find_jump_bits_correct)
  then show ?thesis
    using find_upto_props [where P = "\<lambda>k. \<not> bset a (nat (k * jump))" and lo = 0
        and hi = "num div jump - 1"] pos
    by (fastforce simp: first_slot_def split: option.splits)
qed

theorem find_jump_bits_first_slot_witness:
  "\<exists>r. find_block_free_jump_bits_no_start_from [1, 0] 0 16 8 = Some r \<and> (r = -1 \<or> 8 dvd r)"
  using find_jump_bits_first_slot [of "[1, 0]" 16 8]
  by (auto simp: scan_ok_def split: if_splits)

text \<open>Setting, clearing and testing a bit of a block agree: for a bit inside the block,
  \<open>block_set_bit\<close> and \<open>block_clear_bit\<close> report whether it was set, change that bit to 1
  resp. 0 and no other bit, keep the length, and the test afterwards sees the new value.\<close>

theorem set_clear_bit_functional:
  assumes "i < 8 * length a" "i < 2 ^ 32"
  shows "(\<exists>v a'. block_set_bit (of_nat i) a = Some (v, a') \<and> (v \<noteq> 0 \<longleftrightarrow> bset a i) \<and>
            length a' = length a \<and> (\<forall>j < 8 * length a. bset a' j \<longleftrightarrow> j = i \<or> bset a j) \<and>
            block_test_bit (of_nat i) a' \<noteq> Some 0) \<and>
         (\<exists>v a'. block_clear_bit (of_nat i) a = Some (v, a') \<and> (v \<noteq> 0 \<longleftrightarrow> bset a i) \<and>
            length a' = length a \<and> (\<forall>j < 8 * length a. bset a' j \<longleftrightarrow> j \<noteq> i \<and> bset a j) \<and>
            block_test_bit (of_nat i) a' = Some 0)"
  using block_set_bit_of_nat [OF assms] block_clear_bit_of_nat [OF assms] by blast

theorem set_clear_bit_functional_witness:
  "\<exists>v a'. block_set_bit (of_nat 9) [0, 4] = Some (v, a') \<and> block_test_bit (of_nat 9) a' \<noteq> Some 0"
  using set_clear_bit_functional [of 9 "[0, 4]"] by auto

end
