(* ===== verification/Ufs_Layout.thy ===== *)
theory Ufs_Layout
  imports Ufs_Prelude
begin

text \<open>
  The on-disk layout of \<open>cfs/include/FsProc_FsInternal.h\<close>: the extents of an inode and their
  allocation units, the part of the data bitmap each extent size allocates from, and the block
  numbers of superblock, inode bitmap, journals, data bitmaps, inodes and data. All of it is
  unsigned 32- and 64-bit arithmetic, kept at its width; the constants are those of the default
  build (800 GB device, ten workers, the micro-benchmark extent shares).
\<close>

subsection \<open>Parameters\<close>

definition BSIZE_w :: u64 where [code_unfold]: "BSIZE_w = 4096"
definition SSD_SEC_SIZE :: u64 where [code_unfold]: "SSD_SEC_SIZE = 512"
definition DEV_SIZE :: u64 where [code_unfold]: "DEV_SIZE = 858993459200"
definition NINODES :: u64 where [code_unfold]: "NINODES = 125000"
definition NEXTENT_ARR :: int where [code_unfold]: "NEXTENT_ARR = 7"
definition NMAX_FSP_WORKER :: nat where [code_unfold]: "NMAX_FSP_WORKER = 10"
definition BPB :: u64 where [code_unfold]: "BPB = BSIZE_w * 8"

text \<open>Eight inodes of 512 bytes in a block.\<close>

definition IPB :: u64 where [code_unfold]: "IPB = BSIZE_w div 512"

definition LOCAL_JOURNAL_NBLOCKS :: u64 where
  [code_unfold]: "LOCAL_JOURNAL_NBLOCKS = 4 * 1024 * 1024 * 1024 div BSIZE_w"

definition LAST_EXTENT_ALLOC_UNIT_BYTE :: u64 where
  [code_unfold]: "LAST_EXTENT_ALLOC_UNIT_BYTE = 4294967296"

definition LAST_EXTENT_MAX_BMAP_BLOCK_NUM :: u64 where
  [code_unfold]: "LAST_EXTENT_MAX_BMAP_BLOCK_NUM =
     LAST_EXTENT_ALLOC_UNIT_BYTE div (BPB * BSIZE_w) * of_nat NMAX_FSP_WORKER"

definition kFsPerExtShareArr :: "int list" where
  [code_unfold]: "kFsPerExtShareArr = [1, 1, 4, 8, 16, 20]"

definition kFsExtArrShareSum :: int where
  [code_unfold]: "kFsExtArrShareSum = sum_list kFsPerExtShareArr"

lemmas layout_params =
  BSIZE_w_def SSD_SEC_SIZE_def DEV_SIZE_def NINODES_def NEXTENT_ARR_def NMAX_FSP_WORKER_def
  BPB_def IPB_def LOCAL_JOURNAL_NBLOCKS_def LAST_EXTENT_ALLOC_UNIT_BYTE_def
  LAST_EXTENT_MAX_BMAP_BLOCK_NUM_def kFsPerExtShareArr_def kFsExtArrShareSum_def

subsection \<open>Extents of an inode\<close>

definition extentArrIdx2BlockAllocUnit :: "int \<Rightarrow> u32" where
  "extentArrIdx2BlockAllocUnit i =
     (if i \<ge> NEXTENT_ARR \<or> i < 0 then 0
      else if i = 0 then 1
      else if i = 1 then 2048
      else if i = NEXTENT_ARR - 1 then ucast (LAST_EXTENT_ALLOC_UNIT_BYTE div BSIZE_w)
      else ucast BPB * 2 ^ nat (i - 2))"

text \<open>
  The share table has six entries; reading behind its end or before its start is undefined.
  The first component of the result is the start, the second \<open>maxBmapBlockNum\<close>.
\<close>

definition share_at :: "int \<Rightarrow> int option" where
  "share_at i = (if 0 \<le> i \<and> i < int (length kFsPerExtShareArr)
                 then Some (kFsPerExtShareArr ! nat i) else None)"

fun pre_share :: "nat \<Rightarrow> int option" where
  "pre_share 0 = Some 0"
| "pre_share (Suc i) = do { t \<leftarrow> pre_share i; s \<leftarrow> share_at (int i); Some (t + s) }"

definition getDataBMapStartBlockNoForExtentArrIdx :: "int \<Rightarrow> u32 \<Rightarrow> (u32 \<times> u32) option" where
  "getDataBMapStartBlockNoForExtentArrIdx i totalNum =
     (let per_share =
        (ucast totalNum - LAST_EXTENT_MAX_BMAP_BLOCK_NUM) div (of_int kFsExtArrShareSum :: u64)
      in do {
        maxb \<leftarrow> (if i + 1 = NEXTENT_ARR then Some (ucast LAST_EXTENT_MAX_BMAP_BLOCK_NUM)
                else map_option (\<lambda>s. ucast (per_share * of_int s)) (share_at i));
        pre \<leftarrow> pre_share (nat i);
        Some (ucast (of_int pre * per_share), maxb) })"

text \<open>
  The loop of \<open>getCurrentExtentArrIdx\<close>: \<open>i\<close>, the blocks of the extents before it and the
  result \<open>(index, inside_extent_idx, extent_max_block_num)\<close>.
\<close>

function getCurrentExtent_loop :: "u32 \<Rightarrow> int \<Rightarrow> u32 \<Rightarrow> u32 \<Rightarrow> int \<times> u32 \<times> u32" where
  "getCurrentExtent_loop idx i blockNum maxb =
     (if i < NEXTENT_ARR
      then let maxb' = extentArrIdx2BlockAllocUnit i; blockNum' = blockNum + maxb'
           in if idx < blockNum' then (i, idx - (blockNum' - maxb'), maxb')
              else getCurrentExtent_loop idx (i + 1) blockNum' maxb'
      else (-1, 0, maxb))"
  by pat_completeness auto
termination
  by (relation "measure (\<lambda>(idx, i, b, m). nat (NEXTENT_ARR - i))") auto

declare getCurrentExtent_loop.simps [simp del]

definition getCurrentExtentArrIdx :: "u32 \<Rightarrow> int \<times> u32 \<times> u32" where
  "getCurrentExtentArrIdx idx = getCurrentExtent_loop idx 0 0 0"

subsection \<open>Block numbers\<close>

definition get_imap_start_block :: u64 where
  "get_imap_start_block = 1 + 1"

definition get_dev_imap_num_blocks :: u64 where
  "get_dev_imap_num_blocks = NINODES div BPB + 1"

definition get_dev_bmap_num_blocks_in_total :: u64 where
  "get_dev_bmap_num_blocks_in_total = DEV_SIZE div BSIZE_w div BPB + 1"

definition get_dev_bmap_num_blocks_for_worker :: "int \<Rightarrow> u64" where
  "get_dev_bmap_num_blocks_for_worker widIdx =
     get_dev_bmap_num_blocks_in_total div of_nat NMAX_FSP_WORKER"

definition get_dev_inode_num_blocks :: u64 where
  "get_dev_inode_num_blocks = NINODES div IPB + 1"

definition get_dev_data_num_blocks_for_worker :: "int \<Rightarrow> u64" where
  "get_dev_data_num_blocks_for_worker widIdx = get_dev_bmap_num_blocks_for_worker widIdx * BPB"

definition get_worker_journal_sb :: "int \<Rightarrow> u64" where
  "get_worker_journal_sb widIdx =
     get_imap_start_block + get_dev_imap_num_blocks + of_int widIdx * LOCAL_JOURNAL_NBLOCKS"

definition get_bmap_start_block :: u64 where
  "get_bmap_start_block = get_worker_journal_sb (int NMAX_FSP_WORKER)"

text \<open>A loop that adds the same amount \<open>n\<close> times.\<close>

fun add_times :: "nat \<Rightarrow> u64 \<Rightarrow> u64" where
  "add_times 0 x = 0"
| "add_times (Suc n) x = add_times n x + x"

definition get_bmap_start_block_for_worker :: "int \<Rightarrow> u64" where
  "get_bmap_start_block_for_worker widIdx =
     get_bmap_start_block + add_times (nat widIdx) (get_dev_bmap_num_blocks_for_worker widIdx)"

definition get_inode_start_block :: u64 where
  "get_inode_start_block = get_bmap_start_block_for_worker 0 + get_dev_bmap_num_blocks_in_total"

definition get_data_start_block :: u64 where
  "get_data_start_block = get_inode_start_block + get_dev_inode_num_blocks"

definition get_data_new_alloc_start_block_for_worker :: "int \<Rightarrow> u64" where
  "get_data_new_alloc_start_block_for_worker widIdx =
     get_inode_start_block + get_dev_inode_num_blocks +
     add_times (nat widIdx) (get_dev_data_num_blocks_for_worker widIdx)"

text \<open>The conversion to \<open>int\<close> of the quotient: the low 32 bits, signed.\<close>

definition getWidForBitmapBlock :: "u64 \<Rightarrow> int" where
  "getWidForBitmapBlock bno =
     sint (ucast ((bno - get_bmap_start_block) div get_dev_bmap_num_blocks_for_worker 0) :: u32)"

definition isBitmapBlock :: "u64 \<Rightarrow> bool" where
  "isBitmapBlock b \<longleftrightarrow> b \<ge> get_bmap_start_block_for_worker 0 \<and> b < get_inode_start_block"

definition isInodeBitmap :: "u64 \<Rightarrow> bool" where
  "isInodeBitmap b \<longleftrightarrow>
     b \<ge> get_imap_start_block \<and> b \<le> get_imap_start_block + get_dev_imap_num_blocks"

definition calcSectorForInode :: "u32 \<Rightarrow> u32" where
  "calcSectorForInode ino = ucast (ucast ino + BSIZE_w div SSD_SEC_SIZE * get_inode_start_block)"

definition conv_lba_to_pba :: "u64 \<Rightarrow> u64" where
  "conv_lba_to_pba lba = lba + get_data_start_block"

definition conv_pba_to_lba :: "u64 \<Rightarrow> u64" where
  "conv_pba_to_lba pba = pba - get_data_start_block"

definition get_bmap_block_for_lba :: "u32 \<Rightarrow> u32" where
  "get_bmap_block_for_lba lba = ucast (ucast lba div BPB + get_bmap_start_block_for_worker 0)"

definition get_bmap_block_for_pba :: "u32 \<Rightarrow> u32" where
  "get_bmap_block_for_pba pba = get_bmap_block_for_lba (ucast (conv_pba_to_lba (ucast pba)))"

definition get_imap_for_inode :: "u64 \<Rightarrow> u32" where
  "get_imap_for_inode ino = ucast (ino div BPB + get_imap_start_block)"

subsection \<open>Values of the default configuration\<close>

lemma layout_values [simp]:
  "get_imap_start_block = 2" "get_dev_imap_num_blocks = 4"
  "get_dev_bmap_num_blocks_in_total = 6401" "get_dev_bmap_num_blocks_for_worker w = 640"
  "get_dev_inode_num_blocks = 15626" "get_bmap_start_block = 10485766"
  by (simp_all add: get_imap_start_block_def get_dev_imap_num_blocks_def
      get_dev_bmap_num_blocks_in_total_def get_dev_bmap_num_blocks_for_worker_def
      get_dev_inode_num_blocks_def get_bmap_start_block_def get_worker_journal_sb_def
      layout_params)

lemma layout_values2 [simp]:
  "get_bmap_start_block_for_worker 0 = 10485766"
  "get_inode_start_block = 10492167" "get_data_start_block = 10507793"
  by (simp_all add: get_bmap_start_block_for_worker_def get_inode_start_block_def
      get_data_start_block_def)

lemma unit_values [simp]:
  "extentArrIdx2BlockAllocUnit 0 = 1" "extentArrIdx2BlockAllocUnit 1 = 2048"
  "extentArrIdx2BlockAllocUnit 2 = 32768" "extentArrIdx2BlockAllocUnit 3 = 65536"
  "extentArrIdx2BlockAllocUnit 4 = 131072" "extentArrIdx2BlockAllocUnit 5 = 262144"
  "extentArrIdx2BlockAllocUnit 6 = 1048576"
  by (simp_all add: extentArrIdx2BlockAllocUnit_def layout_params)

subsection \<open>Correctness properties\<close>

lemma extent_loop_step:
  "i < 7 \<Longrightarrow> getCurrentExtent_loop idx i b m =
     (if idx < b + extentArrIdx2BlockAllocUnit i
      then (i, idx - b, extentArrIdx2BlockAllocUnit i)
      else getCurrentExtent_loop idx (i + 1) (b + extentArrIdx2BlockAllocUnit i)
             (extentArrIdx2BlockAllocUnit i))"
  by (subst getCurrentExtent_loop.simps) (simp add: Let_def NEXTENT_ARR_def)

lemma extent_loop_end: "getCurrentExtent_loop idx 7 b m = (-1, 0, m)"
  by (subst getCurrentExtent_loop.simps) (simp add: NEXTENT_ARR_def)

definition extent_base :: "nat \<Rightarrow> nat" where
  "extent_base i = sum_list (map (\<lambda>j. unat (extentArrIdx2BlockAllocUnit (int j))) [0..<i])"

lemma extent_base_values:
  "extent_base 0 = 0" "extent_base 1 = 1" "extent_base 2 = 2049" "extent_base 3 = 34817"
  "extent_base 4 = 100353" "extent_base 5 = 231425" "extent_base 6 = 493569"
  "extent_base 7 = 1542145"
  by (simp_all add: extent_base_def upt_rec [of _ "Suc 0"] upt_rec [of _ "numeral n" for n])

lemma current_extent_cases:
  "getCurrentExtentArrIdx idx =
     (if idx < 1 then (0, idx, 1)
      else if idx < 2049 then (1, idx - 1, 2048)
      else if idx < 34817 then (2, idx - 2049, 32768)
      else if idx < 100353 then (3, idx - 34817, 65536)
      else if idx < 231425 then (4, idx - 100353, 131072)
      else if idx < 493569 then (5, idx - 231425, 262144)
      else if idx < 1542145 then (6, idx - 493569, 1048576)
      else (-1, 0, 1048576))"
  by (simp add: getCurrentExtentArrIdx_def extent_loop_step extent_loop_end)

text \<open>C12: Every block of a file has its place in exactly one extent. The search returns -1
  exactly for block indices behind the capacity of all seven extents (1542145 blocks);
  otherwise it returns the extent whose range of file blocks contains the index, with the
  offset inside the extent and the allocation unit of that extent.\<close>

theorem current_extent_correct:
  "case getCurrentExtentArrIdx idx of (i, inside, maxb) \<Rightarrow>
     if extent_base 7 \<le> unat idx then i = -1
     else 0 \<le> i \<and> i < 7 \<and> maxb = extentArrIdx2BlockAllocUnit i \<and> inside < maxb \<and>
          unat idx = extent_base (nat i) + unat inside"
proof -
  have sub: "unat (idx - b) = unat idx - unat b" if "\<not> idx < b" for b
    using that by (simp add: unat_sub_no_underflow not_less)
  show ?thesis
    unfolding current_extent_cases
    by (auto simp: extent_base_values extent_base_values(2) [unfolded One_nat_def]
        word_less_nat_alt sub)
qed

lemma pre_share_values:
  "pre_share 0 = Some 0" "pre_share 1 = Some 1" "pre_share 2 = Some 2" "pre_share 3 = Some 6"
  "pre_share 4 = Some 14" "pre_share 5 = Some 30" "pre_share 6 = Some 50"
  by (simp_all add: eval_nat_numeral share_at_def kFsPerExtShareArr_def)

lemma shares_step:
  assumes "0 \<le> i" "i < 6"
  obtains p s where "pre_share (nat i) = Some (int p)" "share_at i = Some (int s)"
    "pre_share (nat (i + 1)) = Some (int (p + s))" "p + s \<le> 50"
proof -
  consider "i = 0" | "i = 1" | "i = 2" | "i = 3" | "i = 4" | "i = 5"
    using assms by linarith
  then show ?thesis
    by cases (use that [of 0 1] that [of 1 1] that [of 2 4] that [of 6 8] that [of 14 16]
        that [of 30 20] in \<open>simp_all add: pre_share_values share_at_def kFsPerExtShareArr_def\<close>)
qed

text \<open>C13: The extent sizes allocate from disjoint parts of a bitmap. For every bitmap of at
  least 320 blocks and every extent index, the start and length of its part are defined, the
  part ends inside the bitmap, and the part of the next extent index starts exactly where this
  one ends.\<close>

theorem extent_bitmap_parts:
  assumes "320 \<le> tot" "0 \<le> i" "i < 7"
  shows "\<exists>s n. getDataBMapStartBlockNoForExtentArrIdx i tot = Some (s, n) \<and>
           unat s + unat n \<le> unat tot \<and>
           (i < 6 \<longrightarrow> (\<exists>m. getDataBMapStartBlockNoForExtentArrIdx (i + 1) tot = Some (s + n, m)))"
proof -
  define q where "q = (unat tot - 320) div 50"
  have q: "50 * q + 320 \<le> unat tot"
    using assms(1) by (simp add: q_def word_le_nat_alt)
  have tot: "unat tot < 2 ^ 32" using unat_below [of tot] by simp
  have ps: "(ucast tot - 320) div 50 = (of_nat q :: u64)"
  proof -
    have "unat (ucast tot - 320 :: u64) = unat tot - 320"
      using assms(1) by (subst unat_sub_no_underflow)
        (auto simp: word_le_nat_alt unat_ucast_up)
    then have "unat ((ucast tot - 320) div 50 :: u64) = q" by (simp add: unat_div q_def)
    then have "of_nat (unat ((ucast tot - 320) div 50 :: u64)) = (of_nat q :: u64)" by simp
    then show ?thesis by simp
  qed
  have params: "LAST_EXTENT_MAX_BMAP_BLOCK_NUM = 320" "kFsExtArrShareSum = 50" "NEXTENT_ARR = 7"
    by (simp_all add: layout_params)
  have get: "getDataBMapStartBlockNoForExtentArrIdx i tot =
      Some (of_nat (p * q), if i = 6 then 320 else of_nat (s * q))"
    if "pre_share (nat i) = Some (int p)" "i = 6 \<or> share_at i = Some (int s)" for i p s
  proof -
    have mul: "ucast (of_nat a * of_nat q :: u64) = (of_nat (a * q) :: u32)"
      "ucast (of_nat q * of_nat a :: u64) = (of_nat (a * q) :: u32)" for a
      by (simp_all add: ucast_of_nat_down mult.commute flip: of_nat_mult)
    show ?thesis
      using that mul
      by (cases "i = 6")
         (simp_all add: getDataBMapStartBlockNoForExtentArrIdx_def params ps Let_def)
  qed
  have un: "unat (of_nat k :: u32) = k" if "k \<le> 50 * q + 320" for k
    using that q tot by (simp add: unat_of_nat)
  show ?thesis
  proof (cases "i = 6")
    case True
    then show ?thesis
      using get [of 6 50 0] un [of "50 * q"] q by (simp add: pre_share_values)
  next
    case False
    with assms(2,3) obtain p s where ps: "pre_share (nat i) = Some (int p)"
      "share_at i = Some (int s)" "pre_share (nat (i + 1)) = Some (int (p + s))" "p + s \<le> 50"
      using shares_step [of i] by auto
    have "p * q + s * q \<le> 50 * q"
      using ps(4) by (simp flip: add_mult_distrib)
    then have "unat (of_nat (p * q) :: u32) + unat (of_nat (s * q) :: u32) \<le> unat tot"
      using un [of "p * q"] un [of "s * q"] q by linarith
    moreover have "of_nat (p * q) + of_nat (s * q) = (of_nat ((p + s) * q) :: u32)"
      by (simp add: algebra_simps)
    moreover obtain s' where "i + 1 = 6 \<or> share_at (i + 1) = Some (int s')"
      by (cases "i + 1 = 6") (use shares_step [of "i + 1"] assms(2,3) False in auto)
    ultimately show ?thesis
      using get [of i p s] get [of "i + 1" "p + s" s'] ps False by simp
  qed
qed

theorem extent_bitmap_parts_witness:
  "\<exists>s n. getDataBMapStartBlockNoForExtentArrIdx 6 640 = Some (s, n) \<and> unat s + unat n \<le> 640"
  using extent_bitmap_parts [of 640 6] by (auto simp: word_le_nat_alt)

lemma add_times_of_nat: "add_times n x = of_nat n * x"
  by (induction n) (simp_all add: algebra_simps)

lemma sint_of_nat32: "n < 2 ^ 31 \<Longrightarrow> sint (of_nat n :: u32) = int n"
  by (simp add: sint_uint unsigned_of_nat take_bit_nat_eq_self signed_take_bit_int_eq_self)

lemma bitmap_block_nat:
  assumes "k < 6401"
  shows "getWidForBitmapBlock (10485766 + of_nat k) = int (k div 640)"
    "isBitmapBlock (10485766 + of_nat k)"
proof -
  have "unat (of_nat k div 640 :: u64) = k div 640"
    using assms by (simp add: unat_div unat_of_nat)
  then have "(of_nat k div 640 :: u64) = of_nat (k div 640)"
    using assms by (simp add: word_unat_eq_iff unat_of_nat)
  then have "getWidForBitmapBlock (10485766 + of_nat k) = sint (of_nat (k div 640) :: u32)"
    by (simp add: getWidForBitmapBlock_def ucast_of_nat_down)
  also have "\<dots> = int (k div 640)" using assms by (intro sint_of_nat32) simp
  finally show "getWidForBitmapBlock (10485766 + of_nat k) = int (k div 640)" .
  show "isBitmapBlock (10485766 + of_nat k)"
    using assms
    by (simp add: isBitmapBlock_def word_le_nat_alt word_less_nat_alt unat_add_no_overflow
        unat_of_nat)
qed

text \<open>C14: Bitmap blocks are partitioned among the workers. The \<open>k\<close>-th block from the start
  that \<open>get_bmap_start_block_for_worker\<close> gives for worker \<open>w\<close> is a bitmap block and is owned
  by \<open>w\<close>, for each of the ten workers and each of its 640 blocks.\<close>

theorem bitmap_block_owner:
  assumes "w < NMAX_FSP_WORKER" "k < unat (get_dev_bmap_num_blocks_for_worker (int w))"
  shows "isBitmapBlock (get_bmap_start_block_for_worker (int w) + of_nat k) \<and>
         getWidForBitmapBlock (get_bmap_start_block_for_worker (int w) + of_nat k) = int w"
proof -
  have lt: "640 * w + k < 6401" "(640 * w + k) div 640 = w"
    using assms by (simp_all add: NMAX_FSP_WORKER_def)
  have "get_bmap_start_block_for_worker (int w) + of_nat k = 10485766 + of_nat (640 * w + k)"
    by (simp add: get_bmap_start_block_for_worker_def add_times_of_nat)
  with bitmap_block_nat [OF lt(1)] lt(2) show ?thesis by metis
qed

theorem bitmap_block_owner_witness:
  "getWidForBitmapBlock (get_bmap_start_block_for_worker 9 + of_nat 639) = 9"
  using bitmap_block_owner [of 9 639] by (simp add: NMAX_FSP_WORKER_def)

text \<open>The last data bitmap block has no owner: block 6400 is a bitmap block, but
  \<open>getWidForBitmapBlock\<close> gives it to worker 10 while workers are numbered 0 to 9.\<close>

theorem last_bitmap_block_unowned:
  "isBitmapBlock (get_bmap_start_block_for_worker 0 + (get_dev_bmap_num_blocks_in_total - 1)) \<and>
   getWidForBitmapBlock
     (get_bmap_start_block_for_worker 0 + (get_dev_bmap_num_blocks_in_total - 1))
     = int NMAX_FSP_WORKER"
  using bitmap_block_nat [of 6400] by (simp add: NMAX_FSP_WORKER_def)

lemma bmap_block_for_lba_nat:
  assumes "unat lba < 209715200"
  shows "unat (get_bmap_block_for_lba lba) = unat lba div 32768 + 10485766"
    "ucast (get_bmap_block_for_lba lba) = (10485766 + of_nat (unat lba div 32768) :: u64)"
proof -
  show bm: "unat (get_bmap_block_for_lba lba) = unat lba div 32768 + 10485766"
    using assms
    by (simp add: get_bmap_block_for_lba_def BPB_def BSIZE_w_def unat_ucast_down
        unat_add_no_overflow unat_div unat_ucast_up)
  then show "ucast (get_bmap_block_for_lba lba) = (10485766 + of_nat (unat lba div 32768) :: u64)"
    using assms by (simp add: word_unat_eq_iff unat_ucast_up unat_add_no_overflow unat_of_nat)
qed

lemma conv_lba_to_pba_nat:
  "unat lba < 209715200 \<Longrightarrow> unat (conv_lba_to_pba (ucast (lba :: u32))) = unat lba + 10507793"
  by (simp add: conv_lba_to_pba_def unat_add_no_overflow unat_ucast_up)

text \<open>C15: Physical and logical addresses and bitmap blocks fit together. For every data block
  of the ten workers, converting its logical address to a physical one and back is the
  identity, also after the truncation to 32 bits that the callers apply; the bitmap block
  computed from either address is the same, is a bitmap block of the worker that owns the data
  block, and is the one whose bits start at the multiple of 32768 below the address.\<close>

theorem address_roundtrip:
  assumes "unat lba < NMAX_FSP_WORKER * 640 * 32768"
  shows "conv_pba_to_lba (conv_lba_to_pba (ucast lba)) = ucast lba \<and>
         ucast (ucast (conv_lba_to_pba (ucast lba)) :: u32) = conv_lba_to_pba (ucast lba) \<and>
         get_bmap_block_for_pba (ucast (conv_lba_to_pba (ucast lba))) = get_bmap_block_for_lba lba \<and>
         isBitmapBlock (ucast (get_bmap_block_for_lba lba)) \<and>
         getWidForBitmapBlock (ucast (get_bmap_block_for_lba lba)) = int (unat lba div (640 * 32768)) \<and>
         (unat (get_bmap_block_for_lba lba) - 10485766) * 32768 + unat lba mod 32768 = unat lba"
proof -
  let ?pba = "conv_lba_to_pba (ucast lba)"
  have lt: "unat lba < 209715200" using assms by (simp add: NMAX_FSP_WORKER_def)
  have pba: "unat ?pba = unat lba + 10507793" using lt by (rule conv_lba_to_pba_nat)
  have trunc: "ucast (ucast ?pba :: u32) = ?pba"
    using lt pba by (simp add: word_unat_eq_iff unat_ucast_up unat_ucast_down)
  have conv_back: "conv_pba_to_lba ?pba = ucast lba"
    by (simp add: conv_pba_to_lba_def conv_lba_to_pba_def)
  have lba_id: "ucast (ucast lba :: u64) = lba"
    by (simp add: word_unat_eq_iff unat_ucast_up unat_ucast_down unat_below [of lba, simplified])
  note bm = bmap_block_for_lba_nat(1) [OF lt] and bmw = bmap_block_for_lba_nat(2) [OF lt]
  have k: "unat lba div 32768 < 6401" "unat lba div 32768 div 640 = unat lba div (640 * 32768)"
    using lt by (auto simp flip: div_mult2_eq)
  have "get_bmap_block_for_pba (ucast ?pba) = get_bmap_block_for_lba lba"
    by (simp add: get_bmap_block_for_pba_def trunc conv_back lba_id)
  moreover have "isBitmapBlock (ucast (get_bmap_block_for_lba lba))"
    "getWidForBitmapBlock (ucast (get_bmap_block_for_lba lba)) = int (unat lba div (640 * 32768))"
    using bitmap_block_nat [OF k(1)] k(2) by (simp_all add: bmw)
  ultimately show ?thesis using conv_back trunc bm by simp
qed

theorem address_roundtrip_witness:
  "conv_pba_to_lba (conv_lba_to_pba (ucast (209715199 :: u32))) = 209715199"
  using address_roundtrip [of 209715199] by (simp add: NMAX_FSP_WORKER_def)

text \<open>Every inode has its own device sector inside the inode table: for inode numbers up
  to \<open>NINODES\<close> the sector number does not wrap at 32 bits, distinct inodes have distinct
  sectors, and the sector lies between the inode table's first block and the first data block.\<close>

theorem inode_sector_unique:
  assumes "ino \<le> 125000"
  shows "unat (calcSectorForInode ino) = unat ino + 8 * unat get_inode_start_block \<and>
         unat (calcSectorForInode ino) < 8 * unat get_data_start_block"
proof -
  have "unat ino \<le> 125000" using assms by (simp add: word_le_nat_alt)
  then show ?thesis
    by (simp add: calcSectorForInode_def BSIZE_w_def SSD_SEC_SIZE_def unat_ucast_down
        unat_add_no_overflow unat_ucast_up)
qed

theorem inode_sector_unique_witness:
  "unat (calcSectorForInode 1) = 1 + 8 * unat get_inode_start_block"
  using inode_sector_unique [of 1] by simp

text \<open>The inode bitmap test is off by one: besides the inode bitmap blocks it accepts the
  first journal superblock, which follows them.\<close>

theorem isInodeBitmap_accepts_journal:
  "isInodeBitmap b \<longleftrightarrow>
     get_imap_start_block \<le> b \<and> b < get_imap_start_block + get_dev_imap_num_blocks \<or>
     b = get_worker_journal_sb 0"
proof -
  have "unat b = 6 \<longleftrightarrow> b = 6" by (simp add: word_unat_eq_iff)
  then show ?thesis
    by (auto simp: isInodeBitmap_def get_worker_journal_sb_def word_le_nat_alt word_less_nat_alt)
qed

text \<open>The data bitmap covers blocks the device does not have: worker 9 owns bitmap bits
  whose data blocks lie behind the end of the device (209715200 blocks), because the bitmap is
  sized for the whole device while the data region starts after 10507793 metadata blocks.\<close>

theorem data_blocks_behind_device:
  assumes "199207407 \<le> lba" "lba < 209715200"
  shows "getWidForBitmapBlock (ucast (get_bmap_block_for_lba lba)) = 9 \<and>
         DEV_SIZE div BSIZE_w \<le> conv_lba_to_pba (ucast lba)"
proof -
  have lt: "199207407 \<le> unat lba" "unat lba < 209715200"
    using assms by (simp_all add: word_le_nat_alt word_less_nat_alt)
  then have "unat lba div 32768 < 6401" "unat lba div 32768 div 640 = 9"
    by auto
  then have "getWidForBitmapBlock (ucast (get_bmap_block_for_lba lba)) = 9"
    using bitmap_block_nat(1) [of "unat lba div 32768"] lt
    by (simp add: bmap_block_for_lba_nat)
  moreover have "unat (conv_lba_to_pba (ucast lba)) = unat lba + 10507793"
    using lt(2) by (rule conv_lba_to_pba_nat)
  ultimately show ?thesis
    using lt by (simp add: DEV_SIZE_def BSIZE_w_def word_le_nat_alt)
qed

theorem data_blocks_behind_device_witness:
  "DEV_SIZE div BSIZE_w \<le> conv_lba_to_pba (ucast (200000000 :: u32))"
  using data_blocks_behind_device [of 200000000] by (simp add: word_le_nat_alt word_less_nat_alt)

end
