(* ===== verification/Ufs_Codec.thy ===== *)
theory Ufs_Codec
  imports Ufs_Prelude
begin

text \<open>
  Fixed-width binary encodings, the memory format of the journal. A reader takes the bytes from
  a pointer on and returns the value with the bytes behind it; running out of bytes is
  \<^const>\<open>None\<close>. The locale states the contract of one encoding (its width, and that reading
  what was written gives the value back whatever follows); arrays of values and pairs of
  encodings come from it once and for all. Integers are little-endian, as on the machines the
  file system runs on.
\<close>

subsection \<open>The interface\<close>

fun put_all :: "('a \<Rightarrow> bytes) \<Rightarrow> 'a list \<Rightarrow> bytes" where
  "put_all enc [] = []"
| "put_all enc (x # xs) = enc x @ put_all enc xs"

fun get_n :: "(bytes \<Rightarrow> ('a \<times> bytes) option) \<Rightarrow> nat \<Rightarrow> bytes \<Rightarrow> ('a list \<times> bytes) option" where
  "get_n dec 0 bs = Some ([], bs)"
| "get_n dec (Suc n) bs = do { (x, bs') \<leftarrow> dec bs; (xs, bs'') \<leftarrow> get_n dec n bs'; Some (x # xs, bs'') }"

definition put_pair :: "('a \<Rightarrow> bytes) \<Rightarrow> ('a \<Rightarrow> 'b \<Rightarrow> bytes) \<Rightarrow> 'a \<times> 'b \<Rightarrow> bytes" where
  "put_pair enc1 enc2 p = enc1 (fst p) @ enc2 (fst p) (snd p)"

definition get_pair ::
    "(bytes \<Rightarrow> ('a \<times> bytes) option) \<Rightarrow> (bytes \<Rightarrow> ('b \<times> bytes) option) \<Rightarrow>
     bytes \<Rightarrow> (('a \<times> 'b) \<times> bytes) option" where
  "get_pair dec1 dec2 bs = do { (x, bs') \<leftarrow> dec1 bs; (y, bs'') \<leftarrow> dec2 bs'; Some ((x, y), bs'') }"

locale codec =
  fixes enc :: "'a \<Rightarrow> bytes"
    and dec :: "bytes \<Rightarrow> ('a \<times> bytes) option"
    and width :: nat
  assumes enc_width: "length (enc x) = width"
    and dec_enc: "dec (enc x @ rest) = Some (x, rest)"
    and dec_short: "length bs < width \<Longrightarrow> dec bs = None"
begin

lemma put_all_length: "length (put_all enc xs) = width * length xs"
  by (induction xs) (simp_all add: enc_width)

lemma get_put_all: "get_n dec (length xs) (put_all enc xs @ rest) = Some (xs, rest)"
  by (induction xs) (simp_all add: dec_enc)

lemma enc_inj: "enc x = enc y \<Longrightarrow> x = y"
  using dec_enc [of x "[]"] dec_enc [of y "[]"] by simp

end

text \<open>
  Pairs: the second encoding may depend on the first component (used for unspecified padding).
\<close>

locale codec_pair = fst_codec: codec enc1 dec1 width1
  for enc1 :: "'a \<Rightarrow> bytes" and dec1 and width1 +
  fixes enc2 :: "'a \<Rightarrow> 'b \<Rightarrow> bytes"
    and dec2 :: "bytes \<Rightarrow> ('b \<times> bytes) option"
    and width2 :: nat
  assumes enc2_width: "length (enc2 x y) = width2"
    and dec_enc2: "dec2 (enc2 x y @ rest) = Some (y, rest)"
    and dec1_some: "dec1 bs = Some (x, bs') \<Longrightarrow> length bs = width1 + length bs'"
    and dec2_short: "length bs < width2 \<Longrightarrow> dec2 bs = None"

sublocale codec_pair \<subseteq> pair: codec "put_pair enc1 enc2" "get_pair dec1 dec2" "width1 + width2"
proof
  show "length (put_pair enc1 enc2 p) = width1 + width2" for p
    by (simp add: put_pair_def fst_codec.enc_width enc2_width)
  show "get_pair dec1 dec2 (put_pair enc1 enc2 p @ rest) = Some (p, rest)" for p rest
    by (simp add: put_pair_def get_pair_def fst_codec.dec_enc dec_enc2)
  show "get_pair dec1 dec2 bs = None" if "length bs < width1 + width2" for bs
    using that fst_codec.dec_short [of bs] dec1_some [of bs] dec2_short
    by (auto simp: get_pair_def split: bind_splits)
qed

subsection \<open>Little-endian integers\<close>

fun le_bytes :: "nat \<Rightarrow> nat \<Rightarrow> bytes" where
  "le_bytes 0 x = []"
| "le_bytes (Suc k) x = of_nat x # le_bytes k (x div 256)"

fun le_nat :: "bytes \<Rightarrow> nat" where
  "le_nat [] = 0"
| "le_nat (b # bs) = unat b + 256 * le_nat bs"

lemma length_le_bytes [simp]: "length (le_bytes k x) = k"
  by (induction k arbitrary: x) simp_all

lemma le_nat_le_bytes: "x < 256 ^ k \<Longrightarrow> le_nat (le_bytes k x) = x"
proof (induction k arbitrary: x)
  case (Suc k)
  have "x div 256 < 256 ^ k" using Suc.prems by (simp add: less_mult_imp_div_less mult.commute)
  with Suc.IH [of "x div 256"] show ?case by (simp add: unat_of_nat)
qed simp

definition put_word :: "nat \<Rightarrow> 'w::len word \<Rightarrow> bytes" where
  "put_word k w = le_bytes k (unat w)"

definition get_word :: "nat \<Rightarrow> bytes \<Rightarrow> ('w::len word \<times> bytes) option" where
  "get_word k bs =
     (if k \<le> length bs then Some (of_nat (le_nat (take k bs)), drop k bs) else None)"

abbreviation put8 :: "u8 \<Rightarrow> bytes" where "put8 \<equiv> put_word 1"
abbreviation put16 :: "u16 \<Rightarrow> bytes" where "put16 \<equiv> put_word 2"
abbreviation put32 :: "u32 \<Rightarrow> bytes" where "put32 \<equiv> put_word 4"
abbreviation put64 :: "u64 \<Rightarrow> bytes" where "put64 \<equiv> put_word 8"
abbreviation get8 :: "bytes \<Rightarrow> (u8 \<times> bytes) option" where "get8 \<equiv> get_word 1"
abbreviation get16 :: "bytes \<Rightarrow> (u16 \<times> bytes) option" where "get16 \<equiv> get_word 2"
abbreviation get32 :: "bytes \<Rightarrow> (u32 \<times> bytes) option" where "get32 \<equiv> get_word 4"
abbreviation get64 :: "bytes \<Rightarrow> (u64 \<times> bytes) option" where "get64 \<equiv> get_word 8"

lemma word_codec:
  assumes "LENGTH('w::len) = 8 * k"
  shows "codec (put_word k :: 'w word \<Rightarrow> bytes) (get_word k) k"
proof
  fix w :: "'w word" and rest
  have "unat w < 256 ^ k"
    using unat_below [of w] by (simp add: assms power_mult)
  then show "get_word k (put_word k w @ rest) = Some (w, rest)"
    by (simp add: get_word_def put_word_def le_nat_le_bytes)
qed (simp_all add: put_word_def get_word_def)

interpretation c8: codec put8 get8 1 by (rule word_codec) simp
interpretation c16: codec put16 get16 2 by (rule word_codec) simp
interpretation c32: codec put32 get32 4 by (rule word_codec) simp
interpretation c64: codec put64 get64 8 by (rule word_codec) simp

lemmas word_dec_enc [simp] = c8.dec_enc c16.dec_enc c32.dec_enc c64.dec_enc
lemmas word_width [simp] = c8.enc_width c16.enc_width c32.enc_width c64.enc_width
lemmas byte_codec [simp] = c8.dec_enc [unfolded One_nat_def] c8.enc_width [unfolded One_nat_def]

lemma get_word_length: "get_word k bs = Some (w, bs') \<Longrightarrow> length bs = k + length bs'"
  by (auto simp: get_word_def split: if_splits)

interpretation c64_64: codec_pair put64 get64 8 "\<lambda>_. put64" get64 8
  by unfold_locales (auto simp: get_word_length c64.dec_short)

end
