(* ===== verification/Ufs_LogEntry.thy ===== *)
theory Ufs_LogEntry
  imports Ufs_Layout Ufs_Codec
begin

text \<open>
  The metadata log of one inode, \<open>InodeLogEntry\<close> (\<open>FsProc__JournalEnabled.h\<close>,
  \<open>FsProc_JournalBasic.cc\<close>, \<open>FsProc_Journal.cc\<close>): the optional attribute fields with their
  presence bits, the extents added to and deleted from the inode since the last journal write,
  applying the log to an on-disk inode, and the binary format of the log. Reading outside the
  buffer, a \<open>bool\<close> byte other than 0 and 1, and an extent index of -1 are undefined behaviour
  and \<^const>\<open>None\<close>; a thrown \<open>std::runtime_error\<close> is \<^const>\<open>Inl\<close> with its message. The three
  padding bytes of \<open>ExtMapVal\<close> are unspecified: the writer takes them from a parameter.
\<close>

subsection \<open>Data\<close>

record timeval =
  tv_sec :: u64
  tv_usec :: u64

record cfs_extent =
  e_i_block_offset :: u32
  e_num_blocks :: u32
  e_block_no :: u64

record cfs_dinode =
  d_nlink :: u8
  d_dentry_count :: u16
  d_type :: u32
  d_i_no :: u32
  d_uid :: u32
  d_gid :: u32
  d_block_count :: u32
  d_size :: u64
  d_syncID :: u64
  d_atime :: timeval
  d_ctime :: timeval
  d_mtime :: timeval
  d_ext_array :: "cfs_extent list"

record ExtMapVal =
  seq_no :: u32
  i_block_offset :: u32
  num_blocks :: u32
  bmap_modified :: bool

record InodeLogEntry =
  inode :: u64
  syncID :: u64
  optfield_bitarr :: u32
  mode :: u32
  uid :: u32
  gid :: u32
  block_count :: u32
  bitmap_op :: u32
  dentry_count :: u16
  nlink :: u8
  size_f :: u64
  atime :: timeval
  mtime :: timeval
  ctime :: timeval
  extent_seq_no :: u32
  ext_add :: "(u64, ExtMapVal) umap"
  ext_del :: "(u64, ExtMapVal) umap"
  depends_on :: "(u64, u64) umap"

definition mode_IDX :: u32 where [code_unfold]: "mode_IDX = 0x1"
definition uid_IDX :: u32 where [code_unfold]: "uid_IDX = 0x2"
definition gid_IDX :: u32 where [code_unfold]: "gid_IDX = 0x4"
definition atime_IDX :: u32 where [code_unfold]: "atime_IDX = 0x8"
definition mtime_IDX :: u32 where [code_unfold]: "mtime_IDX = 0x10"
definition ctime_IDX :: u32 where [code_unfold]: "ctime_IDX = 0x20"
definition size_IDX :: u32 where [code_unfold]: "size_IDX = 0x40"
definition block_count_IDX :: u32 where [code_unfold]: "block_count_IDX = 0x80"
definition bitmap_op_IDX :: u32 where [code_unfold]: "bitmap_op_IDX = 0x100"
definition dentry_count_IDX :: u32 where [code_unfold]: "dentry_count_IDX = 0x200"
definition nlink_IDX :: u32 where [code_unfold]: "nlink_IDX = 0x400"

lemmas IDX_defs =
  mode_IDX_def uid_IDX_def gid_IDX_def atime_IDX_def mtime_IDX_def ctime_IDX_def size_IDX_def
  block_count_IDX_def bitmap_op_IDX_def dentry_count_IDX_def nlink_IDX_def

unbundle bit_operations_syntax

definition has_field :: "InodeLogEntry \<Rightarrow> u32 \<Rightarrow> bool" where
  "has_field e idx \<longleftrightarrow> optfield_bitarr e AND idx \<noteq> 0"

text \<open>The constructor leaves the attribute fields uninitialised; \<open>junk\<close> stands for them.\<close>

definition InodeLogEntry_new :: "u64 \<Rightarrow> u64 \<Rightarrow> InodeLogEntry \<Rightarrow> InodeLogEntry" where
  "InodeLogEntry_new ino sid junk =
     junk\<lparr>inode := ino, syncID := sid, optfield_bitarr := 0, extent_seq_no := 0,
          ext_add := [], ext_del := [], depends_on := []\<rparr>"

definition set_flag :: "u32 \<Rightarrow> InodeLogEntry \<Rightarrow> InodeLogEntry" where
  "set_flag idx e = e\<lparr>optfield_bitarr := optfield_bitarr e OR idx\<rparr>"

definition set_mode :: "u32 \<Rightarrow> InodeLogEntry \<Rightarrow> InodeLogEntry" where
  "set_mode v e = set_flag mode_IDX (e\<lparr>mode := v\<rparr>)"
definition set_uid :: "u32 \<Rightarrow> InodeLogEntry \<Rightarrow> InodeLogEntry" where
  "set_uid v e = set_flag uid_IDX (e\<lparr>uid := v\<rparr>)"
definition set_gid :: "u32 \<Rightarrow> InodeLogEntry \<Rightarrow> InodeLogEntry" where
  "set_gid v e = set_flag gid_IDX (e\<lparr>gid := v\<rparr>)"
definition set_block_count :: "u32 \<Rightarrow> InodeLogEntry \<Rightarrow> InodeLogEntry" where
  "set_block_count v e = set_flag block_count_IDX (e\<lparr>block_count := v\<rparr>)"
definition set_bitmap_op :: "u32 \<Rightarrow> InodeLogEntry \<Rightarrow> InodeLogEntry" where
  "set_bitmap_op v e = set_flag bitmap_op_IDX (e\<lparr>bitmap_op := v\<rparr>)"
definition set_atime :: "timeval \<Rightarrow> InodeLogEntry \<Rightarrow> InodeLogEntry" where
  "set_atime v e = set_flag atime_IDX (e\<lparr>atime := v\<rparr>)"
definition set_mtime :: "timeval \<Rightarrow> InodeLogEntry \<Rightarrow> InodeLogEntry" where
  "set_mtime v e = set_flag mtime_IDX (e\<lparr>mtime := v\<rparr>)"
definition set_ctime :: "timeval \<Rightarrow> InodeLogEntry \<Rightarrow> InodeLogEntry" where
  "set_ctime v e = set_flag ctime_IDX (e\<lparr>ctime := v\<rparr>)"
definition set_size :: "u64 \<Rightarrow> InodeLogEntry \<Rightarrow> InodeLogEntry" where
  "set_size v e = set_flag size_IDX (e\<lparr>size_f := v\<rparr>)"
definition set_dentry_count :: "u16 \<Rightarrow> InodeLogEntry \<Rightarrow> InodeLogEntry" where
  "set_dentry_count v e = set_flag dentry_count_IDX (e\<lparr>dentry_count := v\<rparr>)"
definition set_nlink :: "u8 \<Rightarrow> InodeLogEntry \<Rightarrow> InodeLogEntry" where
  "set_nlink v e = set_flag nlink_IDX (e\<lparr>nlink := v\<rparr>)"

lemmas setter_defs =
  set_flag_def set_mode_def set_uid_def set_gid_def set_block_count_def set_bitmap_op_def
  set_atime_def set_mtime_def set_ctime_def set_size_def set_dentry_count_def set_nlink_def

definition ile_empty :: "InodeLogEntry \<Rightarrow> bool" where
  "ile_empty e \<longleftrightarrow>
     optfield_bitarr e = 0 \<and> (ext_add e = [] \<and> ext_del e = [] \<and> depends_on e = [])"

text \<open>
  \<open>update_extent\<close>: \<open>try_emplace\<close> inserts a new value; an existing one is overwritten except
  that \<open>bmap_modified\<close> stays set.
\<close>

definition ext_record :: "u64 \<Rightarrow> ExtMapVal \<Rightarrow> (u64, ExtMapVal) umap \<Rightarrow> (u64, ExtMapVal) umap" where
  "ext_record bno v m =
     (case map_of m bno of
        None \<Rightarrow> AList.update bno v m
      | Some old \<Rightarrow> AList.update bno (v\<lparr>bmap_modified := bmap_modified old \<or> bmap_modified v\<rparr>) m)"

definition update_extent :: "cfs_extent \<Rightarrow> bool \<Rightarrow> bool \<Rightarrow> InodeLogEntry \<Rightarrow> InodeLogEntry" where
  "update_extent x add_or_del bmap_mod e =
     (let v = \<lparr>seq_no = extent_seq_no e, i_block_offset = e_i_block_offset x,
               num_blocks = e_num_blocks x, bmap_modified = bmap_mod\<rparr>;
          bno = conv_lba_to_pba (e_block_no x);
          e' = e\<lparr>extent_seq_no := extent_seq_no e + 1\<rparr>
      in if add_or_del then e'\<lparr>ext_add := ext_record bno v (ext_add e)\<rparr>
         else e'\<lparr>ext_del := ext_record bno v (ext_del e)\<rparr>)"

definition add_dependency :: "u64 \<Rightarrow> u64 \<Rightarrow> InodeLogEntry \<Rightarrow> InodeLogEntry" where
  "add_dependency ino sid e = e\<lparr>depends_on := AList.update ino sid (depends_on e)\<rparr>"

definition get_bitmap_for_dealloc_blocks_for_wid ::
    "int \<Rightarrow> InodeLogEntry \<Rightarrow> u32 uset \<Rightarrow> u32 uset" where
  "get_bitmap_for_dealloc_blocks_for_wid wid e bmap_blocks =
     fold (\<lambda>(bno, v) acc.
             if bmap_modified v \<and>
                getWidForBitmapBlock (ucast (get_bmap_block_for_pba (ucast bno))) = wid
             then List.insert (get_bmap_block_for_pba (ucast bno)) acc else acc)
          (ext_del e) bmap_blocks"

subsection \<open>Applying the log to an inode\<close>

text \<open>Each conditional assignment of the source touches a field of its own.\<close>

definition apply_attrs :: "InodeLogEntry \<Rightarrow> cfs_dinode \<Rightarrow> cfs_dinode" where
  "apply_attrs e d = d\<lparr>
     d_syncID := syncID e,
     d_type := (if has_field e mode_IDX then mode e else d_type d),
     d_uid := (if has_field e uid_IDX then uid e else d_uid d),
     d_gid := (if has_field e gid_IDX then gid e else d_gid d),
     d_atime := (if has_field e atime_IDX then atime e else d_atime d),
     d_ctime := (if has_field e ctime_IDX then ctime e else d_ctime d),
     d_mtime := (if has_field e mtime_IDX then mtime e else d_mtime d),
     d_size := (if has_field e size_IDX then size_f e else d_size d),
     d_block_count := (if has_field e block_count_IDX then block_count e else d_block_count d),
     d_dentry_count := (if has_field e dentry_count_IDX then dentry_count e else d_dentry_count d),
     d_nlink := (if has_field e nlink_IDX then nlink e else d_nlink d)\<rparr>"

definition put_extent :: "u32 \<Rightarrow> cfs_extent \<Rightarrow> cfs_extent list \<Rightarrow> cfs_extent list option" where
  "put_extent off x arr =
     (case getCurrentExtentArrIdx off of (i, inside, maxb) \<Rightarrow>
        if 0 \<le> i \<and> nat i < length arr then Some (arr[nat i := x]) else None)"

type_synonym apply_state = "cfs_extent list \<times> (u64, u32) umap \<times> (u64, bool) umap"

definition apply_add :: "u64 \<times> ExtMapVal \<Rightarrow> apply_state \<Rightarrow> apply_state option" where
  "apply_add p st =
     (case (p, st) of ((bno, v), (arr, ts, blocks)) \<Rightarrow> do {
        arr' \<leftarrow> put_extent (i_block_offset v)
          \<lparr>e_i_block_offset = i_block_offset v, e_num_blocks = num_blocks v,
           e_block_no = bno - get_data_start_block\<rparr> arr;
        Some (arr', AList.update bno (seq_no v) ts,
              if bmap_modified v then AList.update bno True blocks else blocks) })"

definition apply_del :: "u64 \<times> ExtMapVal \<Rightarrow> apply_state \<Rightarrow> apply_state option" where
  "apply_del p st =
     (case (p, st) of ((bno, v), (arr, ts, blocks)) \<Rightarrow>
        if map_of ts bno = None \<or> seq_no v > the (map_of ts bno)
        then do {
          arr' \<leftarrow> put_extent (i_block_offset v)
            \<lparr>e_i_block_offset = 0, e_num_blocks = 0,
             e_block_no = bno - get_data_start_block\<rparr> arr;
          Some (arr', ts, if bmap_modified v then AList.update bno False blocks else blocks) }
        else Some st)"

definition applyChangesTo ::
    "InodeLogEntry \<Rightarrow> cfs_dinode \<Rightarrow> (u64, bool) umap \<Rightarrow> (cfs_dinode \<times> (u64, bool) umap) option" where
  "applyChangesTo e dst blocks = do {
     st \<leftarrow> fold_opt apply_add (ext_add e) (d_ext_array dst, [], blocks);
     (arr, ts, blocks') \<leftarrow> fold_opt apply_del (ext_del e) st;
     Some ((apply_attrs e dst)\<lparr>d_ext_array := arr\<rparr>, blocks') }"

subsection \<open>Binary format\<close>

definition put_timeval :: "timeval \<Rightarrow> bytes" where
  "put_timeval t = put64 (tv_sec t) @ put64 (tv_usec t)"

definition get_timeval :: "bytes \<Rightarrow> (timeval \<times> bytes) option" where
  "get_timeval bs = do {
     (a, bs) \<leftarrow> get64 bs; (b, bs) \<leftarrow> get64 bs; Some (\<lparr>tv_sec = a, tv_usec = b\<rparr>, bs) }"

type_synonym padding = "u64 \<Rightarrow> u8 \<times> u8 \<times> u8"

definition put_ExtMapVal :: "u8 \<times> u8 \<times> u8 \<Rightarrow> ExtMapVal \<Rightarrow> bytes" where
  "put_ExtMapVal pad v =
     put32 (seq_no v) @ put32 (i_block_offset v) @ put32 (num_blocks v) @
     [if bmap_modified v then 1 else 0, fst pad, fst (snd pad), snd (snd pad)]"

definition get_ExtMapVal :: "bytes \<Rightarrow> (ExtMapVal \<times> bytes) option" where
  "get_ExtMapVal bs = do {
     (s, bs) \<leftarrow> get32 bs; (off, bs) \<leftarrow> get32 bs; (n, bs) \<leftarrow> get32 bs;
     if length bs < 4 \<or> bs ! 0 \<notin> {0, 1} then None
     else Some (\<lparr>seq_no = s, i_block_offset = off, num_blocks = n, bmap_modified = (bs ! 0 = 1)\<rparr>,
                drop 4 bs) }"

abbreviation put_ext :: "padding \<Rightarrow> u64 \<times> ExtMapVal \<Rightarrow> bytes" where
  "put_ext pad \<equiv> put_pair put64 (\<lambda>k. put_ExtMapVal (pad k))"

abbreviation get_ext :: "bytes \<Rightarrow> ((u64 \<times> ExtMapVal) \<times> bytes) option" where
  "get_ext \<equiv> get_pair get64 get_ExtMapVal"

definition calcSize :: "InodeLogEntry \<Rightarrow> nat" where
  "calcSize e =
     8 * 3 + 4 * 6 + 16 * 3 + 2 + 1 + 8 * 4 +
     length (ext_add e) * (8 + 16) + length (ext_del e) * (8 + 16) + length (depends_on e) * 16"

text \<open>Everything behind the first field, which holds the total size and is written last.\<close>

definition serialize_body :: "padding \<Rightarrow> InodeLogEntry \<Rightarrow> bytes" where
  "serialize_body pad e =
     put64 (inode e) @ put64 (syncID e) @
     put32 (optfield_bitarr e) @ put32 (mode e) @ put32 (uid e) @ put32 (gid e) @
     put32 (block_count e) @ put32 (bitmap_op e) @
     put_timeval (atime e) @ put_timeval (mtime e) @ put_timeval (ctime e) @
     put16 (dentry_count e) @ put8 (nlink e) @ put64 (size_f e) @
     put64 (of_nat (length (ext_add e))) @ put_all (put_ext pad) (ext_add e) @
     put64 (of_nat (length (ext_del e))) @ put_all (put_ext pad) (ext_del e) @
     put64 (of_nat (length (depends_on e))) @
     put_all (put_pair put64 (\<lambda>_. put64)) (depends_on e)"

definition serialize :: "padding \<Rightarrow> InodeLogEntry \<Rightarrow> bytes" where
  "serialize pad e = put64 (of_nat (8 + length (serialize_body pad e))) @ serialize_body pad e"

abbreviation insert_all :: "('k \<times> 'v) list \<Rightarrow> ('k, 'v) umap" where
  "insert_all ps \<equiv> fold (\<lambda>(k, v). AList.update k v) ps []"

text \<open>
  The deserialising constructor: \<open>buf\<close> is the memory from the pointer on and \<open>junk\<close> the object's
  uninitialised memory; \<open>extent_seq_no\<close> is not written.
\<close>

definition InodeLogEntry_of_buf ::
    "InodeLogEntry \<Rightarrow> bytes \<Rightarrow> u64 \<Rightarrow> (string + InodeLogEntry) option" where
  "InodeLogEntry_of_buf junk buf buf_size =
     (if buf_size < 8 then Some (Inl ''invalid buffer'')
      else do {
        (total, bs) \<leftarrow> get64 buf;
        if total > buf_size then Some (Inl ''invalid buffer - size too small'')
        else do {
          (ino, bs) \<leftarrow> get64 bs; (sid, bs) \<leftarrow> get64 bs;
          (opt, bs) \<leftarrow> get32 bs; (m, bs) \<leftarrow> get32 bs; (u, bs) \<leftarrow> get32 bs; (g, bs) \<leftarrow> get32 bs;
          (bc, bs) \<leftarrow> get32 bs; (bop, bs) \<leftarrow> get32 bs;
          (at, bs) \<leftarrow> get_timeval bs; (mt, bs) \<leftarrow> get_timeval bs; (ct, bs) \<leftarrow> get_timeval bs;
          (dc, bs) \<leftarrow> get16 bs; (nl, bs) \<leftarrow> get8 bs; (sz, bs) \<leftarrow> get64 bs;
          (na, bs) \<leftarrow> get64 bs; (adds, bs) \<leftarrow> get_n get_ext (unat na) bs;
          (nd, bs) \<leftarrow> get64 bs; (dels, bs) \<leftarrow> get_n get_ext (unat nd) bs;
          (np, bs) \<leftarrow> get64 bs; (deps, bs) \<leftarrow> get_n (get_pair get64 get64) (unat np) bs;
          Some (Inr (junk\<lparr>inode := ino, syncID := sid, optfield_bitarr := opt, mode := m,
            uid := u, gid := g, block_count := bc, bitmap_op := bop, atime := at, mtime := mt,
            ctime := ct, dentry_count := dc, nlink := nl, size_f := sz,
            ext_add := insert_all adds, ext_del := insert_all dels,
            depends_on := insert_all deps\<rparr>)) } })"

subsection \<open>The format is read back as written\<close>

interpretation ctv: codec put_timeval get_timeval 16
proof
  show "get_timeval bs = None" if "length bs < 16" for bs
    using that by (auto simp: get_timeval_def get_word_def split: bind_splits)
qed (simp_all add: put_timeval_def get_timeval_def)

lemma put_ExtMapVal_width [simp]: "length (put_ExtMapVal pad v) = 16"
  by (simp add: put_ExtMapVal_def)

lemma get_put_ExtMapVal: "get_ExtMapVal (put_ExtMapVal pad v @ rest) = Some (v, rest)"
  by (simp add: put_ExtMapVal_def get_ExtMapVal_def)

lemma get_ExtMapVal_short: "length bs < 16 \<Longrightarrow> get_ExtMapVal bs = None"
  by (auto simp: get_ExtMapVal_def get_word_def split: bind_splits)

interpretation cext: codec_pair put64 get64 8 "\<lambda>k. put_ExtMapVal (pad k)" get_ExtMapVal 16 for pad
  by unfold_locales
     (simp_all add: get_put_ExtMapVal get_ExtMapVal_short get_word_length)

lemma serialize_body_length: "length (serialize_body pad e) + 8 = calcSize e"
  by (simp add: serialize_body_def calcSize_def ctv.enc_width cext.pair.put_all_length
      c64_64.pair.put_all_length)

lemma serialize_alt: "serialize pad e = put64 (of_nat (calcSize e)) @ serialize_body pad e"
  by (simp only: serialize_def add.commute [of 8] serialize_body_length)

lemma serialize_length: "length (serialize pad e) = calcSize e"
  using serialize_body_length [of pad e] by (simp add: serialize_alt)

definition wf_ile :: "InodeLogEntry \<Rightarrow> bool" where
  "wf_ile e \<longleftrightarrow>
     wf_umap (ext_add e) \<and> wf_umap (ext_del e) \<and> wf_umap (depends_on e) \<and> calcSize e < 2 ^ 64"

lemma unat_of_nat64: "n < 2 ^ 64 \<Longrightarrow> unat (of_nat n :: u64) = n"
  by (simp add: unat_of_nat)

lemma ile_of_buf_serialize:
  assumes "wf_ile e" "calcSize e \<le> unat buf_size"
  shows "InodeLogEntry_of_buf junk (serialize pad e @ rest) buf_size
           = Some (Inr (e\<lparr>extent_seq_no := extent_seq_no junk\<rparr>))"
proof -
  have sz: "length (ext_add e) < 2 ^ 64" "length (ext_del e) < 2 ^ 64"
    "length (depends_on e) < 2 ^ 64" "calcSize e < 2 ^ 64" "8 \<le> calcSize e"
    using assms(1) by (simp_all add: wf_ile_def calcSize_def)
  have ge: "\<not> buf_size < 8" "\<not> of_nat (calcSize e) > buf_size"
    using assms(2) sz by (simp_all add: word_less_nat_alt unat_of_nat64)
  have maps: "insert_all (ext_add e) = ext_add e" "insert_all (ext_del e) = ext_del e"
    "insert_all (depends_on e) = depends_on e"
    using assms(1) by (simp_all add: wf_ile_def fold_update_rebuild)
  show ?thesis
    using ge sz
    by (simp add: InodeLogEntry_of_buf_def serialize_alt serialize_body_def ctv.dec_enc
        unat_of_nat64 cext.pair.get_put_all c64_64.pair.get_put_all maps)
qed

text \<open>C4: A metadata log is read back as it was written. For every well-formed log and every
  content of the padding bytes, the serialised form has exactly the length \<open>calcSize\<close>
  announces, its first field is that length, and the deserialising constructor, given a buffer
  that starts with it and is declared at least as long, returns the same log: every attribute,
  the presence bits, both extent maps and the dependencies (only \<open>extent_seq_no\<close>, which is not
  stored, is left as the memory had it).\<close>

theorem log_entry_roundtrip:
  assumes "wf_ile e" "calcSize e \<le> unat buf_size"
  shows "length (serialize pad e) = calcSize e \<and>
         take 8 (serialize pad e) = put64 (of_nat (calcSize e)) \<and>
         InodeLogEntry_of_buf junk (serialize pad e @ rest) buf_size
           = Some (Inr (e\<lparr>extent_seq_no := extent_seq_no junk\<rparr>))"
  using ile_of_buf_serialize [OF assms] by (simp add: serialize_length) (simp add: serialize_alt)

definition demo_time :: timeval where
  "demo_time = \<lparr>tv_sec = 5, tv_usec = 6\<rparr>"

definition demo_dinode :: cfs_dinode where
  "demo_dinode = \<lparr>d_nlink = 1, d_dentry_count = 0, d_type = 2, d_i_no = 7, d_uid = 0, d_gid = 0,
     d_block_count = 1, d_size = 4096, d_syncID = 1, d_atime = demo_time, d_ctime = demo_time,
     d_mtime = demo_time, d_ext_array = replicate 7 \<lparr>e_i_block_offset = 0, e_num_blocks = 0, e_block_no = 0\<rparr>\<rparr>"

definition demo_ile :: InodeLogEntry where
  "demo_ile = \<lparr>inode = 7, syncID = 2, optfield_bitarr = 0x41, mode = 1, uid = 0, gid = 0,
     block_count = 0, bitmap_op = 0, dentry_count = 0, nlink = 0, size_f = 4096,
     atime = demo_time, mtime = demo_time, ctime = demo_time, extent_seq_no = 1,
     ext_add = [(10507800, \<lparr>seq_no = 0, i_block_offset = 0, num_blocks = 1,
                            bmap_modified = True\<rparr>)],
     ext_del = [], depends_on = [(3, 9)]\<rparr>"

lemma demo_ile_wf: "wf_ile demo_ile" "calcSize demo_ile = 171"
  by (simp_all add: wf_ile_def wf_umap_def calcSize_def demo_ile_def)

theorem log_entry_roundtrip_witness:
  "InodeLogEntry_of_buf demo_ile (serialize (\<lambda>_. (0, 0, 0)) demo_ile @ []) 171
     = Some (Inr demo_ile)"
  using log_entry_roundtrip [OF demo_ile_wf(1), of 171 "\<lambda>_. (0, 0, 0)" demo_ile "[]"] demo_ile_wf(2)
  by (simp add: demo_ile_def)

subsection \<open>Attributes\<close>

text \<open>
  The attribute changes of an inode, what each records in the log, and what it means for the
  on-disk inode.
\<close>

datatype attr_op = SetMode u32 | SetUid u32 | SetGid u32 | SetBlockCount u32 | SetBitmapOp u32
  | SetAtime timeval | SetMtime timeval | SetCtime timeval | SetSize u64 | SetDentryCount u16
  | SetNlink u8

fun log_attr :: "attr_op \<Rightarrow> InodeLogEntry \<Rightarrow> InodeLogEntry" where
  "log_attr (SetMode v) = set_mode v"
| "log_attr (SetUid v) = set_uid v"
| "log_attr (SetGid v) = set_gid v"
| "log_attr (SetBlockCount v) = set_block_count v"
| "log_attr (SetBitmapOp v) = set_bitmap_op v"
| "log_attr (SetAtime v) = set_atime v"
| "log_attr (SetMtime v) = set_mtime v"
| "log_attr (SetCtime v) = set_ctime v"
| "log_attr (SetSize v) = set_size v"
| "log_attr (SetDentryCount v) = set_dentry_count v"
| "log_attr (SetNlink v) = set_nlink v"

fun do_attr :: "attr_op \<Rightarrow> cfs_dinode \<Rightarrow> cfs_dinode" where
  "do_attr (SetMode v) d = d\<lparr>d_type := v\<rparr>"
| "do_attr (SetUid v) d = d\<lparr>d_uid := v\<rparr>"
| "do_attr (SetGid v) d = d\<lparr>d_gid := v\<rparr>"
| "do_attr (SetBlockCount v) d = d\<lparr>d_block_count := v\<rparr>"
| "do_attr (SetBitmapOp v) d = d"
| "do_attr (SetAtime v) d = d\<lparr>d_atime := v\<rparr>"
| "do_attr (SetMtime v) d = d\<lparr>d_mtime := v\<rparr>"
| "do_attr (SetCtime v) d = d\<lparr>d_ctime := v\<rparr>"
| "do_attr (SetSize v) d = d\<lparr>d_size := v\<rparr>"
| "do_attr (SetDentryCount v) d = d\<lparr>d_dentry_count := v\<rparr>"
| "do_attr (SetNlink v) d = d\<lparr>d_nlink := v\<rparr>"

lemma has_field_set_flag: "has_field (set_flag i e) j \<longleftrightarrow> i AND j \<noteq> 0 \<or> has_field e j"
  by (auto simp: has_field_def set_flag_def bit.conj_disj_distrib2 or_eq_0_iff)

lemma has_field_update [simp]:
  "has_field (e\<lparr>mode := a\<rparr>) j = has_field e j" "has_field (e\<lparr>uid := a\<rparr>) j = has_field e j"
  "has_field (e\<lparr>gid := a\<rparr>) j = has_field e j" "has_field (e\<lparr>block_count := a\<rparr>) j = has_field e j"
  "has_field (e\<lparr>bitmap_op := a\<rparr>) j = has_field e j" "has_field (e\<lparr>atime := t\<rparr>) j = has_field e j"
  "has_field (e\<lparr>mtime := t\<rparr>) j = has_field e j" "has_field (e\<lparr>ctime := t\<rparr>) j = has_field e j"
  "has_field (e\<lparr>size_f := b\<rparr>) j = has_field e j"
  "has_field (e\<lparr>dentry_count := c\<rparr>) j = has_field e j" "has_field (e\<lparr>nlink := n\<rparr>) j = has_field e j"
  by (simp_all add: has_field_def)

lemma set_flag_fields [simp]:
  "mode (set_flag i e) = mode e" "uid (set_flag i e) = uid e" "gid (set_flag i e) = gid e"
  "block_count (set_flag i e) = block_count e" "atime (set_flag i e) = atime e"
  "mtime (set_flag i e) = mtime e" "ctime (set_flag i e) = ctime e"
  "size_f (set_flag i e) = size_f e" "dentry_count (set_flag i e) = dentry_count e"
  "nlink (set_flag i e) = nlink e" "syncID (set_flag i e) = syncID e"
  by (simp_all add: set_flag_def)

lemma apply_log_attr: "apply_attrs (log_attr op e) d = do_attr op (apply_attrs e d)"
  by (cases op)
     (simp_all add: apply_attrs_def set_mode_def set_uid_def set_gid_def
      set_block_count_def set_bitmap_op_def set_atime_def set_mtime_def set_ctime_def set_size_def
      set_dentry_count_def set_nlink_def has_field_set_flag IDX_defs)

lemma apply_attrs_new: "apply_attrs (InodeLogEntry_new ino sid junk) d = d\<lparr>d_syncID := sid\<rparr>"
  by (simp add: apply_attrs_def InodeLogEntry_new_def has_field_def)

text \<open>C7: The log replays attribute changes. Recording any sequence of attribute changes in a
  fresh log and applying the log to an inode gives the same inode as making the changes on it
  directly, in order, and setting its \<open>syncID\<close>: no change is lost, the last of several changes
  to one attribute wins, attributes that were not changed keep their value, and the
  uninitialised fields of the log never reach the inode.\<close>

theorem attr_log_replay:
  "apply_attrs (fold log_attr ops (InodeLogEntry_new ino sid junk)) d
     = (fold do_attr ops (d\<lparr>d_syncID := sid\<rparr>))"
  by (induction ops rule: rev_induct) (simp_all add: apply_attrs_new apply_log_attr)

end
