(* ===== verification/Ufs_Alloc.thy ===== *)
theory Ufs_Alloc
  imports Ufs_Bitmap Ufs_LogEntry
begin

text \<open>
  Allocation of inode numbers and data blocks by a worker's \<open>FsImpl\<close> (\<open>FsProc_FsImpl.h\<close>,
  \<open>FsProc_FsImpl.cc\<close>). The inode bitmap is always in memory; a bitmap block of the data blocks
  that is not, is requested from the device, and the operation returns 0 to be repeated when the
  block has arrived. The worker's buffer has room for all its bitmap blocks, which are never
  marked dirty, so the buffer itself is left out here. The locks are those of a build without
  \<open>NONE_MT_LOCK\<close> and are left out as well. A failed assertion or an access outside a block is
  \<^const>\<open>Abort\<close>; \<^const>\<open>None\<close> is a loop that does not end.
\<close>

subsection \<open>State\<close>

record InMemInode =
  i_no :: u32
  inodeDirty :: bool
  inodeData :: cfs_dinode
  logEntry :: InodeLogEntry

record FsImpl =
  idx :: int
  iMapBlocks :: "bytes list"
  nextImapBlockFreeBitNo :: int
  nextImapNo :: int
  bmapBlocks :: "u32 \<Rightarrow> bytes"
  bmapInMem :: "u32 \<Rightarrow> bool"
  immutableBitmaps :: "u32 uset"
  nextBlockIdx :: "u32 \<Rightarrow> u32"
  nextBitNo :: "u32 \<Rightarrow> int"
  pendingIo :: "u32 list"
  inodeMap :: "(u32, InMemInode) umap"
  dirtyInodeSet :: "u32 uset"

definition IMAPBLOCK_NUM :: int where [code_unfold]: "IMAPBLOCK_NUM = 4"
definition BPB_i :: int where [code_unfold]: "BPB_i = 32768"

definition of_opt :: "'a option \<Rightarrow> 'a res" where
  "of_opt x = (case x of None \<Rightarrow> Inl Abort | Some y \<Rightarrow> Inr y)"

lemma of_opt_simps [simp]: "of_opt None = Inl Abort" "of_opt (Some y) = Inr y"
  by (simp_all add: of_opt_def)

definition isBlockBitmapImmutable :: "u32 \<Rightarrow> FsImpl \<Rightarrow> bool" where
  "isBlockBitmapImmutable b fs \<longleftrightarrow> b \<in> set (immutableBitmaps fs)"

definition initDataBlockAllocNextFreeBlockIdx :: "FsImpl \<Rightarrow> FsImpl" where
  "initDataBlockAllocNextFreeBlockIdx fs =
     fold (\<lambda>i fs. let unit = extentArrIdx2BlockAllocUnit i
                  in fs\<lparr>nextBlockIdx := (nextBlockIdx fs)(unit := 0),
                        nextBitNo := (nextBitNo fs)(unit := -1)\<rparr>)
       [0..NEXTENT_ARR - 1] fs"

subsection \<open>Inode numbers\<close>

text \<open>
  The loop of \<open>GetFreeInum\<close>: the number of iterations left, the loop variable and the last
  values of \<open>imapBlkIdx\<close> and \<open>inBlkino\<close>.
\<close>

fun imap_search :: "nat \<Rightarrow> int \<Rightarrow> int \<times> int \<Rightarrow> FsImpl \<Rightarrow> ((int \<times> int) \<times> FsImpl) res" where
  "imap_search 0 i r fs = Inr (r, fs)"
| "imap_search (Suc m) i r fs =
     (let blkIdx = i mod IMAPBLOCK_NUM; fs1 = fs\<lparr>nextImapNo := blkIdx\<rparr>
      in if blkIdx < 0 \<or> int (length (iMapBlocks fs)) \<le> blkIdx then Inl Abort
         else res_bind (of_opt (find_block_free_bit_no_start_from (iMapBlocks fs ! nat blkIdx)
                                  (nextImapBlockFreeBitNo fs) BPB_i)) (\<lambda>inBlkino.
           if inBlkino \<ge> 0 then Inr ((blkIdx, inBlkino), fs1\<lparr>nextImapBlockFreeBitNo := inBlkino\<rparr>)
           else imap_search m (i + 1) (blkIdx, inBlkino) (fs1\<lparr>nextImapBlockFreeBitNo := -1\<rparr>)))"

definition GetFreeInum :: "FsImpl \<Rightarrow> (u32 \<times> FsImpl) res" where
  "GetFreeInum fs =
     res_bind (imap_search (nat IMAPBLOCK_NUM + 1) (nextImapNo fs) (-1, -1) fs) (\<lambda>((blkIdx, inBlkino), fs1).
       if inBlkino < 0 then Inr (0, fs1)
       else let ino = BPB_i * blkIdx + inBlkino
            in if ino = 0 \<or> ino = 1 then Inl Abort
               else res_bind (of_opt (block_set_bit (of_int inBlkino) (iMapBlocks fs1 ! nat blkIdx))) (\<lambda>(_, blk).
                 Inr (of_int ino, fs1\<lparr>iMapBlocks := (iMapBlocks fs1)[nat blkIdx := blk]\<rparr>)))"

definition returnInode :: "u32 \<Rightarrow> InMemInode \<Rightarrow> FsImpl \<Rightarrow> (int \<times> InMemInode \<times> FsImpl) res" where
  "returnInode ino mi fs =
     (let blkIdx = unat ino div 32768; inBlkino = of_nat (unat ino mod 32768)
      in if length (iMapBlocks fs) \<le> blkIdx then Inl Abort
         else res_bind (of_opt (block_test_bit inBlkino (iMapBlocks fs ! blkIdx))) (\<lambda>t.
           if t = 0 then Inl Abort
           else res_bind (of_opt (block_clear_bit inBlkino (iMapBlocks fs ! blkIdx))) (\<lambda>(_, blk).
             Inr (0, mi\<lparr>logEntry := set_bitmap_op 0 (logEntry mi)\<rparr>,
                  fs\<lparr>iMapBlocks := (iMapBlocks fs)[blkIdx := blk], dirtyInodeSet := removeAll ino (dirtyInodeSet fs),
                     inodeMap := AList.delete ino (inodeMap fs)\<rparr>))))"

subsection \<open>Searching the bitmap blocks of an extent size\<close>

datatype search_result = Found u32 int | NeedIo | NoSpace

definition request_bmap :: "u32 \<Rightarrow> FsImpl \<Rightarrow> FsImpl" where
  "request_bmap b fs = fs\<lparr>pendingIo := pendingIo fs @ [b]\<rparr>"

definition put_bmap :: "u32 \<Rightarrow> bytes \<Rightarrow> FsImpl \<Rightarrow> FsImpl" where
  "put_bmap b blk fs = fs\<lparr>bmapBlocks := (bmapBlocks fs)(b := blk)\<rparr>"

text \<open>One try in a bitmap block of the first extent, from the recorded bit on.\<close>

definition try_bit :: "u32 \<Rightarrow> FsImpl \<Rightarrow> (int \<times> FsImpl) res" where
  "try_bit bno fs =
     res_bind (of_opt (find_block_free_bit_no_start_from (bmapBlocks fs bno) (nextBitNo fs 1) BPB_i)) (\<lambda>freeBit.
       if freeBit \<ge> 0
       then res_bind (of_opt (block_set_bit (of_int freeBit) (bmapBlocks fs bno))) (\<lambda>(_, blk).
              Inr (freeBit, put_bmap bno blk (fs\<lparr>nextBitNo := (nextBitNo fs)(1 := freeBit)\<rparr>)))
       else Inr (-1, fs\<lparr>nextBitNo := (nextBitNo fs)(1 := -1)\<rparr>))"

text \<open>\<open>FSIMPL_BMAP_ALLOC_RETRY_ONCE_FROM_START\<close>, when there is one bitmap block only.\<close>

definition try_bit_retry :: "u32 \<Rightarrow> u32 \<Rightarrow> FsImpl \<Rightarrow> (int \<times> FsImpl) res" where
  "try_bit_retry maxb bno fs =
     res_bind (try_bit bno fs) (\<lambda>(freeBit, fs1). if freeBit < 0 \<and> maxb = 1 then try_bit bno fs1 else Inr (freeBit, fs1))"

text \<open>The loops over \<open>k\<close>, with the number of iterations left.\<close>

fun bit_loop :: "u32 \<Rightarrow> u32 \<Rightarrow> nat \<Rightarrow> u32 \<Rightarrow> FsImpl \<Rightarrow> (search_result \<times> FsImpl) res" where
  "bit_loop base maxb 0 k fs = Inr (NoSpace, fs)"
| "bit_loop base maxb (Suc m) k fs =
     (let i = k mod maxb; fs1 = fs\<lparr>nextBlockIdx := (nextBlockIdx fs)(1 := i)\<rparr>; bno = base + i
      in if isBlockBitmapImmutable bno fs1 then bit_loop base maxb m (k + 1) fs1
         else if \<not> bmapInMem fs1 bno then Inr (NeedIo, request_bmap bno fs1)
         else res_bind (try_bit_retry maxb bno fs1) (\<lambda>(freeBit, fs2).
           if freeBit \<ge> 0 then Inr (Found i freeBit, fs2) else bit_loop base maxb m (k + 1) fs2))"

fun jump_loop :: "u32 \<Rightarrow> u32 \<Rightarrow> u32 \<Rightarrow> nat \<Rightarrow> u32 \<Rightarrow> FsImpl \<Rightarrow> (search_result \<times> FsImpl) res" where
  "jump_loop unit base maxb 0 k fs = Inr (NoSpace, fs)"
| "jump_loop unit base maxb (Suc m) k fs =
     (let i = k mod maxb; fs1 = fs\<lparr>nextBlockIdx := (nextBlockIdx fs)(unit := i)\<rparr>; bno = base + i
      in if isBlockBitmapImmutable bno fs1 then jump_loop unit base maxb m (k + 1) fs1
         else if \<not> bmapInMem fs1 bno then Inr (NeedIo, request_bmap bno fs1)
         else res_bind (of_opt (find_block_free_jump_bits_no_start_from (bmapBlocks fs1 bno) 0 BPB_i (uint unit))) (\<lambda>freeBit.
           if freeBit \<ge> 0
           then res_bind (of_opt (block_set_bit (of_int freeBit) (bmapBlocks fs1 bno))) (\<lambda>(_, blk).
                  Inr (Found i freeBit, put_bmap bno blk fs1))
           else jump_loop unit base maxb m (k + 1) fs1))"

text \<open>The loop over whole bitmap blocks runs through the multiples of the unit; the test reads
  the first \<open>int\<close> of the block, and every byte of an allocated block is set to 1.\<close>

definition block_idxs :: "u32 \<Rightarrow> u32 \<Rightarrow> u32 list" where
  "block_idxs maxb stride = map (\<lambda>j. of_nat j * stride) [0..<(unat maxb + unat stride - 1) div unat stride]"

fun block_loop :: "u32 \<Rightarrow> u32 list \<Rightarrow> FsImpl \<Rightarrow> (search_result \<times> FsImpl) res" where
  "block_loop base [] fs = Inr (NoSpace, fs)"
| "block_loop base (i # is) fs =
     (let bno = base + i
      in if isBlockBitmapImmutable bno fs then block_loop base is fs
         else if \<not> bmapInMem fs bno then Inr (NeedIo, request_bmap bno fs)
         else if length (bmapBlocks fs bno) < 4 then Inl Abort
         else if take 4 (bmapBlocks fs bno) = [0, 0, 0, 0]
         then Inr (Found i 0, put_bmap bno (replicate 4096 1) fs)
         else block_loop base is fs)"

definition bmap_search :: "u32 \<Rightarrow> u32 \<Rightarrow> u32 \<Rightarrow> FsImpl \<Rightarrow> (search_result \<times> FsImpl) res" where
  "bmap_search unit base maxb fs =
     (if unit = 1 then bit_loop base maxb (unat maxb) (nextBlockIdx fs 1) fs
      else if unit < 32768 then jump_loop unit base maxb (unat maxb) (nextBlockIdx fs unit) fs
      else block_loop base (block_idxs maxb (unit div 32768)) fs)"

subsection \<open>Data blocks of a file\<close>

definition new_block_no :: "u32 \<Rightarrow> u32 \<Rightarrow> int \<Rightarrow> u64" where
  "new_block_no base i freeBit = (ucast base - get_bmap_start_block_for_worker 0 + ucast i) * BPB + of_int freeBit"

definition set_count :: "u32 \<Rightarrow> InMemInode \<Rightarrow> InMemInode" where
  "set_count c mi = mi\<lparr>inodeData := (inodeData mi)\<lparr>d_block_count := c\<rparr>, logEntry := set_block_count c (logEntry mi)\<rparr>"

definition set_extent :: "int \<Rightarrow> cfs_extent \<Rightarrow> bool \<Rightarrow> InMemInode \<Rightarrow> InMemInode" where
  "set_extent e x bmap_mod mi =
     mi\<lparr>inodeData := (inodeData mi)\<lparr>d_ext_array := (d_ext_array (inodeData mi))[nat e := x]\<rparr>,
        logEntry := update_extent x True bmap_mod (logEntry mi)\<rparr>"

text \<open>
  One round of the loop of \<open>allocateDataBlocks\<close>, on \<open>n\<close>, \<open>curIblockCount\<close>, the inode and the
  state: \<^const>\<open>Inl\<close> returns from the function, \<^const>\<open>Inr\<close> goes on.
\<close>

type_synonym alloc_state = "u32 \<times> u32 \<times> InMemInode \<times> FsImpl"

definition alloc_step :: "u32 \<Rightarrow> alloc_state \<Rightarrow> ((int \<times> InMemInode \<times> FsImpl) + alloc_state) res" where
  "alloc_step numBlocks = (\<lambda>(n, cur, mi, fs).
     case getCurrentExtentArrIdx cur of (e, inside, maxBlocks) \<Rightarrow>
       if e < 0 then Inr (Inl (-1, mi, fs))
       else if int (length (d_ext_array (inodeData mi))) \<le> e then Inl Abort
       else res_bind (of_opt (getDataBMapStartBlockNoForExtentArrIdx e
                                (ucast (get_dev_bmap_num_blocks_for_worker (idx fs))))) (\<lambda>(st, maxb).
         let base = ucast (get_bmap_start_block_for_worker (idx fs) + ucast st); x = d_ext_array (inodeData mi) ! nat e
         in if e_num_blocks x = 0
            then res_bind (bmap_search (extentArrIdx2BlockAllocUnit e) base maxb fs) (\<lambda>(r, fs').
              case r of
                Found i freeBit \<Rightarrow>
                  let x' = x\<lparr>e_block_no := new_block_no base i freeBit, e_num_blocks := e_num_blocks x + 1,
                             e_i_block_offset := cur\<rparr>
                  in Inr (Inr (n + 1, cur + 1, set_extent e x' True mi, fs'))
              | NeedIo \<Rightarrow> Inr (Inl (0, set_count cur mi, fs'))
              | NoSpace \<Rightarrow> Inr (Inl (-1, mi, fs')))
            else let add = min (numBlocks - n) (maxBlocks - e_num_blocks x);
                     x' = x\<lparr>e_num_blocks := e_num_blocks x + add\<rparr>
                 in Inr (Inr (n + add, cur + add, set_extent e x' False mi, fs))))"

partial_function (option) alloc_loop :: "u32 \<Rightarrow> alloc_state \<Rightarrow> (int \<times> InMemInode \<times> FsImpl) res option" where
  "alloc_loop numBlocks st =
     (case st of (n, cur, mi, fs) \<Rightarrow>
        if n < numBlocks
        then (case alloc_step numBlocks st of
                Inl err \<Rightarrow> Some (Inl err)
              | Inr (Inl r) \<Rightarrow> Some (Inr r)
              | Inr (Inr st') \<Rightarrow> alloc_loop numBlocks st')
        else Some (Inr (uint (cur - d_block_count (inodeData mi)), set_count cur mi, fs)))"

definition allocateDataBlocks :: "u32 \<Rightarrow> InMemInode \<Rightarrow> FsImpl \<Rightarrow> (int \<times> InMemInode \<times> FsImpl) res option" where
  "allocateDataBlocks numBlocks mi fs = alloc_loop numBlocks (0, d_block_count (inodeData mi), mi, fs)"

text \<open>
  \<open>releaseInodeDataBlocks\<close>: the loop over the extents ends at the first without a block number,
  and leaves early when a bitmap block has to be read.
\<close>

definition release_extent :: "nat \<Rightarrow> cfs_extent \<Rightarrow> bytes \<Rightarrow> bytes res" where
  "release_extent e x blk =
     (let unit = extentArrIdx2BlockAllocUnit (int e); off = unat (e_block_no x mod BPB)
      in if unit = 1
         then res_bind (of_opt (block_test_bit (of_nat off) blk)) (\<lambda>t.
                if t = 0 then Inl Abort
                else res_bind (of_opt (block_clear_bit (of_nat off) blk)) (\<lambda>(_, b). Inr b))
         else if unit < 32768
         then fold_res (\<lambda>j b. res_bind (of_opt (block_clear_bit (of_nat (off + j)) b)) (\<lambda>(_, b'). Inr b'))
                [0..<unat unit] blk
         else Inr (replicate 4096 0))"

fun release_loop :: "(nat \<times> cfs_extent) list \<Rightarrow> FsImpl \<Rightarrow> FsImpl res" where
  "release_loop [] fs = Inr fs"
| "release_loop ((e, x) # xs) fs =
     (if e_block_no x = 0 then Inr fs
      else let bno = ucast (e_block_no x div BPB + get_bmap_start_block_for_worker 0)
           in if \<not> bmapInMem fs bno then Inr (request_bmap bno fs)
              else res_bind (release_extent e x (bmapBlocks fs bno)) (\<lambda>blk. release_loop xs (put_bmap bno blk fs)))"

definition releaseInodeDataBlocks :: "InMemInode \<Rightarrow> FsImpl \<Rightarrow> (int \<times> FsImpl) res" where
  "releaseInodeDataBlocks mi fs =
     res_bind (release_loop (enumerate 0 (take (nat NEXTENT_ARR) (d_ext_array (inodeData mi)))) fs) (\<lambda>fs'. Inr (0, fs'))"

end
