(* ===== verification/Ufs_AllocInode.thy ===== *)
theory Ufs_AllocInode
  imports Ufs_Alloc
begin

text \<open>
  Properties of the allocation of inode numbers: a number is handed out only while it is free,
  and as long as any is free one is found, wherever the recorded search position stands.
\<close>

subsection \<open>Free bits of a bitmap block\<close>

definition blk_ok :: "bytes \<Rightarrow> bool" where
  "blk_ok a \<longleftrightarrow> length a = 4096"

lemma find_in_block:
  assumes "blk_ok a" "-1 \<le> hint" "hint < BPB_i"
  obtains (found) n where "find_block_free_bit_no_start_from a hint BPB_i = Some (int n)" "n < 32768"
      "hint < int n" "\<not> bset a n"
    | (full) "find_block_free_bit_no_start_from a hint BPB_i = Some (-1)"
      "\<forall>k < 32768. hint < int k \<longrightarrow> bset a k"
proof -
  have scan: "scan_ok a BPB_i" using assms(1) by (simp add: scan_ok_def blk_ok_def BPB_i_def)
  let ?r = "first_clear a hint BPB_i"
  note f = find_free_bit_correct [OF scan assms(2,3)] and p = first_clear_props [OF assms(2), of a BPB_i]
  show thesis
  proof (cases "?r = -1")
    case True
    then have "bset a k" if "k < 32768" "hint < int k" for k
      using p that by (auto simp: BPB_i_def dest!: bspec [of _ _ "int k"])
    with f True show thesis by (intro full) auto
  next
    case False
    then show thesis using f p assms(2) by (intro found [of "nat ?r"]) (auto simp: BPB_i_def)
  qed
qed

lemma set_in_block:
  assumes "blk_ok a" "n < 32768"
  obtains v a' where "block_set_bit (of_nat n) a = Some (v, a')" "blk_ok a'" "\<forall>j < 32768. bset a' j \<longleftrightarrow> j = n \<or> bset a j"
  using block_set_bit_of_nat [of n a] assms by (auto simp: blk_ok_def)

lemma clear_in_block:
  assumes "blk_ok a" "n < 32768"
  obtains v a' where "block_clear_bit (of_nat n) a = Some (v, a')" "blk_ok a'" "\<forall>j < 32768. bset a' j \<longleftrightarrow> j \<noteq> n \<and> bset a j"
  using block_clear_bit_of_nat [of n a] assms by (auto simp: blk_ok_def)

subsection \<open>The inode bitmap\<close>

text \<open>The bits of the inode bitmap and the sectors of the inode table.\<close>

definition inode_bits :: nat where "inode_bits = 131072"
definition inode_sectors :: nat where "inode_sectors = 125008"


definition used_inum :: "FsImpl \<Rightarrow> nat \<Rightarrow> bool" where
  "used_inum fs i \<longleftrightarrow> bset (iMapBlocks fs ! (i div 32768)) (i mod 32768)"

text \<open>Four blocks; the numbers 0 and 1 are reserved; the search position is inside a block.\<close>

definition imap_ok :: "FsImpl \<Rightarrow> bool" where
  "imap_ok fs \<longleftrightarrow>
     length (iMapBlocks fs) = 4 \<and> (\<forall>b \<in> set (iMapBlocks fs). blk_ok b) \<and>
     -1 \<le> nextImapBlockFreeBitNo fs \<and> nextImapBlockFreeBitNo fs < BPB_i \<and>
     0 \<le> nextImapNo fs \<and> nextImapNo fs < 4 \<and> used_inum fs 0 \<and> used_inum fs 1"

definition full_block :: "FsImpl \<Rightarrow> nat \<Rightarrow> bool" where
  "full_block fs b \<longleftrightarrow> (\<forall>k < 32768. bset (iMapBlocks fs ! b) k)"

text \<open>What a round of the search leaves behind.\<close>

definition search_post :: "FsImpl \<Rightarrow> int \<times> int \<Rightarrow> FsImpl \<Rightarrow> bool" where
  "search_post fs r fs' \<longleftrightarrow>
     imap_ok fs' \<and> iMapBlocks fs' = iMapBlocks fs \<and> fs'\<lparr>nextImapNo := 0, nextImapBlockFreeBitNo := 0\<rparr> =
       fs\<lparr>nextImapNo := 0, nextImapBlockFreeBitNo := 0\<rparr> \<and>
     (snd r < 0 \<or> (\<exists>b n. r = (int b, int n) \<and> b < 4 \<and> n < 32768 \<and> \<not> bset (iMapBlocks fs ! b) n))"

lemma imap_block_ok: "imap_ok fs \<Longrightarrow> b < 4 \<Longrightarrow> blk_ok (iMapBlocks fs ! b)"
  by (simp add: imap_ok_def)

lemma imap_search_step:
  assumes "imap_ok fs" "0 \<le> i"
  obtains (found) r fs' where "imap_search (Suc m) i r0 fs = Inr (r, fs')" "search_post fs r fs'" "0 \<le> snd r"
    | (next_block) fs' r where "imap_search (Suc m) i r0 fs = imap_search m (i + 1) r fs'" "search_post fs r fs'"
      "snd r = -1" "nextImapBlockFreeBitNo fs' = -1"
      "\<forall>k < 32768. nextImapBlockFreeBitNo fs < int k \<longrightarrow> bset (iMapBlocks fs ! nat (i mod 4)) k"
proof -
  define b where "b = nat (i mod 4)"
  have b: "b < 4" "i mod 4 = int b" by (auto simp: b_def)
  have hint: "-1 \<le> nextImapBlockFreeBitNo fs" "nextImapBlockFreeBitNo fs < BPB_i" and len: "length (iMapBlocks fs) = 4"
    using assms(1) by (auto simp: imap_ok_def)
  from imap_block_ok [OF assms(1) b(1)] hint show thesis
  proof (cases rule: find_in_block)
    case (found n)
    let ?fs = "fs\<lparr>nextImapNo := int b, nextImapBlockFreeBitNo := int n\<rparr>"
    have "imap_search (Suc m) i r0 fs = Inr ((int b, int n), ?fs)"
      using found(1) b len by (simp add: Let_def IMAPBLOCK_NUM_def)
    moreover have "search_post fs (int b, int n) ?fs"
      using assms(1) found b by (auto simp: search_post_def imap_ok_def used_inum_def BPB_i_def)
    ultimately show thesis by (rule that(1)) simp
  next
    case full
    let ?fs = "fs\<lparr>nextImapNo := int b, nextImapBlockFreeBitNo := -1\<rparr>"
    have "imap_search (Suc m) i r0 fs = imap_search m (i + 1) (int b, -1) ?fs"
      using full(1) b len by (simp add: Let_def IMAPBLOCK_NUM_def)
    moreover have "search_post fs (int b, -1) ?fs"
      using assms(1) b by (auto simp: search_post_def imap_ok_def used_inum_def BPB_i_def)
    moreover have "nextImapBlockFreeBitNo ?fs = -1" by simp
    ultimately show thesis using full(2) by (intro that(2) [of "(int b, -1)" ?fs]) (simp_all only: b_def [symmetric] snd_conv)
  qed
qed

lemma search_post_trans: "search_post fs r0 fs1 \<Longrightarrow> search_post fs1 r fs' \<Longrightarrow> search_post fs r fs'"
  by (auto simp: search_post_def)

lemma imap_search_from_start:
  assumes "imap_ok fs" "0 \<le> i" "nextImapBlockFreeBitNo fs = -1" "snd r0 = -1"
  shows "\<exists>r fs'. imap_search m i r0 fs = Inr (r, fs') \<and> search_post fs r fs' \<and>
    (snd r < 0 \<longrightarrow> (\<forall>j < m. full_block fs (nat ((i + int j) mod 4))))"
  using assms
proof (induction m arbitrary: i r0 fs)
  case 0
  then show ?case by (auto simp: search_post_def)
next
  case (Suc m)
  from Suc.prems(1,2) show ?case
  proof (cases rule: imap_search_step [where m = m and ?r0.0 = r0])
    case (found r fs')
    then show ?thesis by auto
  next
    case (next_block fs' r)
    have "imap_ok fs'" using next_block(2) by (simp add: search_post_def)
    from Suc.IH [OF this, of "i + 1" r] Suc.prems(2) next_block(3,4) obtain r' fs'' where
      s: "imap_search m (i + 1) r fs' = Inr (r', fs'')" "search_post fs' r' fs''"
      and f: "snd r' < 0 \<longrightarrow> (\<forall>j < m. full_block fs' (nat ((i + 1 + int j) mod 4)))" by auto
    have "full_block fs (nat (i mod 4))" using next_block(5) Suc.prems(3) by (simp add: full_block_def)
    moreover have "full_block fs' b = full_block fs b" for b
      using next_block(2) by (simp add: full_block_def search_post_def)
    ultimately have "\<forall>j < Suc m. full_block fs (nat ((i + int j) mod 4))" if "snd r' < 0"
      using f that by (auto simp: less_Suc_eq_0_disj ac_simps)
    with s next_block(1) search_post_trans [OF next_block(2) s(2)] show ?thesis by auto
  qed
qed


lemma imap_search_ok:
  assumes "imap_ok fs"
  shows "\<exists>r fs'. imap_search (Suc 4) (nextImapNo fs) r0 fs = Inr (r, fs') \<and> search_post fs r fs' \<and>
    (snd r < 0 \<longrightarrow> (\<forall>b < 4. full_block fs b))"
proof -
  let ?i = "nextImapNo fs"
  have i: "0 \<le> ?i" "?i < 4" using assms by (auto simp: imap_ok_def)
  from assms i(1) show ?thesis
  proof (cases rule: imap_search_step [where m = 4 and ?r0.0 = r0])
    case (found r fs')
    then show ?thesis by auto
  next
    case (next_block fs' r)
    have ok: "imap_ok fs'" using next_block(2) by (simp add: search_post_def)
    from imap_search_from_start [OF this, of "?i + 1" r 4] i next_block(3,4) obtain r' fs'' where
      s: "imap_search 4 (?i + 1) r fs' = Inr (r', fs'')" "search_post fs' r' fs''"
      and f: "snd r' < 0 \<longrightarrow> (\<forall>j < 4. full_block fs' (nat ((?i + 1 + int j) mod 4)))" by auto
    have eq: "full_block fs' b = full_block fs b" for b
      using next_block(2) by (simp add: full_block_def search_post_def)
    have "full_block fs b" if "snd r' < 0" "b < 4" for b
    proof -
      define j where "j = nat ((int b - ?i - 1) mod 4)"
      have "(?i + 1 + int j) mod 4 = int b" using that(2) by (simp add: j_def mod_simps)
      moreover have "j < 4" by (simp add: j_def nat_less_iff)
      ultimately show ?thesis using f that(1) eq by (metis nat_int)
    qed
    with s next_block(1) search_post_trans [OF next_block(2) s(2)] show ?thesis by auto
  qed
qed


subsection \<open>Handing out and returning numbers\<close>

lemma used_inum_split: "b < 4 \<Longrightarrow> n < 32768 \<Longrightarrow> used_inum fs (32768 * b + n) = bset (iMapBlocks fs ! b) n"
  by (simp add: used_inum_def)

lemma full_iff: "(\<forall>b < 4. full_block fs b) \<longleftrightarrow> (\<forall>i < inode_bits. used_inum fs i)"
proof
  assume f: "\<forall>b < 4. full_block fs b"
  show "\<forall>i < inode_bits. used_inum fs i"
  proof (intro allI impI)
    fix i :: nat assume "i < inode_bits"
    then have "i div 32768 < 4" by (simp add: less_mult_imp_div_less inode_bits_def)
    with f show "used_inum fs i" by (simp add: used_inum_def full_block_def)
  qed
next
  assume u: "\<forall>i < inode_bits. used_inum fs i"
  show "\<forall>b < 4. full_block fs b" unfolding full_block_def
  proof (intro allI impI)
    fix b k :: nat assume "b < 4" "k < 32768"
    then show "bset (iMapBlocks fs ! b) k" using spec [OF u, of "32768 * b + k"] used_inum_split [of b k fs] by (simp add: inode_bits_def)
  qed
qed

lemma used_after_update:
  assumes "length (iMapBlocks fs) = 4" "b < 4"
  shows "used_inum (fs\<lparr>iMapBlocks := (iMapBlocks fs)[b := blk]\<rparr>) i \<longleftrightarrow>
    (if i div 32768 = b then bset blk (i mod 32768) else used_inum fs i)"
  using assms by (auto simp: used_inum_def)

lemma get_free_inum_ok:
  assumes "imap_ok fs"
  shows "\<exists>ino fs'. GetFreeInum fs = Inr (ino, fs') \<and> imap_ok fs' \<and>
    (if \<forall>i < inode_bits. used_inum fs i then ino = 0 \<and> iMapBlocks fs' = iMapBlocks fs
     else 1 < unat ino \<and> unat ino < inode_bits \<and> \<not> used_inum fs (unat ino) \<and>
          (\<forall>i < inode_bits. used_inum fs' i \<longleftrightarrow> i = unat ino \<or> used_inum fs i))"
proof -
  obtain r fs1 where s: "imap_search (Suc 4) (nextImapNo fs) (-1, -1) fs = Inr (r, fs1)" "search_post fs r fs1"
    and f: "snd r < 0 \<longrightarrow> (\<forall>b < 4. full_block fs b)" using imap_search_ok [OF assms] by blast
  have four: "nat IMAPBLOCK_NUM + 1 = Suc 4" by (simp add: IMAPBLOCK_NUM_def)
  from s(2) consider "snd r < 0" | b n where "r = (int b, int n)" "b < 4" "n < 32768" "\<not> bset (iMapBlocks fs ! b) n"
    unfolding search_post_def by blast
  then show ?thesis
  proof cases
    case 1
    then have "GetFreeInum fs = Inr (0, fs1)" unfolding GetFreeInum_def four s(1) by (simp add: case_prod_unfold)
    moreover have "\<forall>i < inode_bits. used_inum fs i" using f 1 full_iff by blast
    ultimately show ?thesis using s(2) by (auto simp: search_post_def)
  next
    case 2
    have ok: "imap_ok fs1" and im: "iMapBlocks fs1 = iMapBlocks fs" using s(2) by (auto simp: search_post_def)
    have len: "length (iMapBlocks fs1) = 4" using ok by (simp add: imap_ok_def)
    obtain v blk where blk: "block_set_bit (of_nat n) (iMapBlocks fs1 ! b) = Some (v, blk)" "blk_ok blk"
      "\<forall>j < 32768. bset blk j \<longleftrightarrow> j = n \<or> bset (iMapBlocks fs1 ! b) j"
      using set_in_block [OF imap_block_ok [OF ok 2(2)] 2(3)] by blast
    let ?ino = "32768 * b + n" and ?fs = "fs1\<lparr>iMapBlocks := (iMapBlocks fs1)[b := blk]\<rparr>"
    have free: "\<not> used_inum fs ?ino" using 2 by (simp add: used_inum_split)
    moreover have "used_inum fs 0" "used_inum fs 1" using assms by (simp_all add: imap_ok_def)
    ultimately have ino: "?ino \<noteq> 0" "?ino \<noteq> 1" by metis+
    have int: "32768 * int b + int n \<noteq> 0" "32768 * int b + int n \<noteq> 1" using ino by presburger+
    have u: "unat (of_nat ?ino :: u32) = ?ino"
      using 2(2,3) by (subst unat_of_nat) (simp del: of_nat_add of_nat_mult)
    have upd: "used_inum ?fs i \<longleftrightarrow> i = ?ino \<or> used_inum fs i" if "i < inode_bits" for i
    proof -
      have "i = ?ino \<longleftrightarrow> i div 32768 = b \<and> i mod 32768 = n" using 2(3) by auto
      then show ?thesis
        using used_after_update [OF len 2(2), of blk i] blk(3) im by (auto simp: used_inum_def)
    qed
    have "GetFreeInum fs = Inr (of_nat ?ino, ?fs)"
      unfolding GetFreeInum_def four s(1) using 2(1) blk(1) int by (simp add: Let_def BPB_i_def)
    moreover have "imap_ok ?fs"
      using ok blk(2) upd [of 0] upd [of 1] assms inode_bits_def
      by (auto simp: imap_ok_def dest!: set_update_subset_insert [THEN subsetD])
    moreover have lt: "1 < ?ino" "?ino < inode_bits" using ino 2 by (auto simp: inode_bits_def)
    moreover have "\<not> (\<forall>i < inode_bits. used_inum fs i)" using free lt(2) by blast
    ultimately show ?thesis using free upd u by auto
  qed
qed


text \<open>C24: A free inode number is found whenever there is one, and it was free. From every state of
  the inode bitmap and every position of the search, \<open>GetFreeInum\<close> returns a number that was not
  in use and marks it and nothing else; it reports that there is none only when all 131072
  numbers are in use, and then changes no bitmap.\<close>

theorem get_free_inum_complete:
  assumes "imap_ok fs"
  shows "\<exists>ino fs'. GetFreeInum fs = Inr (ino, fs') \<and> imap_ok fs' \<and>
    (if \<forall>i < inode_bits. used_inum fs i then ino = 0 \<and> iMapBlocks fs' = iMapBlocks fs
     else 1 < unat ino \<and> unat ino < inode_bits \<and> \<not> used_inum fs (unat ino) \<and>
          (\<forall>i < inode_bits. used_inum fs' i \<longleftrightarrow> i = unat ino \<or> used_inum fs i))"
  using assms by (rule get_free_inum_ok)

text \<open>An inode bitmap where all numbers below \<open>n\<close> are in use, for a multiple \<open>n\<close> of 8.\<close>

definition blk_len :: nat where "blk_len = 4096"
definition imap_len :: nat where "imap_len = 4"

definition demo_imap :: "nat \<Rightarrow> FsImpl" where
  "demo_imap n = \<lparr>idx = 0,
     iMapBlocks = map (\<lambda>b. map (\<lambda>j. if 32768 * b + 8 * j < n then 255 else 0) [0..<blk_len]) [0..<imap_len],
     nextImapBlockFreeBitNo = -1, nextImapNo = 0, bmapBlocks = (\<lambda>_. []), bmapInMem = (\<lambda>_. False),
     immutableBitmaps = [], nextBlockIdx = (\<lambda>_. 0), nextBitNo = (\<lambda>_. 0), pendingIo = [], inodeMap = [], dirtyInodeSet = []\<rparr>"

lemma bit_255: "bit (255 :: u8) k \<longleftrightarrow> k < 8"
proof -
  have "(255 :: u8) = mask 8" by (simp add: mask_eq_exp_minus_1)
  then show ?thesis by (simp only: bit_mask_iff) simp
qed

lemma demo_imap_used:
  assumes "i < inode_bits" "n mod 8 = 0"
  shows "used_inum (demo_imap n) i \<longleftrightarrow> i < n"
proof -
  have b: "i div 32768 < imap_len" "i mod 32768 div 8 < blk_len"
    using assms(1) by (auto simp: less_mult_imp_div_less inode_bits_def imap_len_def blk_len_def)
  have e: "32768 * (i div 32768) + 8 * (i mod 32768 div 8) = 8 * (i div 8)"
  proof -
    have "i = i mod 32768 + 8 * (4096 * (i div 32768))" by simp
    then have "i div 8 = (i mod 32768 + 8 * (4096 * (i div 32768))) div 8" by simp
    also have "\<dots> = 4096 * (i div 32768) + i mod 32768 div 8" by (rule div_mult_self2) simp
    finally show ?thesis by simp
  qed
  have "8 * (i div 8) < n \<longleftrightarrow> i < n" using assms(2) by presburger
  then show ?thesis using b e bit_255 [of "i mod 32768 mod 8"] by (simp add: used_inum_def demo_imap_def bset_def)
qed

lemma demo_imap_ok:
  assumes "8 \<le> n" "n mod 8 = 0"
  shows "imap_ok (demo_imap n)"
proof -
  have "used_inum (demo_imap n) 0" "used_inum (demo_imap n) 1"
    using demo_imap_used [OF _ assms(2), of 0] demo_imap_used [OF _ assms(2), of 1] assms(1)
    by (simp_all add: inode_bits_def)
  moreover have "length (iMapBlocks (demo_imap n)) = 4" by (simp add: demo_imap_def) (simp add: imap_len_def)
  moreover have "blk_ok b" if "b \<in> set (iMapBlocks (demo_imap n))" for b
    using that by (auto simp: demo_imap_def blk_ok_def) (simp add: blk_len_def)
  moreover have "nextImapBlockFreeBitNo (demo_imap n) = -1" "nextImapNo (demo_imap n) = 0" by (simp_all add: demo_imap_def)
  ultimately show ?thesis by (simp add: imap_ok_def BPB_i_def)
qed

theorem get_free_inum_complete_witness:
  "\<exists>ino fs'. GetFreeInum (demo_imap 8) = Inr (ino, fs') \<and> 8 \<le> unat ino \<and> used_inum fs' (unat ino)"
proof -
  have "\<not> (\<forall>i < inode_bits. used_inum (demo_imap 8) i)"
    using demo_imap_used [of 8 8] by (auto simp: inode_bits_def intro: exI [of _ 8])
  with get_free_inum_complete [OF demo_imap_ok [of 8]] obtain ino fs' where
    "GetFreeInum (demo_imap 8) = Inr (ino, fs')" "unat ino < inode_bits" "\<not> used_inum (demo_imap 8) (unat ino)"
    "used_inum fs' (unat ino)" by auto
  then show ?thesis using demo_imap_used [of "unat ino" 8] by auto
qed

text \<open>C25: Inode numbers behind the inode table are handed out. The inode bitmap has 131072 bits,
  the inode table 125008 sectors; when the numbers of the table are in use, the allocator goes on
  with numbers whose sector is in the data region, so writing such an inode overwrites file data.\<close>

theorem inum_behind_inode_table:
  assumes "imap_ok fs" "\<forall>i < inode_sectors. used_inum fs i" "\<exists>i < inode_bits. \<not> used_inum fs i"
  shows "\<exists>ino fs'. GetFreeInum fs = Inr (ino, fs') \<and> NINODES < ucast ino \<and>
    8 * unat get_data_start_block \<le> unat (calcSectorForInode ino)"
proof -
  have "\<not> (\<forall>i < inode_bits. used_inum fs i)" using assms(3) by blast
  with get_free_inum_ok [OF assms(1)] obtain ino fs' where
    g: "GetFreeInum fs = Inr (ino, fs')" "unat ino < inode_bits" "\<not> used_inum fs (unat ino)" by auto
  then have ge: "125008 \<le> unat ino" using assms(2) by (metis not_less inode_sectors_def)
  then have "NINODES < ucast ino" by (simp add: NINODES_def word_less_nat_alt unat_ucast_up)
  moreover have "unat (calcSectorForInode ino) = unat ino + 8 * unat get_inode_start_block"
    using g(2) by (simp add: inode_bits_def calcSectorForInode_def BSIZE_w_def SSD_SEC_SIZE_def unat_ucast_down
        unat_add_no_overflow unat_ucast_up)
  ultimately show ?thesis using g(1) ge by auto
qed

theorem inum_behind_inode_table_witness:
  "\<exists>ino fs'. GetFreeInum (demo_imap 125008) = Inr (ino, fs') \<and> 8 * unat get_data_start_block \<le> unat (calcSectorForInode ino)"
proof -
  have "\<forall>i < inode_sectors. used_inum (demo_imap 125008) i"
  proof (intro allI impI)
    fix i assume "i < inode_sectors"
    then show "used_inum (demo_imap 125008) i" using demo_imap_used [of i 125008] by (simp add: inode_sectors_def inode_bits_def)
  qed
  moreover have "\<exists>i < inode_bits. \<not> used_inum (demo_imap 125008) i" 
    using demo_imap_used [of 125008 125008] by (intro exI [of _ 125008] conjI) (simp_all add: inode_bits_def)
  ultimately show ?thesis using inum_behind_inode_table [OF demo_imap_ok [of 125008]] by auto
qed

end
