(* ===== verification/Ufs_AllocBlocks.thy ===== *)
theory Ufs_AllocBlocks
  imports Ufs_AllocInode
begin

text \<open>
  Properties of the allocation of data blocks. Each worker has its own part of the bitmap blocks,
  and in it a part for every position of the extent array. An extent of a file is allocated by
  marking its first block: a bit in the bitmap block for the two small extent sizes, the bytes of
  whole bitmap blocks for the others. The theory shows what a search finds and marks, and then
  that extents never overlap, in every sequence of allocations, arrivals of bitmap blocks, locks
  and deallocations by all workers.
\<close>

subsection \<open>Places of extents\<close>

text \<open>The first bitmap block and the number of bitmap blocks of each extent position, and the
  allocation unit, in blocks and in bitmap blocks.\<close>

definition pstart :: "nat \<Rightarrow> nat" where "pstart e = [0, 6, 12, 36, 84, 180, 300] ! e"
definition plen :: "nat \<Rightarrow> nat" where "plen e = [6, 6, 24, 48, 96, 120, 320] ! e"
definition units :: "nat \<Rightarrow> nat" where "units e = [1, 2048, 32768, 65536, 131072, 262144, 1048576] ! e"
definition stride :: "nat \<Rightarrow> nat" where "stride e = [1, 1, 1, 2, 4, 8, 32] ! e"

lemma less_7_cases: "e < 7 \<Longrightarrow> e = 0 \<or> e = 1 \<or> e = 2 \<or> e = 3 \<or> e = 4 \<or> e = 5 \<or> e = (6 :: nat)"
  by linarith

lemma part_table:
  assumes "e < 7"
  shows "getDataBMapStartBlockNoForExtentArrIdx (int e) 640 = Some (of_nat (pstart e), of_nat (plen e))"
  using less_7_cases [OF assms]
  by (elim disjE)
     (simp_all add: getDataBMapStartBlockNoForExtentArrIdx_def layout_params pstart_def plen_def pre_share_values share_at_def
       eval_nat_numeral(3) [symmetric])

lemma units_table: "e < 7 \<Longrightarrow> extentArrIdx2BlockAllocUnit (int e) = of_nat (units e)"
  by (drule less_7_cases) (elim disjE; simp add: units_def)

lemma part_bounds:
  assumes "e < 7"
  shows "pstart e + plen e \<le> 640" "0 < plen e" "0 < units e" "units e < 2 ^ 31" "0 < stride e" "stride e dvd plen e"
    "2 \<le> e \<Longrightarrow> units e = 32768 * stride e" "e < 6 \<Longrightarrow> pstart (Suc e) = pstart e + plen e"
  using less_7_cases [OF assms] by (elim disjE; simp add: pstart_def plen_def units_def stride_def)+

definition owner :: "nat \<Rightarrow> nat" where "owner b = b div 32768 div 640"

definition placed :: "nat \<Rightarrow> nat \<Rightarrow> nat \<Rightarrow> bool" where
  "placed w e b \<longleftrightarrow>
     (let q = b div 32768; q0 = 640 * w + pstart e in
      q0 \<le> q \<and> q < q0 + plen e \<and> (e = 1 \<longrightarrow> 2048 dvd b) \<and> (2 \<le> e \<longrightarrow> 32768 dvd b \<and> stride e dvd (q - q0)))"

definition bmap_no :: "nat \<Rightarrow> u32" where "bmap_no q = of_nat (10485766 + q)"

definition marked :: "(u32 \<Rightarrow> bytes) \<Rightarrow> nat \<Rightarrow> nat \<Rightarrow> bool" where
  "marked bm e b \<longleftrightarrow>
     (if e < 2 then bset (bm (bmap_no (b div 32768))) (b mod 32768)
      else take 4 (bm (bmap_no (b div 32768))) \<noteq> [0, 0, 0, 0])"

lemma placed_owner: "placed w e b \<Longrightarrow> e < 7 \<Longrightarrow> owner b = w"
  using part_bounds(1) [of e] by (auto simp: placed_def owner_def Let_def intro!: div_nat_eqI)

lemma bmap_no_inj: "q < 6400 \<Longrightarrow> q' < 6400 \<Longrightarrow> bmap_no q = bmap_no q' \<longleftrightarrow> q = q'"
  unfolding bmap_no_def by (subst word_unat_eq_iff, subst (1 2) unat_of_nat) (simp del: of_nat_add)

lemma pstart_mono: "e < e' \<Longrightarrow> e' < 7 \<Longrightarrow> pstart e + plen e \<le> pstart e'"
proof (induction e')
  case (Suc e')
  then show ?case using part_bounds(8) [of e'] by (cases "e = e'") auto
qed simp

lemma placed_aligned:
  assumes "placed w e b" "e < 7"
  obtains k where "b = 32768 * (640 * w + pstart e) + units e * k" "units e * (k + 1) \<le> 32768 * plen e"
proof -
  define q0 where "q0 = 640 * w + pstart e"
  have q: "q0 \<le> b div 32768" "b div 32768 < q0 + plen e" using assms(1) by (auto simp: placed_def q0_def Let_def)
  then have lo: "32768 * q0 \<le> b" and hi: "b < 32768 * (q0 + plen e)"
    by (metis div_mult_mod_eq less_eq_div_iff_mult_less_eq mult.commute zero_less_numeral)
       (metis q(2) div_less_iff_less_mult mult.commute zero_less_numeral)
  have "units e dvd b - 32768 * q0"
  proof (cases "2 \<le> e")
    case True
    then have "stride e dvd b div 32768 - q0" "32768 dvd b" using assms(1) by (auto simp: placed_def q0_def Let_def)
    moreover have "b - 32768 * q0 = 32768 * (b div 32768 - q0)" using calculation(2) by (simp add: diff_mult_distrib2)
    ultimately show ?thesis using part_bounds(7) [OF assms(2) True] by simp
  next
    case False
    then have "e = 0 \<or> e = 1" by linarith
    then show ?thesis
    proof
      assume e: "e = 1"
      then have "2048 dvd b" using assms(1) by (simp add: placed_def Let_def)
      moreover have "(2048 :: nat) dvd 32768 * q0" by (rule dvd_mult2) simp
      ultimately show ?thesis using e by (simp add: units_def)
    qed (simp add: units_def)
  qed
  then obtain k where k: "b - 32768 * q0 = units e * k" by (auto elim: dvdE)
  have "units e dvd 32768 * plen e" using less_7_cases [OF assms(2)] by (elim disjE; simp add: units_def plen_def)
  then obtain m where m: "32768 * plen e = units e * m" by (auto elim: dvdE)
  have "32768 * (q0 + plen e) = 32768 * q0 + units e * m" by (simp only: distrib_left m)
  then have "units e * k < units e * m" using k lo hi by linarith
  then have "k + 1 \<le> m" by simp
  then have "units e * (k + 1) \<le> 32768 * plen e" unfolding m by (rule mult_le_mono2)
  with k lo show thesis by (intro that [of k]) (auto simp: q0_def)
qed

text \<open>The blocks of two extents with different first blocks have no block in common.\<close>

lemma placed_disjoint:
  assumes "placed w e b" "placed w' e' b'" "e < 7" "e' < 7" "b \<noteq> b'"
  shows "b + units e \<le> b' \<or> b' + units e' \<le> b"
proof -
  obtain k where k: "b = 32768 * (640 * w + pstart e) + units e * k" "units e * (k + 1) \<le> 32768 * plen e"
    using placed_aligned [OF assms(1,3)] by blast
  obtain k' where k': "b' = 32768 * (640 * w' + pstart e') + units e' * k'" "units e' * (k' + 1) \<le> 32768 * plen e'"
    using placed_aligned [OF assms(2,4)] by blast
  have in_part: "b + units e \<le> 32768 * (640 * w + pstart e + plen e)" "b' + units e' \<le> 32768 * (640 * w' + pstart e' + plen e')"
    using k k' by (simp_all add: distrib_left)
  consider "640 * w + pstart e + plen e \<le> 640 * w' + pstart e'" | "640 * w' + pstart e' + plen e' \<le> 640 * w + pstart e"
    | "w = w'" "e = e'"
  proof (cases "w = w'")
    case True
    then show thesis
      using that pstart_mono [of e e'] pstart_mono [of e' e] assms(3,4) by (cases e e' rule: linorder_cases) auto
  next
    case False
    then consider "w + 1 \<le> w'" | "w' + 1 \<le> w" by linarith
    then show thesis
    proof cases
      case 1
      then show thesis using that(1) part_bounds(1) [OF assms(3)] by linarith
    next
      case 2
      then show thesis using that(2) part_bounds(1) [OF assms(4)] by linarith
    qed
  qed
  then show ?thesis
  proof cases
    case 1
    from mult_le_mono2 [OF this, of 32768] in_part(1) k'(1) show ?thesis by linarith
  next
    case 2
    from mult_le_mono2 [OF this, of 32768] in_part(2) k(1) show ?thesis by linarith
  next
    case 3
    with k(1) k'(1) assms(5) have "k < k' \<or> k' < k" by auto
    then have "units e * (k + 1) \<le> units e * k' \<or> units e * (k' + 1) \<le> units e * k"
      by (metis Suc_eq_plus1 Suc_leI mult_le_mono2)
    with k(1) k'(1) 3 show ?thesis by (auto simp: distrib_left)
  qed
qed

subsection \<open>Marking an extent\<close>

lemma placed_block:
  assumes "placed w e b" "e < 7" "w < 10"
  shows "b div 32768 < 6400"
  using assms part_bounds(1) [OF assms(2)] by (auto simp: placed_def Let_def)

lemma placed_same_block:
  assumes "placed w e b" "placed w' e' b'" "e < 7" "e' < 7" "b div 32768 = b' div 32768"
  shows "w = w' \<and> e = e'"
proof -
  have q: "640 * w + pstart e \<le> b div 32768" "b div 32768 < 640 * w + pstart e + plen e"
    "640 * w' + pstart e' \<le> b div 32768" "b div 32768 < 640 * w' + pstart e' + plen e'"
    using assms(1,2,5) by (auto simp: placed_def Let_def)
  have "w = w'" using q part_bounds(1) [OF assms(3)] part_bounds(1) [OF assms(4)] by linarith
  moreover from this have "e = e'"
    using q pstart_mono [of e e'] pstart_mono [of e' e] assms(3,4) by (cases e e' rule: linorder_cases) auto
  ultimately show ?thesis by simp
qed

lemma marked_update:
  assumes "placed w e b" "e < 7" "w < 10" "placed w' e' b'" "e' < 7" "w' < 10"
    "e < 2 \<Longrightarrow> \<forall>j < 32768. bset c j \<longleftrightarrow> j = b mod 32768 \<or> bset (bm (bmap_no (b div 32768))) j"
    "2 \<le> e \<Longrightarrow> take 4 c \<noteq> [0, 0, 0, 0]"
  shows "marked (bm(bmap_no (b div 32768) := c)) e' b' \<longleftrightarrow> marked bm e' b' \<or> b' = b"
proof (cases "b div 32768 = b' div 32768")
  case True
  then have e: "e' = e" using placed_same_block [OF assms(1,4,2,5)] by simp
  have b: "b' = b \<longleftrightarrow> b' mod 32768 = b mod 32768" using True by (metis div_mult_mod_eq)
  show ?thesis
  proof (cases "e < 2")
    case small: True
    have "bset c (b' mod 32768) \<longleftrightarrow> b' mod 32768 = b mod 32768 \<or> bset (bm (bmap_no (b div 32768))) (b' mod 32768)"
      using assms(7) [OF small] by simp
    then show ?thesis using small e b True by (simp add: marked_def) blast
  next
    case large: False
    then have "32768 dvd b" "32768 dvd b'" using assms(1,4) e by (auto simp: placed_def Let_def)
    then show ?thesis using large e b assms(8) True by (simp add: marked_def)
  qed
next
  case False
  then show ?thesis
    using bmap_no_inj placed_block [OF assms(1-3)] placed_block [OF assms(4-6)] by (auto simp: marked_def)
qed

subsection \<open>Numbers of bitmap blocks\<close>

lemma unat_bmap_no: "q < 6400 \<Longrightarrow> unat (bmap_no q) = 10485766 + q"
  unfolding bmap_no_def by (subst unat_of_nat) (simp del: of_nat_add)

lemma bmap_no_add: "bmap_no q + of_nat j = bmap_no (q + j)"
  by (simp add: bmap_no_def)

lemma base_bmap_no:
  assumes "w < 10" "e < 7"
  shows "ucast (get_bmap_start_block_for_worker (int w) + ucast (of_nat (pstart e) :: u32)) = bmap_no (640 * w + pstart e)"
proof -
  have "ucast (of_nat (pstart e) :: u32) = (of_nat (pstart e) :: u64)"
    using part_bounds(1) [OF assms(2)] by (simp add: word_unat_eq_iff unat_ucast_up unat_of_nat)
  then have "get_bmap_start_block_for_worker (int w) + ucast (of_nat (pstart e) :: u32) = of_nat (10485766 + (640 * w + pstart e))"
    by (simp add: get_bmap_start_block_for_worker_def add_times_of_nat)
  then show ?thesis by (simp only: ucast_of_nat_down bmap_no_def)
qed

lemma new_block_no_nat:
  assumes "q + j < 6400" "n < 32768"
  shows "unat (new_block_no (bmap_no q) (of_nat j) (int n)) = 32768 * (q + j) + n"
proof -
  have u: "unat (ucast (bmap_no q) :: u64) = 10485766 + q" using assms(1) by (simp add: unat_ucast_up unat_bmap_no)
  have "(ucast (bmap_no q) :: u64) = of_nat (10485766 + q)"
    by (subst word_unat_eq_iff, subst u, subst unat_of_nat) (use assms(1) in \<open>simp del: of_nat_add\<close>)
  then have "(ucast (bmap_no q) :: u64) - 10485766 = of_nat q" by simp
  moreover have "(ucast (of_nat j :: u32) :: u64) = of_nat j"
    using assms(1) by (simp add: word_unat_eq_iff unat_ucast_up unat_of_nat)
  ultimately have "new_block_no (bmap_no q) (of_nat j) (int n) = of_nat (32768 * (q + j) + n)"
    by (simp add: new_block_no_def BPB_def BSIZE_w_def algebra_simps)
  moreover have "32768 * (q + j) + n < 2 ^ 64" using assms by simp
  ultimately show ?thesis by (simp del: of_nat_add of_nat_mult add: unat_of_nat)
qed

subsection \<open>What the searches find\<close>

definition wk_ok :: "nat \<Rightarrow> FsImpl \<Rightarrow> bool" where
  "wk_ok w fs \<longleftrightarrow> idx fs = int w \<and> w < 10 \<and> (\<forall>b. blk_ok (bmapBlocks fs b)) \<and>
     -1 \<le> nextBitNo fs 1 \<and> nextBitNo fs 1 < BPB_i"

definition same_env :: "FsImpl \<Rightarrow> FsImpl \<Rightarrow> bool" where
  "same_env fs fs' \<longleftrightarrow> idx fs' = idx fs \<and> iMapBlocks fs' = iMapBlocks fs \<and> bmapInMem fs' = bmapInMem fs \<and>
     immutableBitmaps fs' = immutableBitmaps fs"

text \<open>A successful search marks one free extent and nothing else; any other marks nothing.\<close>

definition marks :: "nat \<Rightarrow> nat \<Rightarrow> nat \<Rightarrow> (u32 \<Rightarrow> bytes) \<Rightarrow> (u32 \<Rightarrow> bytes) \<Rightarrow> bool" where
  "marks w e b bm bm' \<longleftrightarrow> placed w e b \<and> \<not> marked bm e b \<and>
     (\<forall>w' e' b'. placed w' e' b' \<and> w' < 10 \<and> e' < 7 \<longrightarrow> (marked bm' e' b' \<longleftrightarrow> marked bm e' b' \<or> b' = b))"

definition search_ok :: "nat \<Rightarrow> nat \<Rightarrow> FsImpl \<Rightarrow> search_result \<Rightarrow> FsImpl \<Rightarrow> bool" where
  "search_ok w e fs r fs' \<longleftrightarrow> wk_ok w fs' \<and> same_env fs fs' \<and>
     (case r of
        Found i n \<Rightarrow> marks w e (unat (new_block_no (bmap_no (640 * w + pstart e)) i n)) (bmapBlocks fs) (bmapBlocks fs')
      | _ \<Rightarrow> bmapBlocks fs' = bmapBlocks fs)"

lemma search_ok_trans:
  assumes "wk_ok w fs1" "same_env fs fs1" "bmapBlocks fs1 = bmapBlocks fs" "search_ok w e fs1 r fs'"
  shows "search_ok w e fs r fs'"
  using assms by (auto simp: search_ok_def same_env_def split: search_result.splits)

text \<open>A free place in bitmap block \<open>j\<close> of the part, marked by new content of that block.\<close>

lemma search_ok_found:
  assumes "wk_ok w fs" "e < 7" "j < plen e" "n < 32768" "e = 1 \<Longrightarrow> 2048 dvd n" "2 \<le> e \<Longrightarrow> n = 0 \<and> stride e dvd j"
    "blk_ok c" "q = 640 * w + pstart e + j"
    "e < 2 \<Longrightarrow> \<not> bset (bmapBlocks fs (bmap_no q)) n"
    "e < 2 \<Longrightarrow> \<forall>i < 32768. bset c i \<longleftrightarrow> i = n \<or> bset (bmapBlocks fs (bmap_no q)) i"
    "2 \<le> e \<Longrightarrow> take 4 (bmapBlocks fs (bmap_no q)) = [0, 0, 0, 0]" "2 \<le> e \<Longrightarrow> take 4 c \<noteq> [0, 0, 0, 0]"
    "fs' = put_bmap (bmap_no q) c fs1" "wk_ok w fs1" "same_env fs fs1" "bmapBlocks fs1 = bmapBlocks fs"
  shows "search_ok w e fs (Found (of_nat j) (int n)) fs'"
proof -
  have w: "w < 10" using assms(1) by (simp add: wk_ok_def)
  have q: "q < 6400" using part_bounds(1) [OF assms(2)] assms(3,8) w by linarith
  define b where "b = 32768 * q + n"
  have b: "b div 32768 = q" "b mod 32768 = n" using assms(4) by (auto simp: b_def)
  have dvd: "e = 1 \<Longrightarrow> 2048 dvd b" "2 \<le> e \<Longrightarrow> 32768 dvd b"
    using assms(5,6) by (auto simp: b_def intro: dvd_add dvd_mult2)
  have pl: "placed w e b" unfolding placed_def Let_def b(1) using assms(3,6,8) dvd by auto
  have no: "unat (new_block_no (bmap_no (640 * w + pstart e)) (of_nat j) (int n)) = b"
    using new_block_no_nat [of "640 * w + pstart e" j n] q assms(4,8) by (simp add: b_def)
  have "marks w e b (bmapBlocks fs) ((bmapBlocks fs)(bmap_no q := c))"
    unfolding marks_def
  proof (intro conjI allI impI)
    show "\<not> marked (bmapBlocks fs) e b" using assms(9,11) b by (auto simp: marked_def)
    fix w' e' b' assume p: "placed w' e' b' \<and> w' < 10 \<and> e' < 7"
    show "marked ((bmapBlocks fs)(bmap_no q := c)) e' b' \<longleftrightarrow> marked (bmapBlocks fs) e' b' \<or> b' = b"
      unfolding b(1) [symmetric]
      by (rule marked_update [OF pl assms(2) w, of w' e' b']) (use p assms(10,12) b in simp_all)
  qed (rule pl)
  then show ?thesis
    using assms(7,13-16) no by (simp add: search_ok_def put_bmap_def wk_ok_def same_env_def)
qed

lemma try_bit_cases:
  assumes "wk_ok w fs"
  obtains (found) n c fs1 where "try_bit bno fs = Inr (int n, put_bmap bno c fs1)" "n < 32768" "\<not> bset (bmapBlocks fs bno) n"
      "blk_ok c" "\<forall>i < 32768. bset c i \<longleftrightarrow> i = n \<or> bset (bmapBlocks fs bno) i"
      "wk_ok w fs1" "same_env fs fs1" "bmapBlocks fs1 = bmapBlocks fs"
    | (full) fs1 where "try_bit bno fs = Inr (-1, fs1)" "wk_ok w fs1" "same_env fs fs1" "bmapBlocks fs1 = bmapBlocks fs"
      "nextBitNo fs1 1 = -1" "\<forall>k < 32768. nextBitNo fs 1 < int k \<longrightarrow> bset (bmapBlocks fs bno) k"
proof -
  have blk: "blk_ok (bmapBlocks fs bno)" and h: "-1 \<le> nextBitNo fs 1" "nextBitNo fs 1 < BPB_i"
    using assms by (auto simp: wk_ok_def)
  from blk h show thesis
  proof (cases rule: find_in_block)
    case f: (found n)
    obtain v c where c: "block_set_bit (of_nat n) (bmapBlocks fs bno) = Some (v, c)" "blk_ok c"
      "\<forall>j < 32768. bset c j \<longleftrightarrow> j = n \<or> bset (bmapBlocks fs bno) j" using set_in_block [OF blk f(2)] by blast
    let ?fs = "fs\<lparr>nextBitNo := (nextBitNo fs)(1 := int n)\<rparr>"
    have "try_bit bno fs = Inr (int n, put_bmap bno c ?fs)" using f(1) c(1) by (simp add: try_bit_def)
    moreover have "wk_ok w ?fs" "same_env fs ?fs" "bmapBlocks ?fs = bmapBlocks fs"
      using assms f(2) by (simp_all add: wk_ok_def same_env_def BPB_i_def)
    ultimately show thesis using f(2,4) c(2,3) by (intro that(1) [of n c ?fs])
  next
    case f: full
    let ?fs = "fs\<lparr>nextBitNo := (nextBitNo fs)(1 := -1)\<rparr>"
    have "try_bit bno fs = Inr (-1, ?fs)" using f(1) by (simp add: try_bit_def)
    moreover have "wk_ok w ?fs" "same_env fs ?fs" "bmapBlocks ?fs = bmapBlocks fs" "nextBitNo ?fs 1 = -1"
      using assms by (simp_all add: wk_ok_def same_env_def BPB_i_def)
    ultimately show thesis using f(2) by (intro that(2) [of ?fs])
  qed
qed

lemma mod_word_nat:
  assumes "0 < m" "m < 2 ^ 32"
  obtains j where "(k :: u32) mod of_nat m = of_nat j" "j < m"
proof -
  have "unat (k mod of_nat m) = unat k mod m" using assms by (simp add: unat_mod unat_of_nat)
  then have "k mod of_nat m = of_nat (unat k mod m)"
    using assms by (simp add: word_unat_eq_iff unat_of_nat) (metis mod_less mod_less_divisor order_less_trans)
  then show thesis using assms(1) by (intro that [of "unat k mod m"]) simp_all
qed

declare bit_loop.simps(2) [simp del] jump_loop.simps(2) [simp del] block_loop.simps(2) [simp del]

lemma bit_loop_ok:
  assumes "wk_ok w fs"
  shows "\<exists>r fs'. bit_loop (bmap_no (640 * w)) 6 m k fs = Inr (r, fs') \<and> search_ok w 0 fs r fs'"
  using assms
proof (induction m arbitrary: k fs)
  case 0
  then show ?case by (simp add: search_ok_def same_env_def)
next
  case (Suc m)
  obtain j where j: "k mod 6 = of_nat j" "j < 6" using mod_word_nat [of 6 k] by auto
  define fs1 where "fs1 = fs\<lparr>nextBlockIdx := (nextBlockIdx fs)(1 := of_nat j)\<rparr>"
  have fs1: "wk_ok w fs1" "same_env fs fs1" "bmapBlocks fs1 = bmapBlocks fs"
    using Suc.prems by (simp_all add: fs1_def wk_ok_def same_env_def)
  let ?bno = "bmap_no (640 * w + j)"
  note step = bit_loop.simps(2) [of "bmap_no (640 * w)" 6 m k fs, unfolded Let_def j(1) bmap_no_add, folded fs1_def]
  consider "isBlockBitmapImmutable ?bno fs1" | "\<not> isBlockBitmapImmutable ?bno fs1" "\<not> bmapInMem fs1 ?bno"
    | "\<not> isBlockBitmapImmutable ?bno fs1" "bmapInMem fs1 ?bno" by blast
  then show ?case
  proof cases
    case 1
    then show ?thesis using Suc.IH [OF fs1(1), of "k + 1"] search_ok_trans [OF fs1] by (auto simp: step)
  next
    case 2
    have "search_ok w 0 fs NeedIo (request_bmap ?bno fs1)"
      using fs1 by (simp add: search_ok_def request_bmap_def wk_ok_def same_env_def)
    with 2 show ?thesis by (simp add: step)
  next
    case 3
    have retry: "try_bit_retry 6 ?bno fs1 = try_bit ?bno fs1"
      by (cases "try_bit ?bno fs1") (auto simp: try_bit_retry_def)
    from fs1(1) show ?thesis
    proof (cases rule: try_bit_cases [where bno = ?bno])
      case (found n c fs2)
      have "search_ok w 0 fs1 (Found (of_nat j) (int n)) (put_bmap ?bno c fs2)"
        using found j(2)
        by (intro search_ok_found [OF fs1(1), where j = j and q = "640 * w + j" and c = c and ?fs1.0 = fs2]) (simp_all add: plen_def pstart_def)
      with search_ok_trans [OF fs1] found(1) 3 show ?thesis by (auto simp: step retry)
    next
      case (full fs2)
      have "same_env fs fs2" "bmapBlocks fs2 = bmapBlocks fs" using full(3,4) fs1(2,3) by (auto simp: same_env_def)
      with Suc.IH [OF full(2), of "k + 1"] search_ok_trans [OF full(2)] full(1) 3 show ?thesis by (auto simp: step retry)
    qed
  qed
qed

lemma jump_find_cases:
  assumes "blk_ok a"
  obtains (found) n where "find_block_free_jump_bits_no_start_from a 0 BPB_i 2048 = Some (int n)" "n < 32768" "2048 dvd n"
      "\<not> bset a n"
    | (full) "find_block_free_jump_bits_no_start_from a 0 BPB_i 2048 = Some (-1)"
proof -
  have scan: "scan_ok a BPB_i" using assms by (simp add: scan_ok_def blk_ok_def BPB_i_def)
  have f: "find_block_free_jump_bits_no_start_from a 0 BPB_i 2048 = Some (first_slot a 2048 0 BPB_i)"
    using scan by (intro find_jump_bits_correct) (simp_all add: BPB_i_def)
  show thesis
  proof (cases "find (\<lambda>k. \<not> bset a (nat (k * 2048))) [0..BPB_i div 2048 - 1]")
    case None
    then show thesis using f full by (simp add: first_slot_def)
  next
    case (Some k)
    then have k: "0 \<le> k" "k \<le> 15" "\<not> bset a (nat (k * 2048))"
      using find_upto_props [where P = "\<lambda>k. \<not> bset a (nat (k * 2048))" and lo = 0 and hi = "BPB_i div 2048 - 1"]
      by (auto simp: BPB_i_def)
    have "first_slot a 2048 0 BPB_i = int (nat k * 2048)" using Some k(1) by (simp add: first_slot_def)
    moreover have "nat (k * 2048) = nat k * 2048" using k(1) by (simp add: nat_mult_distrib)
    ultimately show thesis using k f by (intro found [of "nat k * 2048"]) auto
  qed
qed

lemma jump_loop_ok:
  assumes "wk_ok w fs"
  shows "\<exists>r fs'. jump_loop 2048 (bmap_no (640 * w + 6)) 6 m k fs = Inr (r, fs') \<and> search_ok w 1 fs r fs'"
  using assms
proof (induction m arbitrary: k fs)
  case 0
  then show ?case by (simp add: search_ok_def same_env_def)
next
  case (Suc m)
  obtain j where j: "k mod 6 = of_nat j" "j < 6" using mod_word_nat [of 6 k] by auto
  define fs1 where "fs1 = fs\<lparr>nextBlockIdx := (nextBlockIdx fs)(2048 := of_nat j)\<rparr>"
  have fs1: "wk_ok w fs1" "same_env fs fs1" "bmapBlocks fs1 = bmapBlocks fs"
    using Suc.prems by (simp_all add: fs1_def wk_ok_def same_env_def)
  let ?bno = "bmap_no (640 * w + 6 + j)"
  note step = jump_loop.simps(2) [of 2048 "bmap_no (640 * w + 6)" 6 m k fs, unfolded Let_def j(1) bmap_no_add, folded fs1_def]
  consider "isBlockBitmapImmutable ?bno fs1" | "\<not> isBlockBitmapImmutable ?bno fs1" "\<not> bmapInMem fs1 ?bno"
    | "\<not> isBlockBitmapImmutable ?bno fs1" "bmapInMem fs1 ?bno" by blast
  then show ?case
  proof cases
    case 1
    then show ?thesis using Suc.IH [OF fs1(1), of "k + 1"] search_ok_trans [OF fs1] by (auto simp: step)
  next
    case 2
    have "search_ok w 1 fs NeedIo (request_bmap ?bno fs1)"
      using fs1 by (simp add: search_ok_def request_bmap_def wk_ok_def same_env_def)
    with 2 show ?thesis by (simp add: step)
  next
    case 3
    have blk: "blk_ok (bmapBlocks fs1 ?bno)" using fs1(1) by (simp add: wk_ok_def)
    then show ?thesis
    proof (cases rule: jump_find_cases)
      case (found n)
      obtain v c where c: "block_set_bit (of_nat n) (bmapBlocks fs1 ?bno) = Some (v, c)" "blk_ok c"
        "\<forall>i < 32768. bset c i \<longleftrightarrow> i = n \<or> bset (bmapBlocks fs1 ?bno) i" using set_in_block [OF blk found(2)] by blast
      have "search_ok w 1 fs1 (Found (of_nat j) (int n)) (put_bmap ?bno c fs1)"
        using found c j(2) fs1(1)
        by (intro search_ok_found [OF fs1(1), where j = j and q = "640 * w + 6 + j" and c = c and ?fs1.0 = fs1])
           (simp_all add: plen_def pstart_def same_env_def)
      with search_ok_trans [OF fs1] found(1) c(1) 3 show ?thesis by (auto simp: step)
    next
      case full
      with Suc.IH [OF fs1(1), of "k + 1"] search_ok_trans [OF fs1] 3 show ?thesis by (auto simp: step)
    qed
  qed
qed

lemma block_loop_ok:
  assumes "wk_ok w fs" "2 \<le> e" "e < 7" "\<forall>i \<in> set is. \<exists>j. i = of_nat j \<and> j < plen e \<and> stride e dvd j"
  shows "\<exists>r fs'. block_loop (bmap_no (640 * w + pstart e)) is fs = Inr (r, fs') \<and> search_ok w e fs r fs'"
  using assms
proof (induction "is")
  case Nil
  then show ?case by (simp add: search_ok_def same_env_def)
next
  case (Cons i "is")
  then obtain j where j: "i = of_nat j" "j < plen e" "stride e dvd j" by auto
  let ?bno = "bmap_no (640 * w + pstart e + j)"
  note step = block_loop.simps(2) [of "bmap_no (640 * w + pstart e)" i "is" fs, unfolded Let_def j(1) bmap_no_add]
  have len: "\<not> length (bmapBlocks fs ?bno) < 4" using Cons.prems(1) by (simp add: wk_ok_def blk_ok_def)
  have IH: "\<exists>r fs'. block_loop (bmap_no (640 * w + pstart e)) is fs = Inr (r, fs') \<and> search_ok w e fs r fs'"
    using Cons.prems by (intro Cons.IH) auto
  consider "isBlockBitmapImmutable ?bno fs" | "\<not> isBlockBitmapImmutable ?bno fs" "\<not> bmapInMem fs ?bno"
    | "\<not> isBlockBitmapImmutable ?bno fs" "bmapInMem fs ?bno" "take 4 (bmapBlocks fs ?bno) = [0, 0, 0, 0]"
    | "\<not> isBlockBitmapImmutable ?bno fs" "bmapInMem fs ?bno" "take 4 (bmapBlocks fs ?bno) \<noteq> [0, 0, 0, 0]" by blast
  then show ?case
  proof cases
    case 2
    have "search_ok w e fs NeedIo (request_bmap ?bno fs)"
      using Cons.prems(1) by (simp add: search_ok_def request_bmap_def wk_ok_def same_env_def)
    with 2 show ?thesis by (simp add: j(1) step)
  next
    case 3
    have "replicate 4 (1 :: u8) \<noteq> [0, 0, 0, 0]" by (simp add: eval_nat_numeral)
    then have "search_ok w e fs (Found (of_nat j) (int 0)) (put_bmap ?bno (replicate 4096 1) fs)"
      using Cons.prems(1-3) j 3(3)
      by (intro search_ok_found [where j = j and q = "640 * w + pstart e + j" and c = "replicate 4096 1" and ?fs1.0 = fs])
         (simp_all add: same_env_def blk_ok_def)
    with 3 len show ?thesis by (auto simp: j(1) step)
  qed (use IH len in \<open>simp_all add: j(1) step\<close>)
qed

lemma block_idxs_ok:
  assumes "2 \<le> e" "e < 7" "i \<in> set (block_idxs (of_nat (plen e)) (of_nat (stride e)))"
  shows "\<exists>j. i = of_nat j \<and> j < plen e \<and> stride e dvd j"
proof -
  have small: "plen e < 2 ^ 32" "stride e < 2 ^ 32" "stride e dvd plen e" "0 < stride e"
    using part_bounds(1,5,6) [OF assms(2)] less_7_cases [OF assms(2)] by (auto simp: stride_def)
  then obtain m where m: "plen e = stride e * m" by (auto elim: dvdE)
  have "(plen e + stride e - 1) div stride e = m" using small(4) by (simp add: m div_nat_eqI)
  then obtain k where k: "i = of_nat k * of_nat (stride e)" "k < m"
    using assms(3) small(1,2) by (auto simp: block_idxs_def unat_of_nat)
  then show ?thesis using small(4) by (intro exI [of _ "stride e * k"]) (simp add: m mult.commute)
qed

lemma bmap_search_ok:
  assumes "wk_ok w fs" "e < 7"
  shows "\<exists>r fs'. bmap_search (of_nat (units e)) (bmap_no (640 * w + pstart e)) (of_nat (plen e)) fs = Inr (r, fs') \<and>
    search_ok w e fs r fs'"
proof -
  consider "e = 0" | "e = 1" | "2 \<le> e" by linarith
  then show ?thesis
  proof cases
    case 1
    then show ?thesis using bit_loop_ok [OF assms(1)] by (simp add: bmap_search_def units_def plen_def pstart_def)
  next
    case 2
    then show ?thesis using jump_loop_ok [OF assms(1)] by (simp add: bmap_search_def units_def plen_def pstart_def)
  next
    case 3
    have "(of_nat (units e) :: u32) \<noteq> 1 \<and> \<not> (of_nat (units e) :: u32) < 32768 \<and>
        (of_nat (units e) :: u32) div 32768 = of_nat (stride e)"
      using less_7_cases [OF assms(2)] 3 by (elim disjE; simp add: units_def stride_def)
    then show ?thesis using block_loop_ok [OF assms(1) 3 assms(2)] block_idxs_ok [OF 3 assms(2)] by (simp add: bmap_search_def)
  qed
qed

end
