(* ===== verification/Ufs_AllocSys.thy ===== *)
theory Ufs_AllocSys
  imports Ufs_AllocBlocks
begin

text \<open>
  The allocators of all workers together with the files. A file may be extended by different
  workers, one after the other, as its inode moves between them; each worker takes new extents
  from its own bitmap blocks. Deallocations reach the worker that owns the bitmap block and
  clear the bit of the extent's first block, as \<open>FileMng::updateBlockBitmaps\<close> does.
\<close>

subsection \<open>Steps\<close>

record sys =
  workers :: "nat \<Rightarrow> FsImpl"
  files :: "nat \<Rightarrow> InMemInode option"

text \<open>Clearing the bit of a block in the bitmap in memory; \<open>getLockedDirtyBitmap\<close> throws when it
  is not there.\<close>

definition clear_dirty :: "u32 \<Rightarrow> FsImpl \<Rightarrow> FsImpl res" where
  "clear_dirty lba fs =
     (let bno = get_bmap_block_for_lba lba
      in if \<not> bmapInMem fs bno
         then Inl (Throw ''Cannot retrieve dirty bitmap, either not in memory or not safe to write'')
         else res_bind (of_opt (block_clear_bit (ucast (ucast lba mod BPB)) (bmapBlocks fs bno))) (\<lambda>(_, blk).
                Inr (put_bmap bno blk fs)))"

definition free_block :: "u32 \<Rightarrow> sys \<Rightarrow> sys res" where
  "free_block lba s =
     (let w = nat (getWidForBitmapBlock (ucast (get_bmap_block_for_lba lba)))
      in res_bind (clear_dirty lba (workers s w)) (\<lambda>fs. Inr (s\<lparr>workers := (workers s)(w := fs)\<rparr>)))"

definition upd :: "nat \<Rightarrow> InMemInode \<Rightarrow> nat \<Rightarrow> FsImpl \<Rightarrow> sys \<Rightarrow> sys" where
  "upd f mi w fs s = s\<lparr>files := (files s)(f := Some mi), workers := (workers s)(w := fs)\<rparr>"

definition fresh_inode :: "InMemInode \<Rightarrow> bool" where
  "fresh_inode mi \<longleftrightarrow> length (d_ext_array (inodeData mi)) = 7 \<and> d_block_count (inodeData mi) = 0 \<and>
     (\<forall>x \<in> set (d_ext_array (inodeData mi)). e_num_blocks x = 0)"

definition drop_extent :: "nat \<Rightarrow> InMemInode \<Rightarrow> InMemInode" where
  "drop_extent e mi = mi\<lparr>inodeData := (inodeData mi)\<lparr>d_ext_array :=
     (d_ext_array (inodeData mi))[e := (d_ext_array (inodeData mi) ! e)\<lparr>e_num_blocks := 0\<rparr>]\<rparr>\<rparr>"

text \<open>
  A file that is being deleted keeps its extents until the message with the deallocation has
  reached the owner of the bitmap block and its bit is cleared (\<open>release\<close>). Bitmap blocks arrive
  from the device, and are locked and unlocked around checkpoints, at any time.
\<close>

inductive sys_step :: "sys \<Rightarrow> sys \<Rightarrow> bool" where
  create: "files s f = None \<Longrightarrow> fresh_inode mi \<Longrightarrow> sys_step s (s\<lparr>files := (files s)(f := Some mi)\<rparr>)"
| alloc: "w < 10 \<Longrightarrow> files s f = Some mi \<Longrightarrow> allocateDataBlocks n mi (workers s w) = Some (Inr (r, mi', fs')) \<Longrightarrow>
    sys_step s (upd f mi' w fs' s)"
| arrive: "sys_step s (s\<lparr>workers := (workers s)(w := (workers s w)\<lparr>bmapInMem := (bmapInMem (workers s w))(b := True)\<rparr>)\<rparr>)"
| lock: "sys_step s (s\<lparr>workers := (workers s)(w := (workers s w)\<lparr>immutableBitmaps := bs\<rparr>)\<rparr>)"
| release: "files s f = Some mi \<Longrightarrow> e < 7 \<Longrightarrow> e_num_blocks (d_ext_array (inodeData mi) ! e) \<noteq> 0 \<Longrightarrow>
    free_block (ucast (e_block_no (d_ext_array (inodeData mi) ! e))) s = Inr s' \<Longrightarrow>
    sys_step s (s'\<lparr>files := (files s')(f := Some (drop_extent e mi))\<rparr>)"
| delete: "sys_step s (s\<lparr>files := (files s)(f := None)\<rparr>)"

text \<open>Before any file exists; what the bitmaps mark as used at the start does not matter.\<close>

definition sys_init :: "sys \<Rightarrow> bool" where
  "sys_init s \<longleftrightarrow> (\<forall>w < 10. wk_ok w (workers s w)) \<and> files s = (\<lambda>_. None)"

inductive sys_reach :: "sys \<Rightarrow> bool" where
  init: "sys_init s \<Longrightarrow> sys_reach s"
| step: "sys_reach s \<Longrightarrow> sys_step s s' \<Longrightarrow> sys_reach s'"

subsection \<open>Invariant\<close>

abbreviation ext :: "InMemInode \<Rightarrow> nat \<Rightarrow> cfs_extent" where
  "ext mi e \<equiv> d_ext_array (inodeData mi) ! e"

definition holds :: "InMemInode \<Rightarrow> nat \<Rightarrow> nat \<Rightarrow> bool" where
  "holds mi e b \<longleftrightarrow> e < 7 \<and> e_num_blocks (ext mi e) \<noteq> 0 \<and> b = unat (e_block_no (ext mi e))"

definition marked_by :: "sys \<Rightarrow> nat \<Rightarrow> nat \<Rightarrow> bool" where
  "marked_by s e b \<longleftrightarrow> owner b < 10 \<and> placed (owner b) e b \<and> marked (bmapBlocks (workers s (owner b))) e b"

definition file_ok :: "sys \<Rightarrow> InMemInode \<Rightarrow> bool" where
  "file_ok s mi \<longleftrightarrow> length (d_ext_array (inodeData mi)) = 7 \<and>
     (\<forall>e b. holds mi e b \<longrightarrow> unat (e_num_blocks (ext mi e)) \<le> units e \<and> marked_by s e b)"

definition sys_ok :: "sys \<Rightarrow> bool" where
  "sys_ok s \<longleftrightarrow> (\<forall>w < 10. wk_ok w (workers s w)) \<and> (\<forall>f mi. files s f = Some mi \<longrightarrow> file_ok s mi) \<and>
     (\<forall>f f' mi mi' e e' b. files s f = Some mi \<and> files s f' = Some mi' \<and> holds mi e b \<and> holds mi' e' b \<longrightarrow> f = f' \<and> e = e')"

lemma sys_okD:
  assumes "sys_ok s"
  shows "w < 10 \<Longrightarrow> wk_ok w (workers s w)" "files s f = Some mi \<Longrightarrow> file_ok s mi"
    "files s f = Some mi \<Longrightarrow> files s f' = Some mi' \<Longrightarrow> holds mi e b \<Longrightarrow> holds mi' e' b \<Longrightarrow> f = f' \<and> e = e'"
  using assms unfolding sys_ok_def by blast+

lemma sys_okI:
  assumes "\<And>w. w < 10 \<Longrightarrow> wk_ok w (workers s w)" "\<And>f mi. files s f = Some mi \<Longrightarrow> file_ok s mi"
    "\<And>f f' mi mi' e e' b. files s f = Some mi \<Longrightarrow> files s f' = Some mi' \<Longrightarrow> holds mi e b \<Longrightarrow> holds mi' e' b \<Longrightarrow> f = f' \<and> e = e'"
  shows "sys_ok s"
  using assms unfolding sys_ok_def by blast

text \<open>Replacing a file by one with the same extents and a worker's state by one with the same
  bitmaps.\<close>

lemma sys_ok_same:
  assumes "sys_ok s" "files s f = Some mi" "d_ext_array (inodeData mi') = d_ext_array (inodeData mi)"
    "w < 10" "wk_ok w fs'" "bmapBlocks fs' = bmapBlocks (workers s w)"
  shows "sys_ok (upd f mi' w fs' s)"
proof -
  have h: "holds mi' e b = holds mi e b" for e b using assms(3) by (simp add: holds_def)
  have m: "marked_by (upd f mi' w fs' s) e b = marked_by s e b" for e b using assms(6) by (simp add: marked_by_def upd_def)
  have "file_ok (upd f mi' w fs' s) mi'" using sys_okD(2) [OF assms(1,2)] assms(3) by (simp add: file_ok_def h m)
  moreover have "file_ok (upd f mi' w fs' s) mi''" if "files s f' = Some mi''" for f' mi''
    using sys_okD(2) [OF assms(1) that] by (simp add: file_ok_def m)
  ultimately show ?thesis
    using assms(1,2,5) h unfolding sys_ok_def upd_def by (auto split: if_splits) (blast | metis)+
qed

lemma holds_update:
  assumes "length (d_ext_array (inodeData mi)) = 7" "d_ext_array (inodeData mi') = (d_ext_array (inodeData mi))[e := x]" "e < 7"
  shows "holds mi' e' b \<longleftrightarrow> (if e' = e then e_num_blocks x \<noteq> 0 \<and> b = unat (e_block_no x) else holds mi e' b)"
  using assms by (auto simp: holds_def)

text \<open>A longer extent, at the same place.\<close>

lemma sys_ok_grow:
  assumes "sys_ok s" "files s f = Some mi" "e < 7" "d_ext_array (inodeData mi') = (d_ext_array (inodeData mi))[e := x]"
    "e_num_blocks (ext mi e) \<noteq> 0" "e_block_no x = e_block_no (ext mi e)" "unat (e_num_blocks x) \<le> units e" "w < 10"
  shows "sys_ok (upd f mi' w (workers s w) s)"
proof -
  let ?s = "upd f mi' w (workers s w) s"
  have len: "length (d_ext_array (inodeData mi)) = 7" using sys_okD(2) [OF assms(1,2)] by (simp add: file_ok_def)
  have imp: "holds mi e' b" if "holds mi' e' b" for e' b
    using that holds_update [OF len assms(4,3), of e' b] assms(3,5,6) by (cases "e' = e") (simp_all add: holds_def)
  have m: "marked_by ?s e' b = marked_by s e' b" for e' b by (simp add: marked_by_def upd_def)
  have "unat (e_num_blocks (ext mi' e')) \<le> units e' \<and> marked_by ?s e' b" if h: "holds mi' e' b" for e' b
    using sys_okD(2) [OF assms(1,2)] imp [OF h] assms(3,4,7) len by (cases "e' = e") (simp_all add: file_ok_def m)
  then have f1: "file_ok ?s mi'" using len assms(4) by (simp add: file_ok_def)
  have f2: "file_ok ?s mi''" if "files s f' = Some mi''" for f' mi''
    using sys_okD(2) [OF assms(1) that] by (simp add: file_ok_def m)
  have wk: "wk_ok v (workers ?s v)" if "v < 10" for v using sys_okD(1) [OF assms(1) that] by (simp add: upd_def)
  have un2: "g = g' \<and> e1 = e2"
    if "files ?s g = Some m1" "files ?s g' = Some m2" "holds m1 e1 b" "holds m2 e2 b" for g g' m1 m2 e1 e2 b
  proof -
    have "\<exists>m. files s h = Some m \<and> holds m e'' b" if "files ?s h = Some m'" "holds m' e'' b" for h m' e''
      using that imp assms(2) by (auto simp: upd_def split: if_splits)
    from this [OF that(1,3)] this [OF that(2,4)] sys_okD(3) [OF assms(1)] show ?thesis by blast
  qed
  have fs: "file_ok ?s m" if "files ?s g = Some m" for g m
    using that f1 f2 [of g m] by (cases "g = f") (simp_all add: upd_def)
  show ?thesis by (rule sys_okI; erule wk fs un2; assumption)
qed

text \<open>A new extent, at a place that was marked for it.\<close>

lemma sys_ok_new:
  assumes "sys_ok s" "files s f = Some mi" "e < 7" "d_ext_array (inodeData mi') = (d_ext_array (inodeData mi))[e := x]"
    "e_num_blocks x = 1" "w < 10" "wk_ok w fs'" "marks w e (unat (e_block_no x)) (bmapBlocks (workers s w)) (bmapBlocks fs')"
  shows "sys_ok (upd f mi' w fs' s)"
proof -
  let ?s = "upd f mi' w fs' s" and ?b = "unat (e_block_no x)"
  note hu = holds_update [OF _ assms(4,3)]
  have len: "length (d_ext_array (inodeData mi)) = 7" using sys_okD(2) [OF assms(1,2)] by (simp add: file_ok_def)
  have pl: "placed w e ?b" and un: "\<not> marked (bmapBlocks (workers s w)) e ?b" using assms(8) by (auto simp: marks_def)
  have own: "owner ?b = w" by (rule placed_owner [OF pl assms(3)])
  have keep: "marked_by ?s e' b" if "marked_by s e' b" "e' < 7" for e' b
    using that assms(8) by (cases "owner b = w") (auto simp: marked_by_def marks_def upd_def)
  have new: "marked_by ?s e ?b" using own pl assms(3,6,8) by (auto simp: marked_by_def marks_def upd_def)
  have fresh: "\<not> holds m e' ?b" if "files s g = Some m" for g m e'
  proof
    assume h: "holds m e' ?b"
    then have "marked_by s e' ?b" "e' < 7" using sys_okD(2) [OF assms(1) that] by (auto simp: file_ok_def holds_def)
    moreover from this have "e' = e" using placed_same_block [OF pl, of w e' ?b] assms(3) own by (simp add: marked_by_def)
    ultimately show False using un own by (simp add: marked_by_def)
  qed
  have "unat (e_num_blocks (ext mi' e')) \<le> units e' \<and> marked_by ?s e' b" if h: "holds mi' e' b" for e' b
  proof (cases "e' = e")
    case True
    then have "b = ?b" "ext mi' e' = x" using h hu [OF len, of e b] assms(3,4) len by simp_all
    then show ?thesis using True new assms(5) part_bounds(3) [OF assms(3)] by simp
  next
    case False
    then have "holds mi e' b" "ext mi' e' = ext mi e'" using h hu [OF len, of e' b] assms(4) by simp_all
    then show ?thesis using sys_okD(2) [OF assms(1,2)] keep [of e' b] by (simp add: file_ok_def holds_def)
  qed
  then have f1: "file_ok ?s mi'" using len assms(4) by (simp add: file_ok_def)
  have f2: "file_ok ?s mi''" if "files s g = Some mi''" for g mi''
    using sys_okD(2) [OF assms(1) that] keep unfolding file_ok_def holds_def by blast
  have wk: "wk_ok v (workers ?s v)" if "v < 10" for v
    using sys_okD(1) [OF assms(1) that] assms(7) by (simp add: upd_def)
  have un2: "g = g' \<and> e1 = e2"
    if "files ?s g = Some m1" "files ?s g' = Some m2" "holds m1 e1 b" "holds m2 e2 b" for g g' m1 m2 e1 e2 b
  proof -
    have cs: "h = f \<and> e'' = e \<and> b = ?b \<or> b \<noteq> ?b \<and> (\<exists>m. files s h = Some m \<and> holds m e'' b)"
      if "files ?s h = Some m'" "holds m' e'' b" for h m' e''
    proof (cases "h = f \<and> e'' = e")
      case True
      then show ?thesis using that hu [OF len, of e b] by (simp add: upd_def)
    next
      case False
      then have "\<exists>m. files s h = Some m \<and> holds m e'' b"
        using that hu [OF len, of e'' b] assms(2) by (auto simp: upd_def split: if_splits)
      then show ?thesis using fresh by blast
    qed
    from cs [OF that(1,3)] cs [OF that(2,4)] sys_okD(3) [OF assms(1)] show ?thesis by blast
  qed
  have fs: "file_ok ?s m" if "files ?s g = Some m" for g m
    using that f1 f2 [of g m] by (cases "g = f") (simp_all add: upd_def)
  show ?thesis by (rule sys_okI; erule wk fs un2; assumption)
qed

subsection \<open>Rounds of an allocation\<close>

definition at_ext :: "u32 \<Rightarrow> nat \<Rightarrow> bool" where
  "at_ext cur e \<longleftrightarrow> e < 7 \<and> extent_base e \<le> unat cur \<and> unat cur < extent_base e + units e"

lemma current_position:
  obtains (behind) "getCurrentExtentArrIdx cur = (-1, 0, 1048576)" "extent_base 7 \<le> unat cur"
    | (at) e inside where "at_ext cur e" "getCurrentExtentArrIdx cur = (int e, inside, of_nat (units e))"
proof (cases "extent_base 7 \<le> unat cur")
  case True
  then show thesis
    by (intro behind) (simp_all add: extent_base_values current_extent_cases word_less_nat_alt)
next
  case False
  have "at_ext cur 0 \<or> at_ext cur 1 \<or> at_ext cur 2 \<or> at_ext cur 3 \<or> at_ext cur 4 \<or> at_ext cur 5 \<or> at_ext cur 6"
    using False unfolding at_ext_def extent_base_values units_def by simp linarith
  then obtain e where e: "at_ext cur e" by blast
  then have "\<exists>inside. getCurrentExtentArrIdx cur = (int e, inside, of_nat (units e))"
    using less_7_cases [of e]
    by (auto simp: at_ext_def extent_base_values extent_base_values(2) [unfolded One_nat_def] units_def
        current_extent_cases word_less_nat_alt)
  with at e show thesis by blast
qed

definition first_extent :: "u32 \<Rightarrow> nat \<Rightarrow> nat \<Rightarrow> u32 \<Rightarrow> int \<Rightarrow> cfs_extent \<Rightarrow> cfs_extent" where
  "first_extent cur w e i bitno x =
     x\<lparr>e_block_no := new_block_no (bmap_no (640 * w + pstart e)) i bitno, e_num_blocks := e_num_blocks x + 1,
       e_i_block_offset := cur\<rparr>"

definition more_blocks :: "u32 \<Rightarrow> u32 \<Rightarrow> nat \<Rightarrow> cfs_extent \<Rightarrow> u32" where
  "more_blocks numBlocks n e x = min (numBlocks - n) (of_nat (units e) - e_num_blocks x)"

lemma alloc_step_cases:
  assumes "wk_ok w fs" "length (d_ext_array (inodeData mi)) = 7"
  obtains (behind) "extent_base 7 \<le> unat cur" "alloc_step numBlocks (n, cur, mi, fs) = Inr (Inl (-1, mi, fs))"
    | (first) e r fs' where "at_ext cur e" "e_num_blocks (ext mi e) = 0" "search_ok w e fs r fs'"
        "bmap_search (of_nat (units e)) (bmap_no (640 * w + pstart e)) (of_nat (plen e)) fs = Inr (r, fs')"
        "alloc_step numBlocks (n, cur, mi, fs) = Inr (case r of
           Found i bitno \<Rightarrow> Inr (n + 1, cur + 1, set_extent (int e) (first_extent cur w e i bitno (ext mi e)) True mi, fs')
         | NeedIo \<Rightarrow> Inl (0, set_count cur mi, fs') | NoSpace \<Rightarrow> Inl (-1, mi, fs'))"
    | (more) e where "at_ext cur e" "e_num_blocks (ext mi e) \<noteq> 0"
        "alloc_step numBlocks (n, cur, mi, fs) =
           (let add = more_blocks numBlocks n e (ext mi e)
            in Inr (Inr (n + add, cur + add,
                 set_extent (int e) ((ext mi e)\<lparr>e_num_blocks := e_num_blocks (ext mi e) + add\<rparr>) False mi, fs)))"
proof -
  have w: "idx fs = int w" "w < 10" using assms(1) by (simp_all add: wk_ok_def)
  show thesis
  proof (cases rule: current_position [where cur = cur])
    case b: behind
    then show thesis by (intro behind) (simp_all add: alloc_step_def)
  next
    case a: (at e inside)
    then have e: "e < 7" by (simp add: at_ext_def)
    obtain r fs' where s: "bmap_search (of_nat (units e)) (bmap_no (640 * w + pstart e)) (of_nat (plen e)) fs = Inr (r, fs')"
      "search_ok w e fs r fs'" using bmap_search_ok [OF assms(1) e] by blast
    have "\<not> 7 \<le> e" using e by simp
    note facts = this alloc_step_def a(2) e w assms(2) part_table [OF e] units_table [OF e] base_bmap_no [OF w(2) e] Let_def
    show thesis
    proof (cases "e_num_blocks (ext mi e) = 0")
      case True
      then show thesis using s(1)
        by (intro first [OF a(1) True s(2,1)]) (simp add: facts first_extent_def split: search_result.split)
    next
      case False
      then show thesis by (intro more [OF a(1) False]) (simp add: facts more_blocks_def)
    qed
  qed
qed

subsection \<open>Allocations keep the invariant\<close>

lemma upd_upd [simp]: "upd f mi' w fs' (upd f mi w fs s) = upd f mi' w fs' s"
  by (simp add: upd_def)

lemma files_upd [simp]: "files (upd f mi w fs s) f = Some mi" "workers (upd f mi w fs s) w = fs"
  by (simp_all add: upd_def)

lemma set_extent_array [simp]: "d_ext_array (inodeData (set_extent (int e) x m mi)) = (d_ext_array (inodeData mi))[e := x]"
  by (simp add: set_extent_def)

lemma set_count_array [simp]: "d_ext_array (inodeData (set_count c mi)) = d_ext_array (inodeData mi)"
  by (simp add: set_count_def)

lemma more_blocks_nat:
  assumes "unat (e_num_blocks x) \<le> units e" "e < 7"
  shows "unat (more_blocks numBlocks n e x) = min (unat (numBlocks - n)) (units e - unat (e_num_blocks x))"
proof -
  have u: "unat (of_nat (units e) :: u32) = units e" using part_bounds(4) [OF assms(2)] by (simp add: unat_of_nat)
  have "unat (of_nat (units e) - e_num_blocks x) = units e - unat (e_num_blocks x)"
    using assms(1) u by (simp add: unat_sub word_le_nat_alt)
  then show ?thesis unfolding more_blocks_def min_def by (simp add: word_le_nat_alt)
qed

lemma more_blocks_bound:
  assumes "unat (e_num_blocks x) \<le> units e" "e < 7"
  shows "unat (e_num_blocks x + more_blocks numBlocks n e x) = unat (e_num_blocks x) + unat (more_blocks numBlocks n e x)"
    "unat (e_num_blocks x + more_blocks numBlocks n e x) \<le> units e"
proof -
  note m = more_blocks_nat [OF assms, of numBlocks n]
  show s: "unat (e_num_blocks x + more_blocks numBlocks n e x) = unat (e_num_blocks x) + unat (more_blocks numBlocks n e x)"
    using part_bounds(4) [OF assms(2)] assms(1) m by (intro unat_add_lem [THEN iffD1]) simp
  show "unat (e_num_blocks x + more_blocks numBlocks n e x) \<le> units e" using s m assms(1) by simp
qed

lemma alloc_step_ok:
  assumes "sys_ok (upd f mi w fs s)" "w < 10"
  shows "case alloc_step numBlocks (n, cur, mi, fs) of
      Inl _ \<Rightarrow> False
    | Inr (Inl (r, mi', fs')) \<Rightarrow> sys_ok (upd f mi' w fs' s)
    | Inr (Inr (n', cur', mi', fs')) \<Rightarrow> sys_ok (upd f mi' w fs' s)"
proof -
  have wk: "wk_ok w fs" using sys_okD(1) [OF assms] by simp
  have fo: "file_ok (upd f mi w fs s) mi" by (rule sys_okD(2) [OF assms(1) files_upd(1)])
  then have len: "length (d_ext_array (inodeData mi)) = 7" by (simp add: file_ok_def)
  from wk len show ?thesis
  proof (cases rule: alloc_step_cases [where cur = cur and numBlocks = numBlocks and n = n])
    case behind
    then show ?thesis using assms(1) by simp
  next
    case (first e r fs')
    have e: "e < 7" using first(1) by (simp add: at_ext_def)
    have wk': "wk_ok w fs'" using first(3) by (simp add: search_ok_def)
    show ?thesis
    proof (cases r)
      case (Found i bitno)
      have "sys_ok (upd f (set_extent (int e) (first_extent cur w e i bitno (ext mi e)) True mi) w fs' s)"
        using sys_ok_new [OF assms(1) files_upd(1) e set_extent_array _ assms(2) wk', of "first_extent cur w e i bitno (ext mi e)" True]
          first(2,3) Found by (simp add: first_extent_def search_ok_def)
      then show ?thesis using first(5) Found by simp
    next
      case NeedIo
      then show ?thesis
        using first sys_ok_same [OF assms(1) files_upd(1) set_count_array assms(2) wk', of cur] by (simp add: search_ok_def)
    next
      case NoSpace
      then show ?thesis
        using first sys_ok_same [OF assms(1) files_upd(1) refl assms(2) wk'] by (simp add: search_ok_def)
    qed
  next
    case (more e)
    have e: "e < 7" using more(1) by (simp add: at_ext_def)
    have b: "unat (e_num_blocks (ext mi e)) \<le> units e" using fo more(2) e by (simp add: file_ok_def holds_def)
    show ?thesis
      using sys_ok_grow [OF assms(1) files_upd(1) e set_extent_array more(2) _ _ assms(2),
          of "(ext mi e)\<lparr>e_num_blocks := e_num_blocks (ext mi e) + more_blocks numBlocks n e (ext mi e)\<rparr>" False]
        more_blocks_bound(2) [OF b e] more(3) by (simp add: Let_def)
  qed
qed

text \<open>The invariant rule of the loop: rounds keep \<open>I\<close> or return with \<open>Q\<close>.\<close>

lemma alloc_loop_inv:
  assumes "alloc_loop numBlocks (n, cur, mi, fs) = Some r" "I n cur mi fs"
    and round: "\<And>n cur mi fs. I n cur mi fs \<Longrightarrow> n < numBlocks \<Longrightarrow>
      (case alloc_step numBlocks (n, cur, mi, fs) of
         Inl err \<Rightarrow> Q (Inl err) | Inr (Inl r) \<Rightarrow> Q (Inr r) | Inr (Inr (n', cur', mi', fs')) \<Rightarrow> I n' cur' mi' fs')"
    and exit: "\<And>n cur mi fs. I n cur mi fs \<Longrightarrow> \<not> n < numBlocks \<Longrightarrow>
      Q (Inr (uint (cur - d_block_count (inodeData mi)), set_count cur mi, fs))"
  shows "Q r"
proof -
  define P where "P nb st r \<longleftrightarrow> (nb = numBlocks \<longrightarrow> (case st of (n, cur, mi, fs) \<Rightarrow> I n cur mi fs \<longrightarrow> Q r))" for nb st r
  have "P numBlocks (n, cur, mi, fs) r" using _ assms(1)
  proof (rule alloc_loop.raw_induct [where P = P])
    fix rec nb st and r :: "(int \<times> InMemInode \<times> FsImpl) res"
    assume IH: "\<And>nb st r. rec nb st = Some r \<Longrightarrow> P nb st r"
      and body: "(case st of (n, cur, mi, fs) \<Rightarrow>
        if n < nb
        then (case alloc_step nb st of Inl err \<Rightarrow> Some (Inl err) | Inr (Inl r) \<Rightarrow> Some (Inr r) | Inr (Inr st') \<Rightarrow> rec nb st')
        else Some (Inr (uint (cur - d_block_count (inodeData mi)), set_count cur mi, fs))) = Some r"
    obtain n cur mi fs where st: "st = (n, cur, mi, fs)" by (cases st)
    have "Q r" if "nb = numBlocks" and i: "I n cur mi fs"
    proof (cases "n < numBlocks")
      case True
      show ?thesis
      proof (cases "alloc_step numBlocks (n, cur, mi, fs)")
        case (Inr x)
        with True body IH round [OF i True] st that(1) show ?thesis by (cases x) (auto simp: P_def)
      qed (use True body round [OF i True] st that(1) in auto)
    qed (use exit [OF i] body st that(1) in auto)
    then show "P nb st r" by (simp add: P_def st)
  qed
  then show ?thesis using assms(2) by (simp add: P_def)
qed

lemma alloc_loop_ok:
  assumes "alloc_loop numBlocks (n, cur, mi, fs) = Some r" "sys_ok (upd f mi w fs s)" "w < 10"
  shows "\<exists>v mi' fs'. r = Inr (v, mi', fs') \<and> sys_ok (upd f mi' w fs' s)"
proof (rule alloc_loop_inv [where I = "\<lambda>n cur mi fs. sys_ok (upd f mi w fs s)", OF assms(1,2)])
  fix n cur mi fs assume s: "sys_ok (upd f mi w fs s)"
  show "case alloc_step numBlocks (n, cur, mi, fs) of
      Inl err \<Rightarrow> \<exists>v mi' fs'. Inl err = Inr (v, mi', fs') \<and> sys_ok (upd f mi' w fs' s)
    | Inr (Inl r) \<Rightarrow> \<exists>v mi' fs'. Inr r = Inr (v, mi', fs') \<and> sys_ok (upd f mi' w fs' s)
    | Inr (Inr (n', cur', mi', fs')) \<Rightarrow> sys_ok (upd f mi' w fs' s)"
    using alloc_step_ok [OF s assms(3), of numBlocks n cur] by (auto split: sum.splits)
  show "\<exists>v mi' fs'. Inr (uint (cur - d_block_count (inodeData mi)), set_count cur mi, fs) = Inr (v, mi', fs') \<and>
      sys_ok (upd f mi' w fs' s)"
    using sys_ok_same [OF s files_upd(1) set_count_array assms(3)] sys_okD(1) [OF s assms(3)] by auto
qed

subsection \<open>Deallocations keep the invariant\<close>

lemma marked_clear:
  assumes "placed w e b" "e < 7" "w < 10" "placed w' e' b'" "e' < 7" "w' < 10" "b' \<noteq> b" "marked bm e' b'"
    "\<forall>j < 32768. bset c j \<longleftrightarrow> j \<noteq> b mod 32768 \<and> bset (bm (bmap_no (b div 32768))) j"
  shows "marked (bm(bmap_no (b div 32768) := c)) e' b'"
proof (cases "b div 32768 = b' div 32768")
  case True
  then have e: "e' = e" using placed_same_block [OF assms(1,4,2,5)] by simp
  have b: "b' mod 32768 \<noteq> b mod 32768" using True assms(7) by (metis div_mult_mod_eq)
  have "e < 2"
  proof (rule ccontr)
    assume "\<not> e < 2"
    then have "32768 dvd b" "32768 dvd b'" using assms(1,4) e by (auto simp: placed_def Let_def)
    with b show False by simp
  qed
  moreover have "bset c (b' mod 32768)" using assms(8,9) b e True calculation by (simp add: marked_def)
  ultimately show ?thesis using e True by (simp add: marked_def)
next
  case False
  then show ?thesis
    using assms(8) bmap_no_inj placed_block [OF assms(1-3)] placed_block [OF assms(4-6)] by (auto simp: marked_def)
qed

lemma lba_of_extent:
  assumes "unat (b :: u64) div 32768 < 6400"
  shows "get_bmap_block_for_lba (ucast b) = bmap_no (unat b div 32768)"
    "nat (getWidForBitmapBlock (ucast (get_bmap_block_for_lba (ucast b)))) = owner (unat b)"
    "ucast (ucast (ucast b :: u32) mod BPB) = (of_nat (unat b mod 32768) :: u32)"
proof -
  have lt: "unat b < 209715200" using assms by (simp add: div_less_iff_less_mult)
  then have u: "unat (ucast b :: u32) = unat b" by (simp add: unat_ucast_down)
  note bm = bmap_block_for_lba_nat [of "ucast b", unfolded u, OF lt]
  show "get_bmap_block_for_lba (ucast b) = bmap_no (unat b div 32768)"
    using bm(1) unat_bmap_no [OF assms] by (simp add: word_unat_eq_iff)
  show "nat (getWidForBitmapBlock (ucast (get_bmap_block_for_lba (ucast b)))) = owner (unat b)"
    using bitmap_block_nat [of "unat b div 32768"] assms by (simp add: bm(2) owner_def)
  show "ucast (ucast (ucast b :: u32) mod BPB) = (of_nat (unat b mod 32768) :: u32)"
    using lt by (simp add: word_unat_eq_iff unat_ucast_down unat_ucast_up unat_mod u BPB_def BSIZE_w_def unat_of_nat)
qed

text \<open>A deallocation clears the bit of the extent in the bitmaps of the worker that owns it.\<close>

lemma free_block_result:
  fixes b :: u64
  assumes "placed w e (unat b)" "e < 7" "w < 10" "wk_ok w (workers s w)" "free_block (ucast b) s = Inr s'"
  obtains c where "s' = s\<lparr>workers := (workers s)(w := put_bmap (bmap_no (unat b div 32768)) c (workers s w))\<rparr>" "blk_ok c"
    "\<forall>j < 32768. bset c j \<longleftrightarrow> j \<noteq> unat b mod 32768 \<and> bset (bmapBlocks (workers s w) (bmap_no (unat b div 32768))) j"
proof -
  let ?q = "bmap_no (unat b div 32768)"
  have own: "owner (unat b) = w" by (rule placed_owner [OF assms(1,2)])
  note lba0 = lba_of_extent [OF placed_block [OF assms(1-3)]]
  note lba = lba0(1,3) lba0(2) [unfolded lba0(1) own]
  obtain v c where c: "block_clear_bit (of_nat (unat b mod 32768)) (bmapBlocks (workers s w) ?q) = Some (v, c)" "blk_ok c"
    "\<forall>j < 32768. bset c j \<longleftrightarrow> j \<noteq> unat b mod 32768 \<and> bset (bmapBlocks (workers s w) ?q) j"
    using clear_in_block [of "bmapBlocks (workers s w) ?q" "unat b mod 32768"] assms(4) by (auto simp: wk_ok_def)
  have "bmapInMem (workers s w) ?q"
    using assms(5) by (simp add: free_block_def clear_dirty_def lba Let_def split: if_splits)
  then have "s' = s\<lparr>workers := (workers s)(w := put_bmap ?q c (workers s w))\<rparr>"
    using assms(5) c(1) by (simp add: free_block_def clear_dirty_def lba Let_def)
  with c(2,3) show thesis by (rule that [rotated])
qed

lemma sys_ok_release:
  assumes "sys_ok s" "files s f = Some mi" "e < 7" "e_num_blocks (ext mi e) \<noteq> 0"
    "free_block (ucast (e_block_no (ext mi e))) s = Inr s'"
  shows "sys_ok (s'\<lparr>files := (files s')(f := Some (drop_extent e mi))\<rparr>)"
proof -
  let ?b = "unat (e_block_no (ext mi e))" and ?t = "s'\<lparr>files := (files s')(f := Some (drop_extent e mi))\<rparr>"
  have h: "holds mi e ?b" using assms(3,4) by (simp add: holds_def)
  have own: "owner ?b < 10" and pl: "placed (owner ?b) e ?b" and len: "length (d_ext_array (inodeData mi)) = 7"
    using h sys_okD(2) [OF assms(1,2)] by (simp_all add: file_ok_def marked_by_def)
  let ?w = "owner ?b"
  have wk: "wk_ok ?w (workers s ?w)" by (rule sys_okD(1) [OF assms(1) own])
  obtain c where s': "s' = s\<lparr>workers := (workers s)(?w := put_bmap (bmap_no (?b div 32768)) c (workers s ?w))\<rparr>"
    and c: "blk_ok c" "\<forall>j < 32768. bset c j \<longleftrightarrow> j \<noteq> ?b mod 32768 \<and> bset (bmapBlocks (workers s ?w) (bmap_no (?b div 32768))) j"
    by (rule free_block_result [OF pl assms(3) own wk assms(5)])
  have keep: "marked_by ?t e' b" if "marked_by s e' b" "e' < 7" "b \<noteq> ?b" for e' b
  proof (cases "owner b = ?w")
    case True
    then show ?thesis
      using marked_clear [where bm = "bmapBlocks (workers s ?w)", OF pl assms(3) own _ that(2) own that(3) _ c(2)] that(1) by (simp add: marked_by_def s' put_bmap_def)
  qed (use that(1) in \<open>simp add: marked_by_def s'\<close>)
  have old: "holds m e' b \<and> (g = f \<longrightarrow> e' \<noteq> e) \<and> ext m' e' = ext m e'"
    if "files ?t g = Some m'" "holds m' e' b" "m = the (files s g)" for g m m' e' b
    using that assms(2) len by (cases "g = f"; cases "e' = e") (auto simp: s' drop_extent_def holds_def)
  have dom: "\<exists>m. files s g = Some m \<and> length (d_ext_array (inodeData m')) = length (d_ext_array (inodeData m))"
    if "files ?t g = Some m'" for g m' using that assms(2) by (cases "g = f") (auto simp: s' drop_extent_def)
  show ?thesis
  proof (rule sys_okI)
    show "wk_ok w (workers ?t w)" if "w < 10" for w
      using sys_okD(1) [OF assms(1) that] wk c(1) by (auto simp: s' wk_ok_def put_bmap_def)
    show "file_ok ?t m'" if m': "files ?t g = Some m'" for g m'
    proof -
      obtain m where m: "files s g = Some m" "length (d_ext_array (inodeData m')) = length (d_ext_array (inodeData m))"
        using dom [OF m'] by blast
      have "unat (e_num_blocks (ext m' e')) \<le> units e' \<and> marked_by ?t e' b" if hb: "holds m' e' b" for e' b
      proof -
        have o: "holds m e' b" "g = f \<longrightarrow> e' \<noteq> e" "ext m' e' = ext m e'" using old [OF m' hb] m(1) by auto
        have "b \<noteq> ?b" using sys_okD(3) [OF assms(1) m(1) assms(2) o(1)] h o(2) by blast
        then show ?thesis using sys_okD(2) [OF assms(1) m(1)] o keep [of e' b] by (simp add: file_ok_def holds_def)
      qed
      then show ?thesis using sys_okD(2) [OF assms(1) m(1)] m(2) by (simp add: file_ok_def)
    qed
    show "g = g' \<and> e1 = e2" if "files ?t g = Some m1" "files ?t g' = Some m2" "holds m1 e1 b" "holds m2 e2 b" for g g' m1 m2 e1 e2 b
      using old [OF that(1,3)] old [OF that(2,4)] dom [OF that(1)] dom [OF that(2)] sys_okD(3) [OF assms(1)] by fastforce
  qed
qed

lemma sys_ok_workers:
  assumes "sys_ok s" "\<And>w. w < 10 \<Longrightarrow> wk_ok w (g w)" "\<And>w. bmapBlocks (g w) = bmapBlocks (workers s w)"
  shows "sys_ok (s\<lparr>workers := g\<rparr>)"
proof (rule sys_okI)
  show "file_ok (s\<lparr>workers := g\<rparr>) mi" if "files (s\<lparr>workers := g\<rparr>) f = Some mi" for f mi
    using that sys_okD(2) [OF assms(1), of f mi] assms(3) by (simp add: file_ok_def marked_by_def)
qed (use assms(2) sys_okD(3) [OF assms(1)] in simp_all)

lemma sys_ok_files:
  assumes "sys_ok s" "\<And>g m. h g = Some m \<Longrightarrow> files s g = Some m \<or> fresh_inode m"
  shows "sys_ok (s\<lparr>files := h\<rparr>)"
proof -
  have none: "\<not> holds m e b" if "fresh_inode m" for m e b using that by (auto simp: fresh_inode_def holds_def)
  have "file_ok (s\<lparr>files := h\<rparr>) m" if "h g = Some m" for g m
    using assms(2) [OF that] sys_okD(2) [OF assms(1), of g m] none [of m]
    by (auto simp: file_ok_def marked_by_def fresh_inode_def)
  then show ?thesis using assms none sys_okD(1,3) [OF assms(1)] by (intro sys_okI) (auto, blast+)
qed

lemma sys_step_ok:
  assumes "sys_step s s'" "sys_ok s"
  shows "sys_ok s'"
  using assms
proof cases
  case (alloc w f mi n r mi' fs')
  have "upd f mi w (workers s w) s = s" using alloc(3) by (simp add: upd_def fun_upd_idem)
  then show ?thesis
    using alloc_loop_ok [of n 0 _ mi "workers s w" _ f w s] alloc assms(2) unfolding allocateDataBlocks_def by fastforce
next
  case (release f mi e s'')
  then show ?thesis using sys_ok_release [OF assms(2)] by simp
next
  case (arrive w b)
  then show ?thesis using sys_okD(1) [OF assms(2)] by (auto intro!: sys_ok_workers [OF assms(2)] simp: wk_ok_def)
next
  case (lock w bs)
  then show ?thesis using sys_okD(1) [OF assms(2)] by (auto intro!: sys_ok_workers [OF assms(2)] simp: wk_ok_def)
qed (auto intro!: sys_ok_files [OF assms(2)] split: if_splits)

lemma sys_reach_ok: "sys_reach s \<Longrightarrow> sys_ok s"
proof (induction rule: sys_reach.induct)
  case (init s)
  then show ?case by (intro sys_okI) (auto simp: sys_init_def)
qed (rule sys_step_ok)

text \<open>C23: No data block belongs to two extents. In every state reached by any sequence of file
  creations, allocations by any worker, arrivals and locks of bitmap blocks, deallocations and
  deletions, the blocks of two different extents are different: of two files, or of one file.\<close>

theorem extents_never_overlap:
  assumes "sys_reach s" "files s f = Some mi" "files s f' = Some mi'" "e < 7" "e' < 7" "(f, e) \<noteq> (f', e')"
    "i < unat (e_num_blocks (d_ext_array (inodeData mi) ! e))" "j < unat (e_num_blocks (d_ext_array (inodeData mi') ! e'))"
  shows "unat (e_block_no (d_ext_array (inodeData mi) ! e)) + i \<noteq> unat (e_block_no (d_ext_array (inodeData mi') ! e')) + j"
proof -
  let ?b = "unat (e_block_no (ext mi e))" and ?b' = "unat (e_block_no (ext mi' e'))"
  have ok: "sys_ok s" using assms(1) by (rule sys_reach_ok)
  have h: "holds mi e ?b" "holds mi' e' ?b'" using assms(4,5,7,8) by (auto simp: holds_def)
  have f: "unat (e_num_blocks (ext mi e)) \<le> units e" "placed (owner ?b) e ?b"
    "unat (e_num_blocks (ext mi' e')) \<le> units e'" "placed (owner ?b') e' ?b'"
    using h sys_okD(2) [OF ok assms(2)] sys_okD(2) [OF ok assms(3)] by (simp_all add: file_ok_def marked_by_def)
  have "?b \<noteq> ?b'" using sys_okD(3) [OF ok assms(2,3) h(1)] h(2) assms(6) by auto
  with placed_disjoint [OF f(2,4) assms(4,5)] f(1,3) assms(7,8) show ?thesis by linarith
qed

text \<open>Ten workers with empty bitmaps, and a file without extents.\<close>

definition demo_wk :: "nat \<Rightarrow> FsImpl" where
  "demo_wk w = \<lparr>idx = int w, iMapBlocks = [], nextImapBlockFreeBitNo = -1, nextImapNo = 0,
     bmapBlocks = (\<lambda>_. replicate blk_len 0), bmapInMem = (\<lambda>_. True), immutableBitmaps = [],
     nextBlockIdx = (\<lambda>_. 0), nextBitNo = (\<lambda>_. -1), pendingIo = [], inodeMap = [], dirtyInodeSet = []\<rparr>"

definition demo_inode :: InMemInode where
  "demo_inode = \<lparr>i_no = 7, inodeDirty = False, inodeData = demo_dinode\<lparr>d_block_count := 0, d_ext_array := replicate 7 \<lparr>e_i_block_offset = 0, e_num_blocks = 0, e_block_no = 0\<rparr>\<rparr>,
     logEntry = demo_ile\<rparr>"

lemma demo_wk_ok: "w < 10 \<Longrightarrow> wk_ok w (demo_wk w)"
  by (simp add: demo_wk_def wk_ok_def blk_ok_def BPB_i_def) (simp add: blk_len_def)

lemma bset_zeros: "\<not> bset (replicate blk_len 0) n" if "n < 32768"
  using that by (simp add: bset_def blk_len_def div_less_iff_less_mult)

text \<open>Workers with some bitmap blocks locked.\<close>

definition locked_wk :: "u32 list \<Rightarrow> nat \<Rightarrow> FsImpl" where
  "locked_wk bs w = demo_wk w\<lparr>immutableBitmaps := bs\<rparr>"

lemma locked_wk_ok: "w < 10 \<Longrightarrow> wk_ok w (locked_wk bs w)"
  using demo_wk_ok [of w] by (simp add: locked_wk_def wk_ok_def)

lemma demo_search:
  assumes "w < 10" "bmap_no (640 * w) \<notin> set bs"
  obtains n fs' where "bit_loop (bmap_no (640 * w)) 6 6 0 (locked_wk bs w) = Inr (Found 0 (int n), fs')"
proof -
  let ?bno = "bmap_no (640 * w)" and ?fs = "locked_wk bs w"
  note wk = locked_wk_ok [OF assms(1), of bs]
  have "\<exists>n fs'. try_bit ?bno ?fs = Inr (int n, fs')"
    using wk
  proof (cases rule: try_bit_cases [where bno = ?bno])
    case (full fs1)
    then have "bset (bmapBlocks ?fs ?bno) 0" by (auto simp: locked_wk_def demo_wk_def)
    then show ?thesis using bset_zeros [of 0] by (simp add: locked_wk_def demo_wk_def)
  qed blast
  then obtain n fs' where t: "try_bit ?bno ?fs = Inr (int n, fs')" by blast
  have id: "?fs\<lparr>nextBlockIdx := (nextBlockIdx ?fs)(1 := 0)\<rparr> = ?fs" by (simp add: locked_wk_def demo_wk_def fun_eq_iff)
  have mem: "bmapInMem ?fs ?bno" "\<not> isBlockBitmapImmutable ?bno ?fs"
    using assms(2) by (simp_all add: locked_wk_def demo_wk_def isBlockBitmapImmutable_def)
  have "bit_loop ?bno 6 (Suc 5) 0 ?fs = Inr (Found 0 (int n), fs')"
    unfolding bit_loop.simps(2) using mem t by (simp add: Let_def id try_bit_retry_def)
  then show thesis by (intro that) (simp add: eval_nat_numeral)
qed

lemma demo_first:
  assumes "w < 10" "bmap_no (640 * w) \<notin> set bs"
  obtains mi' fs' where "alloc_step numBlocks (0, 0, demo_inode, locked_wk bs w) = Inr (Inr (1, 1, mi', fs'))"
    "e_num_blocks (ext mi' 0) = 1" "\<forall>e < 7. e \<noteq> 0 \<longrightarrow> ext mi' e = ext demo_inode e" "length (d_ext_array (inodeData mi')) = 7"
    "d_block_count (inodeData mi') = 0" "wk_ok w fs'" "same_env (locked_wk bs w) fs'"
proof -
  obtain n fs1 where t: "bit_loop (bmap_no (640 * w)) 6 6 0 (locked_wk bs w) = Inr (Found 0 (int n), fs1)"
    using demo_search [OF assms] by blast
  have len: "length (d_ext_array (inodeData demo_inode)) = 7" by (simp add: demo_inode_def)
  have n0: "e_num_blocks (ext demo_inode e) = 0" if "e < 7" for e using that by (simp add: demo_inode_def)
  show thesis using locked_wk_ok [OF assms(1), of bs] len
  proof (cases rule: alloc_step_cases [where cur = 0 and numBlocks = numBlocks and n = 0 and mi = demo_inode])
    case (first e r fs')
    then have e: "e = 0"
      using less_7_cases [of e] by (auto simp: at_ext_def extent_base_values extent_base_values(2) [unfolded One_nat_def])
    with first(4) t have r: "r = Found 0 (int n)" "fs' = fs1"
      by (simp_all add: bmap_search_def units_def plen_def pstart_def locked_wk_def demo_wk_def)
    let ?mi = "set_extent 0 (first_extent 0 w 0 0 (int n) (ext demo_inode 0)) True demo_inode"
    have "wk_ok w fs1" "same_env (locked_wk bs w) fs1" using first(3) r by (simp_all add: search_ok_def)
    with first(5) e r n0 [of 0] show thesis
      by (intro that [of ?mi fs1]) (simp_all add: set_extent_def first_extent_def demo_inode_def)
  qed (use n0 in \<open>auto simp: at_ext_def extent_base_values demo_inode_def\<close>)
qed

lemma demo_alloc:
  assumes "w < 10"
  obtains mi' fs' where "allocateDataBlocks 1 demo_inode (demo_wk w) = Some (Inr (1, mi', fs'))" "e_num_blocks (ext mi' 0) = 1"
proof -
  have wk: "locked_wk [] w = demo_wk w" by (simp add: locked_wk_def demo_wk_def)
  obtain mi' fs1 where m: "alloc_step 1 (0, 0, demo_inode, demo_wk w) = Inr (Inr (1, 1, mi', fs1))" "e_num_blocks (ext mi' 0) = 1"
    "d_block_count (inodeData mi') = 0"
    by (rule demo_first [OF assms, of "[]" 1, unfolded wk]) simp_all
  have "alloc_loop 1 (1, 1, mi', fs1) = Some (Inr (1, set_count 1 mi', fs1))"
    using m(3) by (subst alloc_loop.simps) simp
  moreover have "alloc_loop 1 (0, 0, demo_inode, demo_wk w) = alloc_loop 1 (1, 1, mi', fs1)"
    by (subst alloc_loop.simps) (simp add: m(1))
  moreover have "d_block_count (inodeData demo_inode) = 0" by (simp add: demo_inode_def)
  ultimately show thesis using m(2) by (intro that [of "set_count 1 mi'" fs1]) (simp_all add: allocateDataBlocks_def)
qed

theorem extents_never_overlap_witness:
  "\<exists>s mi mi'. sys_reach s \<and> files s 0 = Some mi \<and> files s 1 = Some mi' \<and>
     e_num_blocks (d_ext_array (inodeData mi) ! 0) = 1 \<and> e_num_blocks (d_ext_array (inodeData mi') ! 0) = 1 \<and>
     e_block_no (d_ext_array (inodeData mi) ! 0) \<noteq> e_block_no (d_ext_array (inodeData mi') ! 0)"
proof -
  define s0 where "s0 = \<lparr>workers = demo_wk, files = (\<lambda>_ :: nat. None :: InMemInode option)\<rparr>"
  define s1 where "s1 = s0\<lparr>files := (files s0)(0 := Some demo_inode)\<rparr>"
  define s2 where "s2 = s1\<lparr>files := (files s1)(1 := Some demo_inode)\<rparr>"
  have fresh: "fresh_inode demo_inode" by (simp add: fresh_inode_def demo_inode_def)
  have "sys_reach s0" using demo_wk_ok by (intro sys_reach.init) (simp add: sys_init_def s0_def)
  moreover have "sys_step s0 s1" unfolding s1_def by (rule sys_step.create [OF _ fresh]) (simp add: s0_def)
  ultimately have "sys_reach s1" by (rule sys_reach.step)
  moreover have "sys_step s1 s2" unfolding s2_def by (rule sys_step.create [OF _ fresh]) (simp add: s1_def s0_def)
  ultimately have r2: "sys_reach s2" by (rule sys_reach.step)
  obtain m fs where m: "allocateDataBlocks 1 demo_inode (demo_wk 0) = Some (Inr (1, m, fs))" "e_num_blocks (ext m 0) = 1"
    by (rule demo_alloc [of 0]) simp
  obtain m' fs' where m': "allocateDataBlocks 1 demo_inode (demo_wk 1) = Some (Inr (1, m', fs'))" "e_num_blocks (ext m' 0) = 1"
    by (rule demo_alloc [of 1]) simp
  define s3 where "s3 = upd 0 m 0 fs s2"
  define s4 where "s4 = upd 1 m' 1 fs' s3"
  have f2: "files s2 0 = Some demo_inode" "workers s2 0 = demo_wk 0" by (simp_all add: s2_def s1_def s0_def)
  have f3: "files s3 1 = Some demo_inode" "workers s3 1 = demo_wk 1" by (simp_all add: s3_def upd_def s2_def s1_def s0_def)
  have "sys_step s2 s3" unfolding s3_def by (rule sys_step.alloc [where w = 0 and s = s2, unfolded f2(2), OF _ f2(1) m(1)]) simp
  then have "sys_reach s3" by (rule sys_reach.step [OF r2])
  moreover have "sys_step s3 s4" unfolding s4_def by (rule sys_step.alloc [where w = 1 and s = s3, unfolded f3(2), OF _ f3(1) m'(1)]) simp
  ultimately have r4: "sys_reach s4" by (rule sys_reach.step)
  have f: "files s4 0 = Some m" "files s4 1 = Some m'" by (simp_all add: s4_def s3_def upd_def)
  have "e_block_no (ext m 0) \<noteq> e_block_no (ext m' 0)" using extents_never_overlap [OF r4 f, of 0 0 0 0] m(2) m'(2) by (simp add: word_unat_eq_iff)
  with r4 f m(2) m'(2) show ?thesis by (intro exI [of _ s4] exI [of _ m] exI [of _ m'] conjI)
qed

end
