(* ===== verification/Ufs_AllocLoop.thy ===== *)
theory Ufs_AllocLoop
  imports Ufs_AllocSys
begin

text \<open>
  When an allocation of data blocks returns, and with what. As long as the extents of a file hold
  exactly the blocks its block count says, the loop always ends; an allocation that fails after it
  has filled an extent leaves them apart, and then the next one never ends.
\<close>

subsection \<open>Extents and the block count\<close>

definition fills :: "nat \<Rightarrow> InMemInode \<Rightarrow> bool" where
  "fills c mi \<longleftrightarrow> length (d_ext_array (inodeData mi)) = 7 \<and> c \<le> extent_base 7 \<and>
     (\<forall>e < 7. unat (e_num_blocks (ext mi e)) = min (units e) (c - extent_base e))"

lemma extent_base_step: "e < 7 \<Longrightarrow> extent_base (Suc e) = extent_base e + units e"
  using part_bounds(4) [of e] by (simp add: extent_base_def units_table unat_of_nat)

lemma extent_base_mono: "e < e' \<Longrightarrow> e' \<le> 7 \<Longrightarrow> extent_base e + units e \<le> extent_base e'"
proof (induction e')
  case (Suc e')
  then show ?case using extent_base_step [of e'] by (cases "e = e'") auto
qed simp

text \<open>The blocks of an extent grow from \<open>c\<close> to \<open>c'\<close> blocks of the file.\<close>

lemma fills_grow:
  assumes "fills c mi" "e < 7" "extent_base e \<le> c" "c \<le> c'" "c' \<le> extent_base e + units e"
    "d_ext_array (inodeData mi') = (d_ext_array (inodeData mi))[e := x]" "unat (e_num_blocks x) = c' - extent_base e"
  shows "fills c' mi'"
proof -
  have len: "length (d_ext_array (inodeData mi)) = 7" using assms(1) by (simp add: fills_def)
  have "unat (e_num_blocks (ext mi' e')) = min (units e') (c' - extent_base e')" if "e' < 7" for e'
  proof (cases e' e rule: linorder_cases)
    case less
    then show ?thesis
      using extent_base_mono [of e' e] assms(1-4,6) that by (simp add: fills_def)
  next
    case equal
    then show ?thesis using assms(2,5-7) len by simp
  next
    case greater
    then show ?thesis
      using extent_base_mono [of e e'] assms(1,4-6) that by (simp add: fills_def)
  qed
  moreover have "c' \<le> extent_base 7"
    using assms(5) extent_base_step [OF assms(2)] extent_base_mono [of e 7] assms(2) by simp
  ultimately show ?thesis using len assms(6) by (simp add: fills_def)
qed

lemma unat_file_end: "unat cur \<le> extent_base 7 \<Longrightarrow> k \<le> extent_base 7 \<Longrightarrow> unat cur + k < 2 ^ 32"
  by (simp add: extent_base_values)

lemma set_count_simps [simp]: "d_block_count (inodeData (set_count c mi)) = c"
  by (simp add: set_count_def)

lemma set_extent_count [simp]: "d_block_count (inodeData (set_extent e x m mi)) = d_block_count (inodeData mi)"
  by (simp add: set_extent_def)

lemma fills_set_count [simp]: "fills c (set_count c' mi) = fills c mi"
  by (simp add: fills_def)

text \<open>One round: it returns, or the extents and the count grow together by at least one block.\<close>

lemma alloc_step_progress:
  assumes "wk_ok w fs" "fills (unat cur) mi" "n < numBlocks"
  obtains (fail) fs' where "alloc_step numBlocks (n, cur, mi, fs) = Inr (Inl (-1, mi, fs'))" "wk_ok w fs'"
      "\<exists>e \<le> 7. unat cur = extent_base e"
    | (io) fs' where "alloc_step numBlocks (n, cur, mi, fs) = Inr (Inl (0, set_count cur mi, fs'))" "wk_ok w fs'"
    | (more) k mi' fs' where "alloc_step numBlocks (n, cur, mi, fs) = Inr (Inr (n + k, cur + k, mi', fs'))" "wk_ok w fs'"
      "0 < k" "unat n + unat k \<le> unat numBlocks" "unat (cur + k) = unat cur + unat k" "fills (unat (cur + k)) mi'"
      "d_block_count (inodeData mi') = d_block_count (inodeData mi)"
proof -
  have len: "length (d_ext_array (inodeData mi)) = 7" and c7: "unat cur \<le> extent_base 7"
    using assms(2) by (simp_all add: fills_def)
  have num: "unat (e_num_blocks (ext mi e)) = unat cur - extent_base e" if "at_ext cur e" for e
    using that assms(2) by (auto simp: at_ext_def fills_def)
  from assms(1) len show thesis
  proof (cases rule: alloc_step_cases [where cur = cur and numBlocks = numBlocks and n = n])
    case behind
    then show thesis using c7 assms(1) by (intro fail [of fs]) (auto intro: exI [of _ 7])
  next
    case (first e r fs')
    then have at: "e < 7" "extent_base e \<le> unat cur" "unat cur < extent_base e + units e" by (simp_all add: at_ext_def)
    have eq: "unat cur = extent_base e" using num [OF first(1)] first(2) at(2) by simp
    have wk': "wk_ok w fs'" using first(3) by (simp add: search_ok_def)
    show thesis
    proof (cases r)
      case (Found i b)
      have u: "unat (cur + 1) = unat cur + 1" using unat_add_no_overflow [of cur 1] c7 by (simp add: extent_base_values)
      have "fills (unat (cur + 1)) (set_extent (int e) (first_extent cur w e i b (ext mi e)) True mi)"
        by (rule fills_grow [OF assms(2) at(1,2), where x = "first_extent cur w e i b (ext mi e)"])
           (use u at(3) eq first(2) in \<open>simp_all add: first_extent_def\<close>)
      with first(5) Found wk' u assms(3) show thesis
        by (intro more [of 1 "set_extent (int e) (first_extent cur w e i b (ext mi e)) True mi" fs'])
           (simp_all add: word_less_nat_alt)
    next
      case NeedIo
      with first(5) wk' show thesis by (intro io) auto
    next
      case NoSpace
      with first(5) wk' eq at(1) show thesis by (intro fail [of fs'] exI [of _ e]) simp_all
    qed
  next
    case m: (more e)
    then have at: "e < 7" "extent_base e \<le> unat cur" "unat cur < extent_base e + units e" by (simp_all add: at_ext_def)
    let ?k = "more_blocks numBlocks n e (ext mi e)"
    have b: "unat (e_num_blocks (ext mi e)) \<le> units e" using num [OF m(1)] at by simp
    have k: "unat ?k = min (unat (numBlocks - n)) (units e - (unat cur - extent_base e))"
      using more_blocks_nat [OF b at(1), of numBlocks n] num [OF m(1)] by simp
    have d: "unat (numBlocks - n) = unat numBlocks - unat n" using assms(3) by (simp add: unat_sub word_less_nat_alt word_le_nat_alt)
    have le: "unat cur + unat ?k \<le> extent_base e + units e" using k at by simp
    have "extent_base e + units e \<le> extent_base 7" using extent_base_mono [of e 7] at(1) by simp
    then have u: "unat (cur + ?k) = unat cur + unat ?k" using le by (intro unat_add_no_overflow) (simp add: extent_base_values)
    have "fills (unat (cur + ?k))
        (set_extent (int e) ((ext mi e)\<lparr>e_num_blocks := e_num_blocks (ext mi e) + ?k\<rparr>) False mi)"
      by (rule fills_grow [OF assms(2) at(1,2) _ _ set_extent_array])
         (use u le at(2) more_blocks_bound(1) [OF b at(1), of numBlocks n] num [OF m(1)] in simp_all)
    moreover have "0 < unat ?k" using k d at assms(3) by (simp add: word_less_nat_alt)
    moreover have "unat ?k \<le> unat numBlocks - unat n" unfolding k d by simp
    then have "unat n + unat ?k \<le> unat numBlocks" using assms(3) unfolding word_less_nat_alt by linarith
    ultimately show thesis
      using m(3) u assms(1) by (intro more [of ?k "set_extent (int e) ((ext mi e)\<lparr>e_num_blocks := e_num_blocks (ext mi e) + ?k\<rparr>) False mi" fs])
         (simp_all add: Let_def word_less_nat_alt)
  qed
qed

subsection \<open>Results of an allocation\<close>

text \<open>What a call with \<open>k\<close> blocks still to allocate at block \<open>cur\<close> leaves: the result, and the inode.\<close>

definition alloc_post :: "nat \<Rightarrow> u32 \<Rightarrow> InMemInode \<Rightarrow> int \<Rightarrow> InMemInode \<Rightarrow> bool" where
  "alloc_post k cur mi v mi' \<longleftrightarrow>
     (let c = d_block_count (inodeData mi); c' = d_block_count (inodeData mi') in
      v = uint (c' - c) \<and> unat c' = unat cur + k \<and> fills (unat c') mi' \<or>
      v = 0 \<and> unat cur \<le> unat c' \<and> unat c' < unat cur + k \<and> fills (unat c') mi' \<or>
      v = -1 \<and> c' = c \<and> (\<exists>e \<le> 7. unat cur \<le> extent_base e \<and> extent_base e < unat cur + k \<and> fills (extent_base e) mi' \<and>
         (extent_base e = unat cur \<longrightarrow> d_ext_array (inodeData mi') = d_ext_array (inodeData mi))))"

lemma alloc_post_step:
  assumes "alloc_post k' cur' mi1 v mi'" "unat cur' = unat cur + d" "k = k' + d" "0 < d"
    "d_block_count (inodeData mi1) = d_block_count (inodeData mi)"
  shows "alloc_post k cur mi v mi'"
  using assms(1) unfolding alloc_post_def Let_def
proof (elim disjE conjE exE)
  fix e assume "e \<le> 7" "unat cur' \<le> extent_base e" "extent_base e < unat cur' + k'" "fills (extent_base e) mi'"
    "v = -1" "d_block_count (inodeData mi') = d_block_count (inodeData mi1)"
  then show "v = uint (d_block_count (inodeData mi') - d_block_count (inodeData mi)) \<and>
      unat (d_block_count (inodeData mi')) = unat cur + k \<and> fills (unat (d_block_count (inodeData mi'))) mi' \<or>
    v = 0 \<and> unat cur \<le> unat (d_block_count (inodeData mi')) \<and> unat (d_block_count (inodeData mi')) < unat cur + k \<and>
      fills (unat (d_block_count (inodeData mi'))) mi' \<or>
    v = -1 \<and> d_block_count (inodeData mi') = d_block_count (inodeData mi) \<and>
      (\<exists>e \<le> 7. unat cur \<le> extent_base e \<and> extent_base e < unat cur + k \<and> fills (extent_base e) mi' \<and>
         (extent_base e = unat cur \<longrightarrow> d_ext_array (inodeData mi') = d_ext_array (inodeData mi)))"
    using assms(2-5) by (intro disjI2 conjI exI [of _ e]) simp_all
qed (use assms(2-5) in auto)

lemma alloc_loop_returns:
  assumes "wk_ok w fs" "fills (unat cur) mi" "unat n \<le> unat numBlocks"
  shows "\<exists>v mi' fs'. alloc_loop numBlocks (n, cur, mi, fs) = Some (Inr (v, mi', fs')) \<and> wk_ok w fs' \<and>
    alloc_post (unat numBlocks - unat n) cur mi v mi'"
  using assms
proof (induction "unat numBlocks - unat n" arbitrary: n cur mi fs rule: less_induct)
  case less
  note unfold = alloc_loop.simps [of numBlocks "(n, cur, mi, fs)"]
  show ?case
  proof (cases "n < numBlocks")
    case True
    then have lt: "unat n < unat numBlocks" by (simp add: word_less_nat_alt)
    from less.prems(1,2) True show ?thesis
    proof (cases rule: alloc_step_progress)
      case (fail fs')
      then obtain e where e: "e \<le> 7" "unat cur = extent_base e" by blast
      have "alloc_post (unat numBlocks - unat n) cur mi (-1) mi"
        unfolding alloc_post_def Let_def using e lt less.prems(2) by auto
      with fail True show ?thesis by (simp add: unfold)
    next
      case (io fs')
      have "alloc_post (unat numBlocks - unat n) cur mi 0 (set_count cur mi)"
        unfolding alloc_post_def Let_def using lt less.prems(2) by (simp, intro disjI2, linarith)
      with io True show ?thesis by (simp add: unfold)
    next
      case (more k mi' fs')
      have u: "unat (n + k) = unat n + unat k" using more(4) unat_below [of numBlocks] by (intro unat_add_no_overflow) linarith
      have k: "0 < unat k" using more(3) by (simp add: word_less_nat_alt)
      have d: "unat numBlocks - unat (n + k) < unat numBlocks - unat n" "unat (n + k) \<le> unat numBlocks"
        using u more(4) k lt by linarith+
      obtain v mi2 fs2 where r: "alloc_loop numBlocks (n + k, cur + k, mi', fs') = Some (Inr (v, mi2, fs2))" "wk_ok w fs2"
        "alloc_post (unat numBlocks - unat (n + k)) (cur + k) mi' v mi2"
        using less.hyps [OF d(1) more(2,6) d(2)] by blast
      have "alloc_post (unat numBlocks - unat n) cur mi v mi2"
        by (rule alloc_post_step [OF r(3), where d = "unat k"]) (use more k u in simp_all)
      with r(1,2) more(1) True show ?thesis by (simp add: unfold)
    qed
  next
    case False
    then have "unat n = unat numBlocks" using less.prems(3) by (simp add: word_less_nat_alt)
    moreover have "alloc_post 0 cur mi (uint (cur - d_block_count (inodeData mi))) (set_count cur mi)"
      unfolding alloc_post_def Let_def using less.prems(2) by simp
    ultimately show ?thesis using False less.prems(1) by (simp add: unfold)
  qed
qed


lemma alloc_loop_stuck:
  assumes "wk_ok w fs" "length (d_ext_array (inodeData mi)) = 7" "at_ext cur e" "unat (e_num_blocks (ext mi e)) = units e" "n < numBlocks"
  shows "alloc_loop numBlocks (n, cur, mi, fs) = None"
proof (rule ccontr)
  let ?I = "\<lambda>n' cur' mi' fs'. n' = n \<and> cur' = cur \<and> fs' = fs \<and> length (d_ext_array (inodeData mi')) = 7 \<and>
    unat (e_num_blocks (ext mi' e)) = units e"
  have e: "e < 7" using assms(3) by (simp add: at_ext_def)
  assume "alloc_loop numBlocks (n, cur, mi, fs) \<noteq> None"
  then obtain r where "alloc_loop numBlocks (n, cur, mi, fs) = Some r" by blast
  then show False
  proof (rule alloc_loop_inv [where I = ?I and Q = "\<lambda>_. False"])
    show "?I n cur mi fs" using assms by simp
  next
    fix n' cur' mi' fs' assume I: "?I n' cur' mi' fs'" and "n' < numBlocks"
    then have len: "length (d_ext_array (inodeData mi')) = 7" by simp
    have unique: "e' = e" if "at_ext cur e'" for e'
      using that assms(3) extent_base_mono [of e e'] extent_base_mono [of e' e]
      by (cases e e' rule: linorder_cases) (auto simp: at_ext_def)
    have u: "unat (e_num_blocks (ext mi' e)) = units e" using I by simp
    have k: "more_blocks numBlocks n e (ext mi' e) = 0"
      using more_blocks_nat [of "ext mi' e" e numBlocks n] u e by (simp add: word_unat_eq_iff)
    from assms(1) len
    have "\<exists>mi1. alloc_step numBlocks (n, cur, mi', fs) = Inr (Inr (n, cur, mi1, fs)) \<and> ?I n cur mi1 fs"
    proof (cases rule: alloc_step_cases [where cur = cur and numBlocks = numBlocks and n = n])
      case behind
      then show ?thesis using assms(3) extent_base_mono [of e 7] e by (simp add: at_ext_def)
    next
      case (first e' r fs')
      then show ?thesis using unique [OF first(1)] u part_bounds(3) [OF e] by simp
    next
      case (more e')
      then show ?thesis using unique [OF more(1)] k u len e by (simp add: Let_def)
    qed
    then show "case alloc_step numBlocks (n', cur', mi', fs') of Inl err \<Rightarrow> False | Inr (Inl r) \<Rightarrow> False
      | Inr (Inr (n', cur', mi', fs')) \<Rightarrow> ?I n' cur' mi' fs'" using I by auto
  qed (use assms(5) in auto)
qed

text \<open>C27: A failed allocation can make the file unusable. When allocateDataBlocks returns -1 after it
  has added blocks to the file, the extents have the new blocks but the block count has not; then
  no later allocation for the file returns: the loop adds 0 blocks to the full extent forever,
  for any number of blocks and on any worker, also after space has become free.\<close>

theorem failed_allocation_hangs:
  assumes "wk_ok w fs" "fills (unat (d_block_count (inodeData mi))) mi"
    "allocateDataBlocks numBlocks mi fs = Some (Inr (-1, mi', fs'))"
    "d_ext_array (inodeData mi') \<noteq> d_ext_array (inodeData mi)" "0 < numBlocks'" "wk_ok w' fs''"
  shows "allocateDataBlocks numBlocks' mi' fs'' = None"
proof -
  let ?c = "d_block_count (inodeData mi)"
  have "alloc_post (unat numBlocks) ?c mi (-1) mi'"
    using alloc_loop_returns [OF assms(1,2), of 0 numBlocks] assms(3) by (auto simp: allocateDataBlocks_def)
  moreover have "-1 \<noteq> uint (d_block_count (inodeData mi') - ?c)" by (metis uint_ge_0 zero_le_numeral neg_0_le_iff_le not_one_le_zero)
  ultimately obtain e where e: "d_block_count (inodeData mi') = ?c" "e \<le> 7" "unat ?c \<le> extent_base e"
    "fills (extent_base e) mi'" "extent_base e \<noteq> unat ?c"
    using assms(4) by (auto simp: alloc_post_def Let_def)
  have "extent_base e \<le> extent_base 7" using e(4) by (simp add: fills_def)
  then obtain e0 where at: "at_ext ?c e0"
    using current_position [of ?c] e(3,5) by fastforce
  then have "e0 < e" using e(2,3,5) extent_base_mono [of e e0] by (cases e0 e rule: linorder_cases) (auto simp: at_ext_def)
  then have "unat (e_num_blocks (ext mi' e0)) = units e0"
    using e(4) at extent_base_mono [of e0 e] e(2) by (auto simp: fills_def at_ext_def)
  moreover have "length (d_ext_array (inodeData mi')) = 7" using e(4) by (simp add: fills_def)
  ultimately show ?thesis
    using alloc_loop_stuck [OF assms(6) _ at _ assms(5)] e(1) by (simp add: allocateDataBlocks_def)
qed

lemma jump_loop_locked:
  assumes "\<And>j. j < 6 \<Longrightarrow> isBlockBitmapImmutable (bmap_no (q + j)) fs"
  shows "\<exists>fs'. jump_loop 2048 (bmap_no q) 6 m k fs = Inr (NoSpace, fs')"
  using assms
proof (induction m arbitrary: k fs)
  case (Suc m)
  obtain j where j: "k mod 6 = of_nat j" "j < 6" using mod_word_nat [of 6 k] by auto
  have "isBlockBitmapImmutable (bmap_no (q + i)) (fs\<lparr>nextBlockIdx := (nextBlockIdx fs)(2048 := of_nat j)\<rparr>)" if "i < 6" for i
    using Suc.prems [OF that] by (simp add: isBlockBitmapImmutable_def)
  then show ?case using Suc.IH j by (simp add: jump_loop.simps(2) Let_def bmap_no_add)
qed simp

text \<open>A file of no blocks, on a worker whose bitmap blocks for the second extent are locked.\<close>

definition second_locked :: FsImpl where
  "second_locked = locked_wk (map (\<lambda>j. bmap_no (6 + j)) [0..<6]) 0"

lemma demo_fills: "fills 0 demo_inode"
  by (simp add: fills_def demo_inode_def)

lemma demo_failed_alloc:
  obtains mi' fs' where "allocateDataBlocks 2 demo_inode second_locked = Some (Inr (-1, mi', fs'))" "e_num_blocks (ext mi' 0) = 1"
proof -
  have free: "bmap_no (640 * 0) \<notin> set (map (\<lambda>j. bmap_no (6 + j)) [0..<6])" by (auto simp: bmap_no_inj)
  obtain mi' fs1 where m: "alloc_step 2 (0, 0, demo_inode, second_locked) = Inr (Inr (1, 1, mi', fs1))"
    "e_num_blocks (ext mi' 0) = 1" "\<forall>e < 7. e \<noteq> 0 \<longrightarrow> ext mi' e = ext demo_inode e" "length (d_ext_array (inodeData mi')) = 7"
    "wk_ok 0 fs1" "same_env second_locked fs1"
    unfolding second_locked_def by (rule demo_first [OF _ free, of 2]) simp_all
  have imm: "isBlockBitmapImmutable (bmap_no (6 + j)) fs1" if "j < 6" for j
    using m(6) that by (auto simp: same_env_def isBlockBitmapImmutable_def second_locked_def locked_wk_def)
  have e1: "e_num_blocks (ext mi' 1) = 0" using m(3) by (simp add: demo_inode_def)
  have "\<exists>fs'. alloc_step 2 (1, 1, mi', fs1) = Inr (Inl (-1, mi', fs'))"
    using m(5,4)
  proof (cases rule: alloc_step_cases [where cur = 1 and numBlocks = 2 and n = 1])
    case (first e r fs')
    then have e: "e = 1" using less_7_cases [of e] by (auto simp: at_ext_def extent_base_values units_def)
    obtain fs2 where "jump_loop 2048 (bmap_no 6) 6 6 (nextBlockIdx fs1 2048) fs1 = Inr (NoSpace, fs2)"
      using jump_loop_locked [OF imm] by blast
    with first(4) e have "r = NoSpace" by (simp add: bmap_search_def units_def plen_def pstart_def)
    with first(5) show ?thesis by simp
  next
    case (more e)
    then have e: "e = 1" using less_7_cases [of e] by (auto simp: at_ext_def extent_base_values units_def)
    with more(2) e1 show ?thesis by simp
  qed (simp add: extent_base_values)
  then obtain fs2 where s2: "alloc_step 2 (1, 1, mi', fs1) = Inr (Inl (-1, mi', fs2))" by blast
  have "alloc_loop 2 (1, 1, mi', fs1) = Some (Inr (-1, mi', fs2))" by (subst alloc_loop.simps) (simp add: s2)
  moreover have "alloc_loop 2 (0, 0, demo_inode, second_locked) = alloc_loop 2 (1, 1, mi', fs1)"
    by (subst alloc_loop.simps) (simp add: m(1))
  moreover have "d_block_count (inodeData demo_inode) = 0" by (simp add: demo_inode_def)
  ultimately show thesis using m(2) by (intro that [of mi' fs2]) (simp_all add: allocateDataBlocks_def)
qed

theorem failed_allocation_hangs_witness:
  "\<exists>mi' fs'. allocateDataBlocks 2 demo_inode second_locked = Some (Inr (-1, mi', fs')) \<and>
     allocateDataBlocks 1 mi' (demo_wk 0) = None"
proof -
  obtain mi' fs' where m: "allocateDataBlocks 2 demo_inode second_locked = Some (Inr (-1, mi', fs'))" "e_num_blocks (ext mi' 0) = 1"
    by (rule demo_failed_alloc)
  have "d_ext_array (inodeData mi') \<noteq> d_ext_array (inodeData demo_inode)"
  proof
    assume "d_ext_array (inodeData mi') = d_ext_array (inodeData demo_inode)"
    with m(2) show False by (simp add: demo_inode_def)
  qed
  moreover have "fills (unat (d_block_count (inodeData demo_inode))) demo_inode" using demo_fills by (simp add: demo_inode_def)
  moreover have "wk_ok 0 second_locked" using locked_wk_ok [of 0] by (simp add: second_locked_def)
  ultimately have "allocateDataBlocks 1 mi' (demo_wk 0) = None"
    using failed_allocation_hangs [of 0 second_locked demo_inode 2 mi' fs' 1 0 "demo_wk 0"] m(1) demo_wk_ok [of 0] by simp
  with m(1) show ?thesis by blast
qed


end
