(* ===== verification/Ufs_Fifo.thy ===== *)
theory Ufs_Fifo
  imports Ufs_Prelude
begin

text \<open>
  The contract of a bounded first-in-first-out store, as a locale: a provider has states with
  an invariant, a list view \<open>elems\<close> (oldest first), a bound, an operation that appends the
  items a request stands for, and one that drops the oldest items; both refuse, and only then,
  what does not fit. The journal ring of \<open>Ufs_JSuper\<close>, the lock-free buffer ring of
  \<open>Ufs_RingProps\<close> and the message ring of \<open>Ufs_Shmipc\<close> provide it. Clients get that any sequence of operations that goes through
  behaves like one queue: nothing is lost, duplicated or reordered.
\<close>

datatype 'i fifo_op = Push 'i | Pop nat

fun fifo_run ::
    "('i \<Rightarrow> 's \<Rightarrow> 's option) \<Rightarrow> (nat \<Rightarrow> 's \<Rightarrow> 's option) \<Rightarrow> 'i fifo_op list \<Rightarrow> 's \<Rightarrow> 's option" where
  "fifo_run push pop [] s = Some s"
| "fifo_run push pop (Push i # ops) s = do { s' \<leftarrow> push i s; fifo_run push pop ops s' }"
| "fifo_run push pop (Pop n # ops) s = do { s' \<leftarrow> pop n s; fifo_run push pop ops s' }"

text \<open>The items a sequence appends, in order, and the number of items it drops.\<close>

fun fifo_pushed ::
    "('i \<Rightarrow> 's \<Rightarrow> 's option) \<Rightarrow> (nat \<Rightarrow> 's \<Rightarrow> 's option) \<Rightarrow> ('s \<Rightarrow> 'i \<Rightarrow> 'a list) \<Rightarrow>
     'i fifo_op list \<Rightarrow> 's \<Rightarrow> 'a list" where
  "fifo_pushed push pop items [] s = []"
| "fifo_pushed push pop items (Push i # ops) s =
     items s i @ (case push i s of None \<Rightarrow> [] | Some s' \<Rightarrow> fifo_pushed push pop items ops s')"
| "fifo_pushed push pop items (Pop n # ops) s =
     (case pop n s of None \<Rightarrow> [] | Some s' \<Rightarrow> fifo_pushed push pop items ops s')"

fun fifo_popped :: "'i fifo_op list \<Rightarrow> nat" where
  "fifo_popped [] = 0"
| "fifo_popped (Push i # ops) = fifo_popped ops"
| "fifo_popped (Pop n # ops) = n + fifo_popped ops"

fun ops_valid :: "('i \<Rightarrow> bool) \<Rightarrow> nat \<Rightarrow> 'i fifo_op list \<Rightarrow> bool" where
  "ops_valid valid b [] = True"
| "ops_valid valid b (Push i # ops) = (valid i \<and> ops_valid valid b ops)"
| "ops_valid valid b (Pop n # ops) = (n \<le> b \<and> ops_valid valid b ops)"

locale bounded_fifo =
  fixes inv :: "'s \<Rightarrow> bool"
    and elems :: "'s \<Rightarrow> 'a list"
    and bound :: "'s \<Rightarrow> nat"
    and valid :: "'i \<Rightarrow> bool"
    and items :: "'s \<Rightarrow> 'i \<Rightarrow> 'a list"
    and push :: "'i \<Rightarrow> 's \<Rightarrow> 's option"
    and pop :: "nat \<Rightarrow> 's \<Rightarrow> 's option"
  assumes inv_bound: "inv s \<Longrightarrow> length (elems s) \<le> bound s"
    and push_ok: "inv s \<Longrightarrow> valid i \<Longrightarrow> length (elems s) + length (items s i) \<le> bound s \<Longrightarrow>
          \<exists>s'. push i s = Some s' \<and> inv s' \<and> bound s' = bound s \<and> elems s' = elems s @ items s i"
    and push_full: "inv s \<Longrightarrow> valid i \<Longrightarrow> bound s < length (elems s) + length (items s i) \<Longrightarrow>
          push i s = None"
    and pop_ok: "inv s \<Longrightarrow> n \<le> length (elems s) \<Longrightarrow>
          \<exists>s'. pop n s = Some s' \<and> inv s' \<and> bound s' = bound s \<and> elems s' = drop n (elems s)"
    and pop_empty: "inv s \<Longrightarrow> length (elems s) < n \<Longrightarrow> n \<le> bound s \<Longrightarrow> pop n s = None"
begin

lemma push_some:
  assumes "inv s" "valid i" "push i s = Some s'"
  shows "inv s'" "bound s' = bound s" "elems s' = elems s @ items s i"
  using push_ok [OF assms(1,2)] push_full [OF assms(1,2)] assms(3)
  by (cases "length (elems s) + length (items s i) \<le> bound s"; simp add: not_le)+

lemma pop_some:
  assumes "inv s" "n \<le> bound s" "pop n s = Some s'"
  shows "inv s'" "bound s' = bound s" "elems s' = drop n (elems s)" "n \<le> length (elems s)"
  using pop_ok [OF assms(1), of n] pop_empty [OF assms(1), of n] assms(2,3)
  by (cases "n \<le> length (elems s)"; simp add: not_le)+

text \<open>
  The history of a successful run: what is stored at the end is what was stored at the start
  followed by everything appended, without the oldest items dropped on the way.
\<close>

lemma run_history:
  assumes "inv s" "ops_valid valid (bound s) ops" "fifo_run push pop ops s = Some s'"
  shows "inv s'" "bound s' = bound s"
    "fifo_popped ops \<le> length (elems s @ fifo_pushed push pop items ops s)"
    "elems s' = drop (fifo_popped ops) (elems s @ fifo_pushed push pop items ops s)"
  using assms
proof (atomize (full), induction ops arbitrary: s)
  case Nil
  then show ?case by simp
next
  case (Cons op ops)
  show ?case
  proof (cases op)
    case (Push i)
    with Cons.prems obtain t where t: "push i s = Some t" "fifo_run push pop ops t = Some s'"
      by (auto split: bind_splits)
    note st = push_some [OF Cons.prems(1) _ t(1)]
    with Cons.prems Push t Cons.IH [of t] show ?thesis by simp
  next
    case (Pop n)
    with Cons.prems obtain t where t: "pop n s = Some t" "fifo_run push pop ops t = Some s'"
      by (auto split: bind_splits)
    note st = pop_some [OF Cons.prems(1) _ t(1)]
    with Cons.prems Pop t Cons.IH [of t] show ?thesis by (auto simp: add.commute)
  qed
qed

end

end
