(* ===== verification/Ufs_JSuper.thy ===== *)
theory Ufs_JSuper
  imports Ufs_Fifo
begin

text \<open>
  The journal superblock \<open>JSuper\<close> of \<open>cfs/include/FsProc_JSuper.h\<close>: a circular buffer of
  journal slots (head, tail, number of used slots, all \<open>uint64_t\<close>), the watermarks that
  decide when the superblock is written, and the padding that keeps every journal entry
  contiguous on disk. A failed \<open>assert\<close> and a division by a zero capacity are
  \<^const>\<open>None\<close>. Fields the source leaves uninitialised on a path are \<^const>\<open>None\<close> too.

  The abstract view of the ring is the list of used slots, oldest first; the operations
  refine append and drop on it. A step relation interleaves slot acquisition, superblock
  writes and checkpoints, and the invariant proved over it gives that no entry ever wraps
  around the end of the journal.
\<close>

subsection \<open>State\<close>

record JSuperOnDisk =
  jmagic :: u64
  jsuper_blockno :: u64
  jstart_blockno :: u64
  jend_blockno :: u64
  capacity :: u64
  n_used :: u64
  head :: u64
  tail :: u64
  last_chkpt_ts :: u64

record JSuper =
  djsuper :: JSuperOnDisk
  nblocks_unaccounted :: u64
  write_in_progress :: bool

record Slot =
  start_idx :: "u64 option"
  no_space :: bool
  write_jsuper :: "bool option"
  retry_after_jsuper_written :: bool

definition BSIZE :: nat where
  "BSIZE = 4096"

definition MAX_JOURNAL_ENTRY_SIZE :: nat where
  "MAX_JOURNAL_ENTRY_SIZE = 128 * 1024"

definition kMaxUnaccountedBlocks :: u64 where
  "kMaxUnaccountedBlocks = 200 * 1024 * 1024 div 4096"

definition kSoftMaxUnaccountedBlocks :: u64 where
  "kSoftMaxUnaccountedBlocks = kMaxUnaccountedBlocks * 8 div 10"

definition max_blocks :: u64 where
  "max_blocks = of_nat (MAX_JOURNAL_ENTRY_SIZE div BSIZE)"

lemma max_blocks_32 [simp]: "max_blocks = 32"
  by (simp add: max_blocks_def MAX_JOURNAL_ENTRY_SIZE_def BSIZE_def)

lemma kMax_51200 [simp]: "kMaxUnaccountedBlocks = 51200"
  by (simp add: kMaxUnaccountedBlocks_def)

lemma kSoftMax_40960 [simp]: "kSoftMaxUnaccountedBlocks = 40960"
  by (simp add: kSoftMaxUnaccountedBlocks_def)

subsection \<open>Operations\<close>

definition IdxToBlockNo :: "JSuperOnDisk \<Rightarrow> u64 \<Rightarrow> u64 option" where
  "IdxToBlockNo d idx =
     (if capacity d = 0 then None else Some (jstart_blockno d + idx mod capacity d))"

definition NoLoopArounds :: "JSuperOnDisk \<Rightarrow> u64 \<Rightarrow> u64 \<Rightarrow> bool option" where
  "NoLoopArounds d start nblocks = do {
     start_block \<leftarrow> IdxToBlockNo d start;
     end_block \<leftarrow> IdxToBlockNo d (start + nblocks - 1);
     Some (start_block < end_block) }"

definition UnsafeCanAllocateNSlots :: "JSuperOnDisk \<Rightarrow> u64 \<Rightarrow> bool" where
  "UnsafeCanAllocateNSlots d n \<longleftrightarrow> n_used d + n \<le> capacity d"

definition UnsafeShouldWriteJSuper :: "JSuper \<Rightarrow> bool" where
  "UnsafeShouldWriteJSuper s \<longleftrightarrow>
     nblocks_unaccounted s > kSoftMaxUnaccountedBlocks \<and> \<not> write_in_progress s"

definition UnsafeShouldWaitTillJSuperWritten :: "JSuper \<Rightarrow> bool" where
  "UnsafeShouldWaitTillJSuperWritten s \<longleftrightarrow> nblocks_unaccounted s \<ge> kMaxUnaccountedBlocks"

definition UnsafeNItemsEnqueued :: "u64 \<Rightarrow> JSuperOnDisk \<Rightarrow> JSuperOnDisk option" where
  "UnsafeNItemsEnqueued n d =
     (if n_used d + n \<le> capacity d \<and> capacity d \<noteq> 0
      then Some (d\<lparr>head := (head d + n) mod capacity d, n_used := n_used d + n\<rparr>)
      else None)"

definition UnsafeNItemsDequeued :: "u64 \<Rightarrow> JSuperOnDisk \<Rightarrow> JSuperOnDisk option" where
  "UnsafeNItemsDequeued n d =
     (if n \<le> n_used d \<and> capacity d \<noteq> 0
      then Some (d\<lparr>tail := (tail d + n) mod capacity d, n_used := n_used d - n\<rparr>)
      else None)"

definition UnsafeEnsureNextContiguousRegion ::
    "JSuperOnDisk \<Rightarrow> (u64 \<times> JSuperOnDisk) option" where
  "UnsafeEnsureNextContiguousRegion d = do {
     head_block \<leftarrow> IdxToBlockNo d (head d);
     let nblocks_till_end = jend_blockno d - head_block + 1;
     if nblocks_till_end > max_blocks then Some (0, d)
     else if UnsafeCanAllocateNSlots d nblocks_till_end then do {
       d' \<leftarrow> UnsafeNItemsEnqueued nblocks_till_end d;
       Some (nblocks_till_end, d') }
     else Some (0, d) }"

definition AcquireNextNSlots :: "u64 \<Rightarrow> JSuper \<Rightarrow> (Slot \<times> JSuper) option" where
  "AcquireNextNSlots n s =
     (let retry = UnsafeShouldWaitTillJSuperWritten s;
          full = \<not> UnsafeCanAllocateNSlots (djsuper s) n
      in if full \<or> retry
         then Some (\<lparr>start_idx = None, no_space = full, write_jsuper = None,
                     retry_after_jsuper_written = retry\<rparr>, s)
         else do {
           d1 \<leftarrow> UnsafeNItemsEnqueued n (djsuper s);
           (pad, d2) \<leftarrow> UnsafeEnsureNextContiguousRegion d1;
           let s' = s\<lparr>djsuper := d2, nblocks_unaccounted := nblocks_unaccounted s + n + pad\<rparr>;
           Some (\<lparr>start_idx = Some (head (djsuper s)), no_space = full,
                  write_jsuper = Some (UnsafeShouldWriteJSuper s'),
                  retry_after_jsuper_written = retry\<rparr>, s') })"

definition ReleaseFirstNSlots :: "u64 \<Rightarrow> JSuper \<Rightarrow> JSuper option" where
  "ReleaseFirstNSlots n s = do {
     d \<leftarrow> UnsafeNItemsDequeued n (djsuper s);
     Some (s\<lparr>djsuper := d, nblocks_unaccounted := nblocks_unaccounted s + n\<rparr>) }"

definition TrySetWriteInProgress :: "JSuper \<Rightarrow> ((JSuperOnDisk \<times> u64) \<times> JSuper) option" where
  "TrySetWriteInProgress s =
     (if write_in_progress s then None
      else Some ((djsuper s, nblocks_unaccounted s), s\<lparr>write_in_progress := True\<rparr>))"

definition OnWriteComplete :: "u64 \<Rightarrow> JSuper \<Rightarrow> JSuper option" where
  "OnWriteComplete old s =
     (if write_in_progress s \<and> old \<le> nblocks_unaccounted s
      then Some (s\<lparr>write_in_progress := False,
                   nblocks_unaccounted := nblocks_unaccounted s - old\<rparr>)
      else None)"

definition SetLastCheckpoint :: "u64 \<Rightarrow> JSuper \<Rightarrow> JSuper" where
  "SetLastCheckpoint ts s =
     s\<lparr>djsuper := (djsuper s)\<lparr>last_chkpt_ts := ts\<rparr>,
       nblocks_unaccounted := nblocks_unaccounted s + kSoftMaxUnaccountedBlocks\<rparr>"

definition SetDiskRepr :: "JSuperOnDisk \<Rightarrow> JSuper \<Rightarrow> JSuper" where
  "SetDiskRepr j s = s\<lparr>djsuper := j\<rparr>"

definition JSuper_of :: "JSuperOnDisk \<Rightarrow> JSuper" where
  "JSuper_of j = \<lparr>djsuper = j, nblocks_unaccounted = 0, write_in_progress = False\<rparr>"

definition Size :: "JSuper \<Rightarrow> u64" where
  [simp]: "Size s = n_used (djsuper s)"

definition Capacity :: "JSuper \<Rightarrow> u64" where
  [simp]: "Capacity s = capacity (djsuper s)"

definition Empty :: "JSuper \<Rightarrow> bool" where
  [simp]: "Empty s \<longleftrightarrow> n_used (djsuper s) = 0"

subsection \<open>Well-formed rings and their abstract view\<close>

abbreviation cap :: "JSuperOnDisk \<Rightarrow> nat" where
  "cap d \<equiv> unat (capacity d)"

definition wf_disk :: "JSuperOnDisk \<Rightarrow> bool" where
  "wf_disk d \<longleftrightarrow>
     0 < cap d \<and> cap d < 2 ^ 62 \<and> unat (jstart_blockno d) + cap d < 2 ^ 64 \<and>
     jend_blockno d = jstart_blockno d + capacity d - 1 \<and>
     unat (n_used d) \<le> cap d \<and> unat (head d) < cap d \<and> unat (tail d) < cap d \<and>
     unat (head d) = (unat (tail d) + unat (n_used d)) mod cap d"

definition slots_from :: "nat \<Rightarrow> nat \<Rightarrow> nat \<Rightarrow> nat list" where
  "slots_from c start n = map (\<lambda>i. (start + i) mod c) [0..<n]"

definition used_slots :: "JSuperOnDisk \<Rightarrow> nat list" where
  "used_slots d = slots_from (cap d) (unat (tail d)) (unat (n_used d))"

definition same_geometry :: "JSuperOnDisk \<Rightarrow> JSuperOnDisk \<Rightarrow> bool" where
  "same_geometry d e \<longleftrightarrow>
     jmagic e = jmagic d \<and> jsuper_blockno e = jsuper_blockno d \<and>
     jstart_blockno e = jstart_blockno d \<and> jend_blockno e = jend_blockno d \<and>
     capacity e = capacity d"

lemma same_geometry_refl [simp]: "same_geometry d d"
  by (simp add: same_geometry_def)

lemma same_geometry_trans: "same_geometry a b \<Longrightarrow> same_geometry b c \<Longrightarrow> same_geometry a c"
  by (simp add: same_geometry_def)

lemma slots_from_add:
  "slots_from c start (m + n) = slots_from c start m @ slots_from c ((start + m) mod c) n"
  by (rule nth_equalityI) (auto simp: slots_from_def nth_append mod_simps)

lemma slots_from_drop:
  "m \<le> n \<Longrightarrow> slots_from c ((start + m) mod c) (n - m) = drop m (slots_from c start n)"
  using slots_from_add [of c start m "n - m"] by (simp add: slots_from_def)

lemma length_slots_from [simp]: "length (slots_from c start n) = n"
  by (simp add: slots_from_def)

lemma length_used_slots [simp]: "length (used_slots d) = unat (n_used d)"
  by (simp add: used_slots_def)

lemma slots_from_distinct:
  assumes "n \<le> c"
  shows "distinct (slots_from c start n)"
proof -
  have eq: "i = j" if "i \<le> j" "j < n" "(start + i) mod c = (start + j) mod c" for i j
  proof -
    from that have "c dvd (start + j) - (start + i)"
      by (intro mod_eq_dvd_iff_nat [THEN iffD1]) auto
    with that assms show "i = j" by (auto dest: dvd_imp_le)
  qed
  have "i = j" if "i < n" "j < n" "(start + i) mod c = (start + j) mod c" for i j
    using eq [of i j] eq [of j i] that by linarith
  then show ?thesis by (simp add: slots_from_def distinct_map inj_on_def)
qed

lemma used_slots_distinct: "wf_disk d \<Longrightarrow> distinct (used_slots d)"
  by (simp add: used_slots_def slots_from_distinct wf_disk_def)

subsection \<open>The operations on well-formed rings\<close>

lemma word_of_add_mod:
  fixes x n c :: u64
  assumes "unat x < unat c" "unat n \<le> unat c" "unat c < 2 ^ 62"
  shows "unat ((x + n) mod c) = (unat x + unat n) mod unat c"
  using assms by (simp add: unat_mod_word unat_add_no_overflow)

lemma enqueued_wf:
  assumes "wf_disk d" "unat (n_used d) + unat n \<le> cap d"
  obtains d' where "UnsafeNItemsEnqueued n d = Some d'" "wf_disk d'" "same_geometry d d'"
    "tail d' = tail d" "unat (n_used d') = unat (n_used d) + unat n"
    "unat (head d') = (unat (head d) + unat n) mod cap d"
    "used_slots d' = used_slots d @ slots_from (cap d) (unat (head d)) (unat n)"
    "last_chkpt_ts d' = last_chkpt_ts d"
proof -
  let ?d' = "d\<lparr>head := (head d + n) mod capacity d, n_used := n_used d + n\<rparr>"
  have n: "unat (n_used d + n) = unat (n_used d) + unat n"
    using assms by (intro unat_add_no_overflow) (auto simp: wf_disk_def)
  have h: "unat ((head d + n) mod capacity d) = (unat (head d) + unat n) mod cap d"
    using assms by (intro word_of_add_mod) (auto simp: wf_disk_def)
  have "UnsafeNItemsEnqueued n d = Some ?d'"
    using assms n by (auto simp: UnsafeNItemsEnqueued_def word_le_nat_alt wf_disk_def)
  moreover have "wf_disk ?d'"
    using assms n h by (auto simp: wf_disk_def mod_simps add.assoc)
  moreover have "used_slots ?d' = used_slots d @ slots_from (cap d) (unat (head d)) (unat n)"
    using assms n by (simp add: used_slots_def slots_from_add wf_disk_def)
  ultimately show ?thesis
    using n h by (intro that [of ?d']) (auto simp: same_geometry_def)
qed

lemma dequeued_wf:
  assumes "wf_disk d" "unat n \<le> unat (n_used d)"
  obtains d' where "UnsafeNItemsDequeued n d = Some d'" "wf_disk d'" "same_geometry d d'"
    "head d' = head d" "unat (n_used d') = unat (n_used d) - unat n"
    "unat (tail d') = (unat (tail d) + unat n) mod cap d"
    "used_slots d' = drop (unat n) (used_slots d)"
proof -
  let ?d' = "d\<lparr>tail := (tail d + n) mod capacity d, n_used := n_used d - n\<rparr>"
  have n: "unat (n_used d - n) = unat (n_used d) - unat n"
    using assms by (intro unat_sub_no_underflow) (auto simp: word_le_nat_alt)
  have h: "unat ((tail d + n) mod capacity d) = (unat (tail d) + unat n) mod cap d"
    using assms by (intro word_of_add_mod) (auto simp: wf_disk_def)
  have "UnsafeNItemsDequeued n d = Some ?d'"
    using assms n by (auto simp: UnsafeNItemsDequeued_def word_le_nat_alt wf_disk_def)
  moreover have "((unat (tail d) + unat n) mod cap d + (unat (n_used d) - unat n)) mod cap d
                   = (unat (tail d) + unat (n_used d)) mod cap d"
    by (subst mod_add_left_eq) (use assms(2) in simp)
  then have "wf_disk ?d'"
    using assms n h by (auto simp: wf_disk_def)
  moreover have "used_slots ?d' = drop (unat n) (used_slots d)"
    using assms n h by (simp add: used_slots_def slots_from_drop)
  ultimately show ?thesis
    using n h by (intro that [of ?d']) (auto simp: same_geometry_def)
qed

lemma IdxToBlockNo_wf:
  assumes "wf_disk d" "unat i < cap d"
  shows "\<exists>b. IdxToBlockNo d i = Some b \<and> unat b = unat (jstart_blockno d) + unat i"
  using assms
  by (auto simp: IdxToBlockNo_def wf_disk_def unat_mod_word
      intro!: unat_add_no_overflow [THEN trans])

lemma jend_wf:
  assumes "wf_disk d"
  shows "unat (jend_blockno d) = unat (jstart_blockno d) + cap d - 1"
proof -
  have c: "unat (capacity d - 1) = cap d - 1"
    using assms by (subst unat_sub_no_underflow) (auto simp: wf_disk_def word_le_nat_alt)
  have "jend_blockno d = jstart_blockno d + (capacity d - 1)"
    using assms by (simp add: wf_disk_def)
  also have "unat \<dots> = unat (jstart_blockno d) + unat (capacity d - 1)"
    using assms c by (intro unat_add_no_overflow) (auto simp: wf_disk_def)
  finally show ?thesis using assms c by (simp add: wf_disk_def)
qed

text \<open>
  A position of the ring is contiguous when more than \<open>max_blocks\<close> slots lie between it and
  the end of the journal. If the tail is at such a position, the padding always fits and
  moves the head to one.
\<close>

definition contig :: "JSuperOnDisk \<Rightarrow> nat \<Rightarrow> bool" where
  "contig d i \<longleftrightarrow> i + 32 < cap d"

lemma till_end_wf:
  assumes "wf_disk d"
  obtains b where "IdxToBlockNo d (head d) = Some b"
    "unat (jend_blockno d - b + 1) = cap d - unat (head d)"
proof -
  from assms have hd: "unat (head d) < cap d" by (simp add: wf_disk_def)
  with IdxToBlockNo_wf [OF assms] obtain b where b: "IdxToBlockNo d (head d) = Some b"
    "unat b = unat (jstart_blockno d) + unat (head d)" by blast
  from assms have "unat (jstart_blockno d) + cap d < 2 ^ 64" by (simp add: wf_disk_def)
  with hd have "unat (jstart_blockno d + head d) = unat (jstart_blockno d) + unat (head d)"
    by (intro unat_add_no_overflow) simp
  with b(2) have c: "b = jstart_blockno d + head d" by (simp add: word_unat_eq_iff)
  have "jend_blockno d - b + 1 = capacity d - head d"
    using assms by (simp add: wf_disk_def c)
  also have "unat \<dots> = cap d - unat (head d)"
    using hd by (simp add: unat_sub_no_underflow word_le_nat_alt)
  finally show ?thesis using b(1) by (intro that [of b])
qed

lemma pad_fits:
  assumes "wf_disk d" "contig d (unat (tail d))" "\<not> contig d (unat (head d))"
  shows "unat (n_used d) + (cap d - unat (head d)) \<le> cap d"
proof -
  have "unat (tail d) + unat (n_used d) < cap d"
  proof (rule ccontr)
    assume "\<not> ?thesis"
    then have "(unat (tail d) + unat (n_used d)) mod cap d
                 = unat (tail d) + unat (n_used d) - cap d"
      using assms by (subst mod_if) (auto simp: wf_disk_def)
    with assms show False by (auto simp: wf_disk_def contig_def)
  qed
  with assms show ?thesis by (auto simp: wf_disk_def)
qed

lemma ensure_contiguous_wf:
  assumes "wf_disk d" "contig d (unat (tail d))"
  obtains pad d' where "UnsafeEnsureNextContiguousRegion d = Some (pad, d')" "wf_disk d'"
    "same_geometry d d'" "tail d' = tail d" "unat pad \<le> 32" "contig d' (unat (head d'))"
    "unat (n_used d') = unat (n_used d) + unat pad"
    "used_slots d' = used_slots d @ slots_from (cap d) (unat (head d)) (unat pad)"
proof -
  obtain b where b: "IdxToBlockNo d (head d) = Some b"
    "unat (jend_blockno d - b + 1) = cap d - unat (head d)"
    using assms(1) by (rule till_end_wf)
  let ?till = "jend_blockno d - b + 1"
  show ?thesis
  proof (cases "contig d (unat (head d))")
    case True
    then have "32 < cap d - unat (head d)" by (simp add: contig_def)
    with b have "UnsafeEnsureNextContiguousRegion d = Some (0, d)"
      by (simp add: UnsafeEnsureNextContiguousRegion_def Let_def word_less_nat_alt)
    with True assms show ?thesis
      by (intro that [of 0 d]) (auto simp: slots_from_def)
  next
    case False
    then have fits: "unat (n_used d) + unat ?till \<le> cap d"
      using pad_fits [OF assms] b by simp
    then have can: "UnsafeCanAllocateNSlots d ?till"
      using assms(1)
      by (subst UnsafeCanAllocateNSlots_def)
         (simp add: word_le_nat_alt unat_add_no_overflow wf_disk_def)
    obtain d' where d': "UnsafeNItemsEnqueued ?till d = Some d'" "wf_disk d'"
      "same_geometry d d'" "tail d' = tail d" "unat (n_used d') = unat (n_used d) + unat ?till"
      "unat (head d') = (unat (head d) + unat ?till) mod cap d"
      "used_slots d' = used_slots d @ slots_from (cap d) (unat (head d)) (unat ?till)"
      using assms(1) fits by (rule enqueued_wf)
    have "unat (head d) < cap d" using assms(1) by (simp add: wf_disk_def)
    with d'(6) b(2) have "unat (head d') = 0" by simp
    moreover have le: "unat ?till \<le> 32" using False b(2) by (simp add: contig_def)
    moreover from le have "UnsafeEnsureNextContiguousRegion d = Some (?till, d')"
      using b(1) can d'(1)
      by (simp add: UnsafeEnsureNextContiguousRegion_def Let_def word_less_nat_alt)
    ultimately show ?thesis
      using d' assms(2) by (intro that [of ?till d']) (auto simp: contig_def same_geometry_def)
  qed
qed

subsection \<open>Acquiring slots\<close>

lemma can_allocate_iff:
  assumes "wf_disk d" "unat n \<le> 2 ^ 62"
  shows "UnsafeCanAllocateNSlots d n \<longleftrightarrow> unat (n_used d) + unat n \<le> cap d"
  using assms
  by (simp add: UnsafeCanAllocateNSlots_def word_le_nat_alt unat_add_no_overflow wf_disk_def)

lemma acquire_abort:
  assumes "wf_disk (djsuper s)" "unat n \<le> 2 ^ 62"
    "nblocks_unaccounted s \<ge> 51200 \<or> cap (djsuper s) < unat (n_used (djsuper s)) + unat n"
  shows "\<exists>slot. AcquireNextNSlots n s = Some (slot, s) \<and> start_idx slot = None \<and>
           (no_space slot \<longleftrightarrow> cap (djsuper s) < unat (n_used (djsuper s)) + unat n) \<and>
           (retry_after_jsuper_written slot \<longleftrightarrow> nblocks_unaccounted s \<ge> 51200)"
  using assms
  by (auto simp: AcquireNextNSlots_def can_allocate_iff UnsafeShouldWaitTillJSuperWritten_def)

lemma acquire_wf:
  assumes "wf_disk (djsuper s)" "contig (djsuper s) (unat (tail (djsuper s)))" "unat n \<le> 32"
    "nblocks_unaccounted s < 51200" "unat (n_used (djsuper s)) + unat n \<le> cap (djsuper s)"
  obtains slot s' pad where "AcquireNextNSlots n s = Some (slot, s')"
    "start_idx slot = Some (head (djsuper s))" "\<not> no_space slot"
    "\<not> retry_after_jsuper_written slot"
    "write_jsuper slot = Some (UnsafeShouldWriteJSuper s')"
    "write_in_progress s' = write_in_progress s"
    "wf_disk (djsuper s')" "same_geometry (djsuper s) (djsuper s')"
    "tail (djsuper s') = tail (djsuper s)" "contig (djsuper s') (unat (head (djsuper s')))"
    "pad \<le> 32" "unat (n_used (djsuper s')) = unat (n_used (djsuper s)) + unat n + pad"
    "unat (nblocks_unaccounted s') = unat (nblocks_unaccounted s) + unat n + pad"
    "used_slots (djsuper s') = used_slots (djsuper s) @
       slots_from (cap (djsuper s)) (unat (head (djsuper s))) (unat n + pad)"
proof -
  let ?d = "djsuper s"
  obtain d1 where d1: "UnsafeNItemsEnqueued n ?d = Some d1" "wf_disk d1" "same_geometry ?d d1"
    "tail d1 = tail ?d" "unat (n_used d1) = unat (n_used ?d) + unat n"
    "unat (head d1) = (unat (head ?d) + unat n) mod cap ?d"
    "used_slots d1 = used_slots ?d @ slots_from (cap ?d) (unat (head ?d)) (unat n)"
    using assms(1,5) by (rule enqueued_wf)
  have ct: "contig d1 (unat (tail d1))"
    using d1(3,4) assms(2) by (simp add: contig_def same_geometry_def)
  obtain pad d2 where d2: "UnsafeEnsureNextContiguousRegion d1 = Some (pad, d2)" "wf_disk d2"
    "same_geometry d1 d2" "tail d2 = tail d1" "unat pad \<le> 32" "contig d2 (unat (head d2))"
    "unat (n_used d2) = unat (n_used d1) + unat pad"
    "used_slots d2 = used_slots d1 @ slots_from (cap d1) (unat (head d1)) (unat pad)"
    using d1(2) ct by (rule ensure_contiguous_wf)
  let ?s' = "s\<lparr>djsuper := d2, nblocks_unaccounted := nblocks_unaccounted s + n + pad\<rparr>"
  let ?slot = "\<lparr>start_idx = Some (head ?d), no_space = False,
                write_jsuper = Some (UnsafeShouldWriteJSuper ?s'),
                retry_after_jsuper_written = False\<rparr>"
  have "AcquireNextNSlots n s = Some (?slot, ?s')"
    using assms d1(1) d2(1)
    by (simp add: AcquireNextNSlots_def can_allocate_iff UnsafeShouldWaitTillJSuperWritten_def
        Let_def)
  moreover have "unat (nblocks_unaccounted s + n + pad)
                   = unat (nblocks_unaccounted s) + unat n + unat pad"
    using assms(3,4) d2(5) by (simp add: unat_add_no_overflow word_less_nat_alt)
  moreover have "slots_from (cap d1) (unat (head d1)) (unat pad)
                   = slots_from (cap ?d) ((unat (head ?d) + unat n) mod cap ?d) (unat pad)"
    using d1(3,6) by (simp add: same_geometry_def)
  ultimately show ?thesis
    using d1 d2
    by (intro that [of ?slot ?s' "unat pad"])
       (auto simp: slots_from_add same_geometry_def)
qed

subsection \<open>Staleness of a copy of the superblock\<close>

text \<open>
  \<open>stale d e k\<close>: the ring \<open>e\<close> was reached from the copy \<open>d\<close> by adding slots at the head and
  releasing slots at the tail, at most \<open>k\<close> of them together.
\<close>

definition stale :: "JSuperOnDisk \<Rightarrow> JSuperOnDisk \<Rightarrow> nat \<Rightarrow> bool" where
  "stale d e k \<longleftrightarrow>
     (\<exists>r new. used_slots e = drop r (used_slots d @ new) \<and> r + length new \<le> k \<and>
        r \<le> length (used_slots d @ new))"

lemma stale_refl [simp]: "stale d d k"
  unfolding stale_def by (intro exI [of _ 0] exI [of _ "[]"]) simp

lemma stale_mono: "stale d e k \<Longrightarrow> k \<le> l \<Longrightarrow> stale d e l"
  unfolding stale_def by (meson le_trans)

lemma stale_append:
  assumes "stale d e k" "used_slots e' = used_slots e @ xs" "k + length xs \<le> l"
  shows "stale d e' l"
proof -
  from assms(1) obtain r new where e: "used_slots e = drop r (used_slots d @ new)"
    "r + length new \<le> k" "r \<le> length (used_slots d @ new)" by (auto simp: stale_def)
  have "used_slots e' = drop r (used_slots d @ (new @ xs))"
    using e(3) by (simp add: assms(2) e(1))
  with e assms(3) show ?thesis unfolding stale_def by fastforce
qed

lemma stale_drop:
  assumes "stale d e k" "used_slots e' = drop n (used_slots e)" "n \<le> length (used_slots e)"
    "k + n \<le> l"
  shows "stale d e' l"
proof -
  from assms(1) obtain r new where e: "used_slots e = drop r (used_slots d @ new)"
    "r + length new \<le> k" "r \<le> length (used_slots d @ new)" by (auto simp: stale_def)
  have "used_slots e' = drop (n + r) (used_slots d @ new)"
    by (simp only: assms(2) e(1) drop_drop)
  moreover have "n + r \<le> length (used_slots d @ new)" using assms(3) e by simp
  ultimately show ?thesis using e assms(4) unfolding stale_def by fastforce
qed

lemma stale_same: "stale d e k \<Longrightarrow> used_slots e' = used_slots e \<Longrightarrow> stale d e' k"
  by (simp add: stale_def)

subsection \<open>The superblock in operation\<close>

text \<open>
  One journal with its superblock: the object in memory, the copy last written to the
  device, the copy handed to a write that is still in flight (with the amount
  \<open>OnWriteComplete\<close> will subtract), and the number of used slots a checkpoint in progress
  has recorded (\<open>CheckpointInput::n_used\<close>). The steps are the calls the journal manager
  makes, in any order: acquiring the blocks of an entry, starting and completing a write of
  the superblock (\<open>WriteJSuper\<close>), and preparing, completing and abandoning a checkpoint.
\<close>

record JSys =
  mem :: JSuper
  disk :: JSuperOnDisk
  in_flight :: "(JSuperOnDisk \<times> u64) option"
  snapshot :: "u64 option"

definition jsys_init :: "JSuperOnDisk \<Rightarrow> JSys" where
  "jsys_init d = \<lparr>mem = JSuper_of d, disk = d, in_flight = None, snapshot = None\<rparr>"

inductive jreach :: "JSuperOnDisk \<Rightarrow> nat \<Rightarrow> JSys \<Rightarrow> bool" for d0 where
  j_init: "jreach d0 0 (jsys_init d0)"
| j_acquire: "jreach d0 m s \<Longrightarrow> 2 \<le> unat n \<Longrightarrow> unat n \<le> 32 \<Longrightarrow>
    AcquireNextNSlots n (mem s) = Some (slot, j) \<Longrightarrow> jreach d0 m (s\<lparr>mem := j\<rparr>)"
| j_write: "jreach d0 m s \<Longrightarrow> TrySetWriteInProgress (mem s) = Some (copy, j) \<Longrightarrow>
    jreach d0 m (s\<lparr>mem := j, in_flight := Some copy\<rparr>)"
| j_complete: "jreach d0 m s \<Longrightarrow> in_flight s = Some (d, old) \<Longrightarrow>
    OnWriteComplete old (mem s) = Some j \<Longrightarrow>
    jreach d0 m (s\<lparr>mem := j, disk := d, in_flight := None\<rparr>)"
| j_prepare: "jreach d0 m s \<Longrightarrow> snapshot s = None \<Longrightarrow>
    jreach d0 m (s\<lparr>snapshot := Some (Size (mem s))\<rparr>)"
| j_checkpointed: "jreach d0 m s \<Longrightarrow> snapshot s = Some k \<Longrightarrow>
    ReleaseFirstNSlots k (mem s) = Some j \<Longrightarrow>
    jreach d0 (Suc m) (s\<lparr>mem := SetLastCheckpoint ts j, snapshot := None\<rparr>)"
| j_abandoned: "jreach d0 m s \<Longrightarrow> snapshot s = Some k \<Longrightarrow> jreach d0 m (s\<lparr>snapshot := None\<rparr>)"

text \<open>
  \<open>unaccounted_bound\<close>: the largest value of \<open>nblocks_unaccounted_\<close> after \<open>m\<close> checkpoints.
\<close>

definition unaccounted_bound :: "JSuperOnDisk \<Rightarrow> nat \<Rightarrow> nat" where
  "unaccounted_bound d m = 51263 + m * (cap d + 40960)"

definition boot_ok :: "JSuperOnDisk \<Rightarrow> bool" where
  "boot_ok d \<longleftrightarrow> wf_disk d \<and> n_used d = 0 \<and> contig d (unat (head d))"

text \<open>
  \<open>flight_ok\<close>: what an unfinished superblock write holds lags behind the ring by at most the
  blocks that \<open>OnWriteComplete\<close> will leave unaccounted. \<open>snap_ok\<close>: the slots a checkpoint will
  release are in use and end at a contiguous position.
\<close>

definition flight_ok :: "JSuperOnDisk \<Rightarrow> nat \<Rightarrow> (JSuperOnDisk \<times> u64) option \<Rightarrow> bool" where
  "flight_ok e k fl \<longleftrightarrow>
     (\<forall>(d, old) \<in> set_option fl. unat old \<le> k \<and> stale d e (k - unat old))"

definition snap_ok :: "JSuperOnDisk \<Rightarrow> u64 option \<Rightarrow> bool" where
  "snap_ok d snap \<longleftrightarrow>
     (\<forall>k \<in> set_option snap. unat k \<le> unat (n_used d) \<and>
        contig d ((unat (tail d) + unat k) mod cap d))"

lemma flight_ok_simps [simp]:
  "flight_ok e k None" "flight_ok e k (Some (d, old)) \<longleftrightarrow> unat old \<le> k \<and> stale d e (k - unat old)"
  by (simp_all add: flight_ok_def)

lemma snap_ok_simps [simp]:
  "snap_ok d None"
  "snap_ok d (Some k) \<longleftrightarrow> unat k \<le> unat (n_used d) \<and> contig d ((unat (tail d) + unat k) mod cap d)"
  by (simp_all add: snap_ok_def)

lemma flight_ok_step:
  assumes "flight_ok e k fl" "\<And>d x. stale d e x \<Longrightarrow> stale d e' (x + a)"
  shows "flight_ok e' (k + a) fl"
  using assms(1)
proof (cases fl)
  case (Some p)
  obtain d old where p: "p = (d, old)" by (cases p)
  with Some assms(1) have old: "unat old \<le> k" "stale d e (k - unat old)" by auto
  then have "stale d e' (k + a - unat old)"
    using assms(2) [of d "k - unat old"] by simp
  with Some p old show ?thesis by simp
qed simp

definition jinv :: "JSuperOnDisk \<Rightarrow> nat \<Rightarrow> JSys \<Rightarrow> bool" where
  "jinv d0 m s \<longleftrightarrow>
     (let d = djsuper (mem s); k = unat (nblocks_unaccounted (mem s)) in
        wf_disk d \<and> same_geometry d0 d \<and> contig d (unat (tail d)) \<and> contig d (unat (head d)) \<and>
        k \<le> unaccounted_bound d0 m \<and> stale (disk s) d k \<and>
        (write_in_progress (mem s) \<longleftrightarrow> in_flight s \<noteq> None) \<and>
        flight_ok d k (in_flight s) \<and> snap_ok d (snapshot s))"

lemma jinv_init: "boot_ok d0 \<Longrightarrow> jinv d0 0 (jsys_init d0)"
  by (auto simp: jinv_def Let_def boot_ok_def jsys_init_def JSuper_of_def wf_disk_def)

lemma jinv_acquire:
  assumes "jinv d0 m s" "unat n \<le> 32" "AcquireNextNSlots n (mem s) = Some (slot, j)"
  shows "jinv d0 m (s\<lparr>mem := j\<rparr>)"
proof (cases "nblocks_unaccounted (mem s) < 51200 \<and>
              unat (n_used (djsuper (mem s))) + unat n \<le> cap (djsuper (mem s))")
  case False
  then have "nblocks_unaccounted (mem s) \<ge> 51200 \<or>
             cap (djsuper (mem s)) < unat (n_used (djsuper (mem s))) + unat n" by auto
  with acquire_abort [of "mem s" n] assms have "j = mem s" by (auto simp: jinv_def Let_def)
  with assms(1) show ?thesis by simp
next
  case True
  with assms have pre: "wf_disk (djsuper (mem s))"
    "contig (djsuper (mem s)) (unat (tail (djsuper (mem s))))" "unat n \<le> 32"
    "nblocks_unaccounted (mem s) < 51200"
    "unat (n_used (djsuper (mem s))) + unat n \<le> cap (djsuper (mem s))"
    by (auto simp: jinv_def Let_def)
  obtain pad where j:
    "write_in_progress j = write_in_progress (mem s)"
    "wf_disk (djsuper j)" "same_geometry (djsuper (mem s)) (djsuper j)"
    "tail (djsuper j) = tail (djsuper (mem s))" "contig (djsuper j) (unat (head (djsuper j)))"
    "pad \<le> 32" "unat (n_used (djsuper j)) = unat (n_used (djsuper (mem s))) + unat n + pad"
    "unat (nblocks_unaccounted j) = unat (nblocks_unaccounted (mem s)) + unat n + pad"
    "used_slots (djsuper j) = used_slots (djsuper (mem s)) @
       slots_from (cap (djsuper (mem s))) (unat (head (djsuper (mem s)))) (unat n + pad)"
    by (rule acquire_wf [OF pre]) (use assms(3) in \<open>auto intro: that\<close>)
  have le: "unat (nblocks_unaccounted (mem s)) \<le> 51199"
    using True by (simp add: word_less_nat_alt)
  then have bound: "unat (nblocks_unaccounted j) \<le> unaccounted_bound d0 m"
    using j(6,8) assms(2) by (simp add: unaccounted_bound_def)
  have geom: "same_geometry d0 (djsuper j)" "capacity (djsuper j) = capacity (djsuper (mem s))"
    using assms(1) j(3) by (auto simp: jinv_def Let_def same_geometry_def)
  have st: "stale d (djsuper j) (x + (unat n + pad))" if "stale d (djsuper (mem s)) x" for d x
    by (intro stale_append [OF that j(9)]) simp
  have nb: "unat (nblocks_unaccounted j) = unat (nblocks_unaccounted (mem s)) + (unat n + pad)"
    using j(8) by simp
  have "flight_ok (djsuper (mem s)) (unat (nblocks_unaccounted (mem s))) (in_flight s)"
    using assms(1) by (simp add: jinv_def Let_def)
  then have "flight_ok (djsuper j) (unat (nblocks_unaccounted j)) (in_flight s)"
    unfolding nb using st by (rule flight_ok_step)
  moreover have "snap_ok (djsuper j) (snapshot s)"
    using assms(1) j(4,7) geom(2) by (cases "snapshot s") (auto simp: jinv_def Let_def contig_def)
  moreover have "stale (disk s) (djsuper j) (unat (nblocks_unaccounted j))"
    using assms(1) st by (simp add: jinv_def Let_def nb)
  ultimately show ?thesis
    using assms(1) j(1-5) geom bound by (simp add: jinv_def Let_def contig_def)
qed

lemma jinv_write:
  assumes "jinv d0 m s" "TrySetWriteInProgress (mem s) = Some (copy, j)"
  shows "jinv d0 m (s\<lparr>mem := j, in_flight := Some copy\<rparr>)"
  using assms
  by (auto simp: jinv_def Let_def TrySetWriteInProgress_def split: if_splits)

lemma jinv_complete:
  assumes "jinv d0 m s" "in_flight s = Some (d, old)" "OnWriteComplete old (mem s) = Some j"
  shows "jinv d0 m (s\<lparr>mem := j, disk := d, in_flight := None\<rparr>)"
  using assms
  by (auto simp: jinv_def Let_def OnWriteComplete_def unat_sub_no_underflow split: if_splits)

lemma jinv_prepare:
  assumes "jinv d0 m s"
  shows "jinv d0 m (s\<lparr>snapshot := Some (Size (mem s))\<rparr>)"
proof -
  from assms have "wf_disk (djsuper (mem s))" by (simp add: jinv_def Let_def)
  then have "unat (head (djsuper (mem s)))
      = (unat (tail (djsuper (mem s))) + unat (n_used (djsuper (mem s)))) mod cap (djsuper (mem s))"
    by (simp add: wf_disk_def)
  with assms show ?thesis by (simp add: jinv_def Let_def)
qed

lemma jinv_abandoned: "jinv d0 m s \<Longrightarrow> jinv d0 m (s\<lparr>snapshot := None\<rparr>)"
  by (simp add: jinv_def Let_def)

text \<open>
  The bound on \<open>nblocks_unaccounted_\<close> keeps the \<open>uint64_t\<close> counter from wrapping, so the
  release of a checkpoint only ever increases it.
\<close>

lemma jinv_checkpointed:
  assumes "jinv d0 m s" "snapshot s = Some k" "unaccounted_bound d0 (Suc m) < 2 ^ 64"
    "ReleaseFirstNSlots k (mem s) = Some j"
  shows "jinv d0 (Suc m) (s\<lparr>mem := SetLastCheckpoint ts j, snapshot := None\<rparr>)"
proof -
  let ?d = "djsuper (mem s)"
  let ?j = "SetLastCheckpoint ts j"
  from assms have pre: "wf_disk ?d" "unat k \<le> unat (n_used ?d)" by (auto simp: jinv_def Let_def)
  then obtain d' where d': "UnsafeNItemsDequeued k ?d = Some d'" "wf_disk d'"
    "same_geometry ?d d'" "head d' = head ?d" "unat (n_used d') = unat (n_used ?d) - unat k"
    "unat (tail d') = (unat (tail ?d) + unat k) mod cap ?d"
    "used_slots d' = drop (unat k) (used_slots ?d)"
    by (rule dequeued_wf)
  have jd: "djsuper ?j = d'\<lparr>last_chkpt_ts := ts\<rparr>" "write_in_progress ?j = write_in_progress (mem s)"
    "nblocks_unaccounted ?j = nblocks_unaccounted (mem s) + k + 40960"
    using assms(4) d'(1) by (auto simp: ReleaseFirstNSlots_def SetLastCheckpoint_def)
  have kc: "unat k \<le> cap d0"
    using pre assms(1) by (auto simp: jinv_def Let_def wf_disk_def same_geometry_def)
  have old: "unat (nblocks_unaccounted (mem s)) \<le> unaccounted_bound d0 m"
    using assms(1) by (simp add: jinv_def Let_def)
  have nb: "unat (nblocks_unaccounted ?j) = unat (nblocks_unaccounted (mem s)) + unat k + 40960"
    using assms(3) kc old by (simp add: jd unaccounted_bound_def unat_add_no_overflow)
  have used: "used_slots (djsuper ?j) = drop (unat k) (used_slots ?d)"
    using d'(7) by (simp add: jd used_slots_def)
  have st: "stale d (djsuper ?j) (x + (unat k + 40960))" if "stale d ?d x" for d x
    using pre(2) by (intro stale_drop [OF that used]) simp_all
  have bound: "unat (nblocks_unaccounted ?j) \<le> unaccounted_bound d0 (Suc m)"
    using old kc by (simp add: nb unaccounted_bound_def)
  have wf: "wf_disk (djsuper ?j)" using d'(2) by (simp add: jd wf_disk_def)
  have geom: "same_geometry d0 (djsuper ?j)"
    using assms(1) d'(3) by (simp add: jd jinv_def Let_def same_geometry_def)
  have "contig ?d ((unat (tail ?d) + unat k) mod cap ?d)" "contig ?d (unat (head ?d))"
    using assms(1,2) by (simp_all add: jinv_def Let_def)
  then have ct: "contig (djsuper ?j) (unat (tail (djsuper ?j)))"
    "contig (djsuper ?j) (unat (head (djsuper ?j)))"
    using d'(3,4,6) by (simp_all add: jd same_geometry_def contig_def)
  have nb': "unat (nblocks_unaccounted ?j) = unat (nblocks_unaccounted (mem s)) + (unat k + 40960)"
    using nb by simp
  have "flight_ok ?d (unat (nblocks_unaccounted (mem s))) (in_flight s)"
    using assms(1) by (simp add: jinv_def Let_def)
  then have "flight_ok (djsuper ?j) (unat (nblocks_unaccounted ?j)) (in_flight s)"
    unfolding nb' using st by (rule flight_ok_step)
  moreover have "stale (disk s) (djsuper ?j) (unat (nblocks_unaccounted ?j))"
    using assms(1) st by (simp add: jinv_def Let_def nb')
  ultimately show ?thesis
    using assms(1) wf geom ct bound jd(2) by (simp add: jinv_def Let_def)
qed

lemma jreach_inv:
  assumes "jreach d0 m s" "boot_ok d0" "unaccounted_bound d0 m < 2 ^ 64"
  shows "jinv d0 m s"
  using assms
proof (induction rule: jreach.induct)
  case (j_checkpointed m s k j ts)
  then have "unaccounted_bound d0 m < 2 ^ 64" by (simp add: unaccounted_bound_def)
  with j_checkpointed show ?case by (intro jinv_checkpointed) auto
qed (auto intro: jinv_init jinv_acquire jinv_write jinv_complete jinv_abandoned
      jinv_prepare [unfolded Size_def])

subsection \<open>Correctness properties\<close>

text \<open>A ring whose head and tail are at contiguous positions.\<close>

definition ring_ok :: "JSuperOnDisk \<Rightarrow> bool" where
  "ring_ok d \<longleftrightarrow> wf_disk d \<and> contig d (unat (tail d)) \<and> contig d (unat (head d))"

lemma jinv_ring_ok: "jinv d0 m s \<Longrightarrow> ring_ok (djsuper (mem s))"
  by (simp add: jinv_def Let_def ring_ok_def)

lemma acquired_from_ring:
  assumes "ring_ok (djsuper s)" "unat n \<le> 32" "AcquireNextNSlots n s = Some (slot, j)"
    "start_idx slot = Some i"
  obtains pad where "i = head (djsuper s)" "same_geometry (djsuper s) (djsuper j)"
    "ring_ok (djsuper j)"
    "used_slots (djsuper j) = used_slots (djsuper s) @
       slots_from (cap (djsuper s)) (unat i) (unat n + pad)"
    "write_jsuper slot = Some (UnsafeShouldWriteJSuper j)"
proof -
  have wf: "wf_disk (djsuper s)" "contig (djsuper s) (unat (tail (djsuper s)))"
    using assms(1) by (simp_all add: ring_ok_def)
  have n: "unat n \<le> 2 ^ 62" using assms(2) by simp
  have room: "\<not> (nblocks_unaccounted s \<ge> 51200 \<or> cap (djsuper s) < unat (n_used (djsuper s)) + unat n)"
    using acquire_abort [OF wf(1) n] assms(3,4) by (metis Pair_inject option.distinct(1) option.inject)
  then have "nblocks_unaccounted s < 51200"
    "unat (n_used (djsuper s)) + unat n \<le> cap (djsuper s)" by (auto simp: not_le)
  with wf assms(2) show ?thesis
    by (rule acquire_wf)
       (use assms(3,4) wf in \<open>auto simp: ring_ok_def same_geometry_def contig_def intro: that\<close>)
qed

lemma slots_from_no_wrap:
  "a + n \<le> c \<Longrightarrow> slots_from c a n = [a..<a + n]"
  by (rule nth_equalityI) (auto simp: slots_from_def)

text \<open>The blocks of an acquired range, on the ring before (\<open>d\<close>) and after (\<open>e\<close>).\<close>

lemma range_blocks:
  assumes "contig d (unat i)" "wf_disk e" "same_geometry d e" "k < 32"
  shows "\<exists>b. IdxToBlockNo e (i + of_nat k) = Some b \<and>
           unat b = unat (jstart_blockno d) + unat i + k \<and> b \<le> jend_blockno d"
proof -
  have c: "unat i + 32 < cap e" "cap e < 2 ^ 62"
    using assms(1-3) by (simp_all add: contig_def same_geometry_def wf_disk_def)
  have "unat (i + of_nat k) = unat i + k"
    using c assms(4) by (subst unat_add_no_overflow) (auto simp: unat_of_nat)
  with IdxToBlockNo_wf [OF assms(2), of "i + of_nat k"] c assms(3,4) jend_wf [OF assms(2)]
  show ?thesis by (auto simp: same_geometry_def word_le_nat_alt)
qed

lemma range_no_loop:
  assumes "contig d (unat i)" "wf_disk e" "same_geometry d e" "2 \<le> unat n" "unat n \<le> 32"
  shows "NoLoopArounds e i n = Some True"
proof -
  have "i + of_nat (unat n - 1) = i + n - 1" using assms(4) by (simp add: of_nat_diff)
  moreover have "unat n - 1 < 32" using assms(4,5) by simp
  ultimately obtain b where b: "IdxToBlockNo e (i + n - 1) = Some b"
    "unat b = unat (jstart_blockno d) + unat i + (unat n - 1)"
    using range_blocks [OF assms(1-3), of "unat n - 1"] by metis
  from range_blocks [OF assms(1-3), of 0] obtain a where "IdxToBlockNo e i = Some a"
    "unat a = unat (jstart_blockno d) + unat i" by auto
  with b assms(4) show ?thesis by (simp add: NoLoopArounds_def word_less_nat_alt)
qed

text \<open>C2: No journal entry wraps around. In every state the journal reaches from a clean
  boot, by any interleaving of entry submissions, superblock writes and checkpoints, when an
  acquisition of 2 to 32 blocks succeeds at index \<open>i\<close>, the \<open>NoLoopArounds\<close> assertion of
  \<open>tryNextTransaction\<close> holds, the blocks of the entry are the consecutive device blocks from
  \<open>jstart_blockno + i\<close> on, none lies behind \<open>jend_blockno\<close>, and no slot of the entry was in
  use before. The hypothesis on the number of finished checkpoints keeps the 64-bit counter of
  unaccounted blocks from wrapping.\<close>

theorem acquire_never_wraps:
  assumes "jreach d0 m s" "boot_ok d0" "unaccounted_bound d0 m < 2 ^ 64"
    "2 \<le> unat n" "unat n \<le> 32"
    "AcquireNextNSlots n (mem s) = Some (slot, j)" "start_idx slot = Some i"
  shows "NoLoopArounds (djsuper j) i n = Some True \<and>
         (\<forall>k < unat n. \<exists>b. IdxToBlockNo (djsuper j) (i + of_nat k) = Some b \<and>
            unat b = unat (jstart_blockno d0) + unat i + k \<and> b \<le> jend_blockno d0 \<and>
            unat i + k \<notin> set (used_slots (djsuper (mem s))))"
proof -
  let ?d = "djsuper (mem s)"
  have inv: "jinv d0 m s" using assms(1-3) by (rule jreach_inv)
  obtain pad where
    i: "i = head ?d" and geom: "same_geometry ?d (djsuper j)" and ring': "ring_ok (djsuper j)"
    and used: "used_slots (djsuper j) = used_slots ?d @ slots_from (cap ?d) (unat i) (unat n + pad)"
    using jinv_ring_ok [OF inv] assms(5-7) by (rule acquired_from_ring)
  have wf': "wf_disk (djsuper j)" using ring' by (simp add: ring_ok_def)
  have geom0: "same_geometry d0 (djsuper j)"
    using inv geom by (auto simp: jinv_def Let_def intro: same_geometry_trans)
  have room: "contig d0 (unat i)"
    using inv by (auto simp: i jinv_def Let_def contig_def same_geometry_def)
  have fresh: "unat i + k \<notin> set (used_slots ?d)" if "k < unat n" for k
  proof -
    have "unat i + 32 < cap ?d" using room geom geom0 by (simp add: contig_def same_geometry_def)
    then have "unat i + k \<in> set (slots_from (cap ?d) (unat i) (unat n + pad))"
      using that assms(5) slots_from_no_wrap [of "unat i" "unat n" "cap ?d"]
      by (simp add: slots_from_add)
    with used_slots_distinct [OF wf'] used show ?thesis by auto
  qed
  have "NoLoopArounds (djsuper j) i n = Some True"
    using room wf' geom0 assms(4,5) by (rule range_no_loop)
  moreover have "\<exists>b. IdxToBlockNo (djsuper j) (i + of_nat k) = Some b \<and>
      unat b = unat (jstart_blockno d0) + unat i + k \<and> b \<le> jend_blockno d0 \<and>
      unat i + k \<notin> set (used_slots ?d)" if "k < unat n" for k
    using range_blocks [OF room wf' geom0, of k] fresh [OF that] that assms(5) by auto
  ultimately show ?thesis by blast
qed

definition demo_journal :: JSuperOnDisk where
  "demo_journal = \<lparr>jmagic = 0xBEEFBEEFBEEFBEEF, jsuper_blockno = 999, jstart_blockno = 1000,
     jend_blockno = 1099, capacity = 100, n_used = 0, head = 0, tail = 0, last_chkpt_ts = 0\<rparr>"

lemma demo_journal_ok:
  "boot_ok demo_journal" "jreach demo_journal 0 (jsys_init demo_journal)"
  "unaccounted_bound demo_journal 0 < 2 ^ 64"
  by (simp_all add: boot_ok_def wf_disk_def contig_def demo_journal_def unaccounted_bound_def
      jreach.j_init)

theorem acquire_never_wraps_witness:
  "\<exists>slot j. AcquireNextNSlots 3 (JSuper_of demo_journal) = Some (slot, j) \<and>
     start_idx slot = Some 0 \<and> NoLoopArounds (djsuper j) 0 3 = Some True"
proof -
  have mem: "mem (jsys_init demo_journal) = JSuper_of demo_journal" by (simp add: jsys_init_def)
  have "map_option (\<lambda>(slot, j). start_idx slot) (AcquireNextNSlots 3 (JSuper_of demo_journal))
          = Some (Some 0)"
    by (simp add: AcquireNextNSlots_def UnsafeCanAllocateNSlots_def JSuper_of_def
        demo_journal_def UnsafeShouldWaitTillJSuperWritten_def UnsafeNItemsEnqueued_def
        UnsafeEnsureNextContiguousRegion_def IdxToBlockNo_def Let_def)
  then obtain slot j where a: "AcquireNextNSlots 3 (JSuper_of demo_journal) = Some (slot, j)"
    "start_idx slot = Some 0" by auto
  then have "AcquireNextNSlots 3 (mem (jsys_init demo_journal)) = Some (slot, j)" by (simp add: mem)
  from acquire_never_wraps [OF demo_journal_ok(2,1,3) _ _ this a(2)] a show ?thesis by simp
qed

text \<open>C9: No assertion of the superblock fails. In every reachable state, acquiring any number
  of blocks up to the entry limit returns a slot or a refusal, completing the superblock write
  that is in flight succeeds (\<open>write_in_progress_\<close> is set and the subtraction does not
  underflow), and the release that a successful checkpoint makes covers slots in use.\<close>

theorem jsuper_asserts_hold:
  assumes "jreach d0 m s" "boot_ok d0" "unaccounted_bound d0 m < 2 ^ 64"
  shows "(\<forall>n. unat n \<le> 32 \<longrightarrow> AcquireNextNSlots n (mem s) \<noteq> None) \<and>
         (\<forall>d old. in_flight s = Some (d, old) \<longrightarrow> OnWriteComplete old (mem s) \<noteq> None) \<and>
         (\<forall>k. snapshot s = Some k \<longrightarrow> ReleaseFirstNSlots k (mem s) \<noteq> None)"
proof (intro conjI allI impI)
  have inv: "jinv d0 m s" using assms by (rule jreach_inv)
  then have wf: "wf_disk (djsuper (mem s))"
    "contig (djsuper (mem s)) (unat (tail (djsuper (mem s))))" by (simp_all add: jinv_def Let_def)
  show "AcquireNextNSlots n (mem s) \<noteq> None" if n: "unat n \<le> 32" for n
  proof (cases "nblocks_unaccounted (mem s) < 51200 \<and>
                unat (n_used (djsuper (mem s))) + unat n \<le> cap (djsuper (mem s))")
    case True
    then have "nblocks_unaccounted (mem s) < 51200"
      "unat (n_used (djsuper (mem s))) + unat n \<le> cap (djsuper (mem s))" by simp_all
    with wf n show ?thesis by (rule acquire_wf) simp
  next
    case False
    then have "nblocks_unaccounted (mem s) \<ge> 51200 \<or>
               cap (djsuper (mem s)) < unat (n_used (djsuper (mem s))) + unat n" by auto
    moreover have "unat n \<le> 2 ^ 62" using n by simp
    ultimately show ?thesis using acquire_abort [OF wf(1)] by fastforce
  qed
  show "OnWriteComplete old (mem s) \<noteq> None" if "in_flight s = Some (d, old)" for d old
    using inv that by (simp add: jinv_def Let_def OnWriteComplete_def word_le_nat_alt)
  show "ReleaseFirstNSlots k (mem s) \<noteq> None" if "snapshot s = Some k" for k
  proof -
    have "unat k \<le> unat (n_used (djsuper (mem s)))"
      using inv that by (simp add: jinv_def Let_def)
    with wf(1) show ?thesis by (rule dequeued_wf) (simp add: ReleaseFirstNSlots_def)
  qed
qed

theorem jsuper_asserts_hold_witness:
  "AcquireNextNSlots 32 (JSuper_of demo_journal) \<noteq> None"
proof -
  have mem: "mem (jsys_init demo_journal) = JSuper_of demo_journal" by (simp add: jsys_init_def)
  from jsuper_asserts_hold [OF demo_journal_ok(2,1,3)]
  have "unat (32 :: u64) \<le> 32 \<longrightarrow> AcquireNextNSlots 32 (JSuper_of demo_journal) \<noteq> None"
    unfolding mem by blast
  then show ?thesis by simp
qed

subsection \<open>The ring as a bounded queue of slots\<close>

text \<open>
  \<open>UnsafeNItemsEnqueued\<close> and \<open>UnsafeNItemsDequeued\<close> implement a bounded queue of slot numbers
  on the view \<^const>\<open>used_slots\<close>.
\<close>

definition ring_items :: "JSuperOnDisk \<Rightarrow> u64 \<Rightarrow> nat list" where
  "ring_items d n = slots_from (cap d) (unat (head d)) (unat n)"

definition ring_pop :: "nat \<Rightarrow> JSuperOnDisk \<Rightarrow> JSuperOnDisk option" where
  "ring_pop n = UnsafeNItemsDequeued (of_nat n)"

definition ring_valid :: "u64 \<Rightarrow> bool" where
  "ring_valid n \<longleftrightarrow> unat n \<le> 2 ^ 62"

lemma enqueue_refused:
  assumes "wf_disk d" "ring_valid n" "cap d < unat (n_used d) + unat n"
  shows "UnsafeNItemsEnqueued n d = None"
  using assms can_allocate_iff [of d n]
  by (simp add: UnsafeNItemsEnqueued_def UnsafeCanAllocateNSlots_def ring_valid_def)

interpretation ring: bounded_fifo wf_disk used_slots cap ring_valid ring_items
  UnsafeNItemsEnqueued ring_pop
proof
  show "length (used_slots d) \<le> cap d" if "wf_disk d" for d
    using that by (simp add: wf_disk_def)
  show "\<exists>d'. UnsafeNItemsEnqueued n d = Some d' \<and> wf_disk d' \<and> cap d' = cap d \<and>
          used_slots d' = used_slots d @ ring_items d n"
    if "wf_disk d" "ring_valid n" "length (used_slots d) + length (ring_items d n) \<le> cap d" for d n
  proof -
    have "unat (n_used d) + unat n \<le> cap d" using that(3) by (simp add: ring_items_def)
    with that(1) show ?thesis
      by (rule enqueued_wf) (simp add: ring_items_def same_geometry_def)
  qed
  show "UnsafeNItemsEnqueued n d = None"
    if "wf_disk d" "ring_valid n" "cap d < length (used_slots d) + length (ring_items d n)" for d n
    using that by (simp add: enqueue_refused ring_items_def)
  show "\<exists>d'. ring_pop n d = Some d' \<and> wf_disk d' \<and> cap d' = cap d \<and>
          used_slots d' = drop n (used_slots d)"
    if "wf_disk d" "n \<le> length (used_slots d)" for d n
  proof -
    have n: "unat (of_nat n :: u64) = n"
      using that by (simp add: unat_of_nat wf_disk_def)
    then have "unat (of_nat n :: u64) \<le> unat (n_used d)" using that by simp
    with that(1) show ?thesis
      by (rule dequeued_wf) (simp add: ring_pop_def n same_geometry_def)
  qed
  show "ring_pop n d = None" if "wf_disk d" "length (used_slots d) < n" "n \<le> cap d" for d n
  proof -
    have "unat (of_nat n :: u64) = n" using that by (simp add: unat_of_nat wf_disk_def)
    with that show ?thesis
      by (simp add: ring_pop_def UnsafeNItemsDequeued_def word_le_nat_alt)
  qed
qed

text \<open>C10: The ring is a queue of slots. Any sequence of enqueue and dequeue calls that goes
  through on a well-formed ring leaves a well-formed ring whose used slots are the old ones
  followed by all slots handed out, without the oldest that were released; the used slots are
  pairwise distinct and never more than the capacity.\<close>

theorem ring_history:
  assumes "wf_disk d" "ops_valid ring_valid (cap d) ops"
    "fifo_run UnsafeNItemsEnqueued ring_pop ops d = Some d'"
  shows "wf_disk d' \<and> distinct (used_slots d') \<and> length (used_slots d') \<le> cap d \<and>
         used_slots d' = drop (fifo_popped ops)
           (used_slots d @ fifo_pushed UnsafeNItemsEnqueued ring_pop ring_items ops d)"
  using ring.run_history [OF assms] used_slots_distinct ring.inv_bound by metis

theorem ring_history_witness:
  "\<exists>d'. fifo_run UnsafeNItemsEnqueued ring_pop [Push 40, Pop 30, Push 90] demo_journal = Some d' \<and>
     wf_disk d' \<and> length (used_slots d') = 100"
proof -
  have wf: "wf_disk demo_journal" using demo_journal_ok(1) by (simp add: boot_ok_def)
  have ops: "ops_valid ring_valid (cap demo_journal) [Push 40, Pop 30, Push 90]"
    by (simp add: ring_valid_def demo_journal_def)
  obtain d' where d': "fifo_run UnsafeNItemsEnqueued ring_pop [Push 40, Pop 30, Push 90]
      demo_journal = Some d'" and n: "n_used d' = 100"
    by (simp add: UnsafeNItemsEnqueued_def ring_pop_def UnsafeNItemsDequeued_def demo_journal_def)
  from ring_history [OF wf ops d'] d' n show ?thesis by simp
qed

subsection \<open>Watermarks and sharing\<close>



text \<open>A refused acquisition changes nothing and says why: when the ring has not enough
  free slots or the hard watermark is reached, the superblock keeps its state, no start index
  is handed out, \<open>no_space\<close> is set exactly in the first case and
  \<open>retry_after_jsuper_written\<close> exactly in the second; in every other case the acquisition
  succeeds.\<close>

theorem acquire_refusal:
  assumes "wf_disk (djsuper s)" "contig (djsuper s) (unat (tail (djsuper s)))" "unat n \<le> 32"
  shows "\<exists>slot s'. AcquireNextNSlots n s = Some (slot, s') \<and>
           (no_space slot \<longleftrightarrow> cap (djsuper s) < unat (n_used (djsuper s)) + unat n) \<and>
           (retry_after_jsuper_written slot \<longleftrightarrow> 51200 \<le> nblocks_unaccounted s) \<and>
           (if no_space slot \<or> retry_after_jsuper_written slot
            then s' = s \<and> start_idx slot = None
            else start_idx slot = Some (head (djsuper s)) \<and>
                 write_jsuper slot =
                   Some (40960 < nblocks_unaccounted s' \<and> \<not> write_in_progress s))"
proof (cases "nblocks_unaccounted s < 51200 \<and> unat (n_used (djsuper s)) + unat n \<le> cap (djsuper s)")
  case True
  then have "nblocks_unaccounted s < 51200" "unat (n_used (djsuper s)) + unat n \<le> cap (djsuper s)"
    by simp_all
  with assms obtain slot s' where a: "AcquireNextNSlots n s = Some (slot, s')"
    "start_idx slot = Some (head (djsuper s))" "\<not> no_space slot"
    "\<not> retry_after_jsuper_written slot"
    "write_jsuper slot = Some (UnsafeShouldWriteJSuper s')"
    "write_in_progress s' = write_in_progress s"
    by (rule acquire_wf)
  with True show ?thesis
    by (intro exI [of _ slot] exI [of _ s']) (auto simp: UnsafeShouldWriteJSuper_def not_le)
next
  case False
  then have "51200 \<le> nblocks_unaccounted s \<or> cap (djsuper s) < unat (n_used (djsuper s)) + unat n"
    by auto
  moreover have "unat n \<le> 2 ^ 62" using assms(3) by simp
  ultimately obtain slot where "AcquireNextNSlots n s = Some (slot, s)" "start_idx slot = None"
    "no_space slot \<longleftrightarrow> cap (djsuper s) < unat (n_used (djsuper s)) + unat n"
    "retry_after_jsuper_written slot \<longleftrightarrow> 51200 \<le> nblocks_unaccounted s"
    using acquire_abort [OF assms(1)] by blast
  with False show ?thesis
    by (intro exI [of _ slot] exI [of _ s]) (auto simp: not_le not_less)
qed

theorem acquire_refusal_witness:
  "\<exists>slot s'. AcquireNextNSlots 2
       ((JSuper_of demo_journal)\<lparr>nblocks_unaccounted := 51200\<rparr>) = Some (slot, s') \<and>
     retry_after_jsuper_written slot \<and> start_idx slot = None"
  using acquire_refusal [of "(JSuper_of demo_journal)\<lparr>nblocks_unaccounted := 51200\<rparr>" 2]
    demo_journal_ok(1)
  by (auto simp: boot_ok_def JSuper_of_def wf_disk_def)

text \<open>A superblock shared by several journal managers (the global journal mode) is
  released too often: every manager records the size of the whole shared ring when a checkpoint
  is prepared and releases that many slots when it completes. Whenever more than half of the
  slots of the ring belong to the checkpoint, the first release succeeds and the second one
  fails the assertion of \<open>UnsafeNItemsDequeued\<close>.\<close>

theorem shared_release_twice:
  assumes "wf_disk (djsuper s)" "k \<le> Size s" "unat (Size s) < 2 * unat k"
  shows "\<exists>s'. ReleaseFirstNSlots k s = Some s' \<and> ReleaseFirstNSlots k s' = None"
proof -
  have "unat k \<le> unat (n_used (djsuper s))" using assms(2) by (simp add: word_le_nat_alt)
  with assms(1) obtain d' where "UnsafeNItemsDequeued k (djsuper s) = Some d'"
    "unat (n_used d') = unat (n_used (djsuper s)) - unat k"
    by (rule dequeued_wf)
  with assms(3) show ?thesis
    by (auto simp: ReleaseFirstNSlots_def UnsafeNItemsDequeued_def word_le_nat_alt)
qed

theorem shared_release_twice_witness:
  "\<exists>s'. ReleaseFirstNSlots 40 (JSuper_of (demo_journal\<lparr>n_used := 40, head := 40\<rparr>)) = Some s' \<and>
     ReleaseFirstNSlots 40 s' = None"
  using shared_release_twice [of "JSuper_of (demo_journal\<lparr>n_used := 40, head := 40\<rparr>)" 40]
  by (simp add: JSuper_of_def wf_disk_def demo_journal_def)

end
