(* ===== verification/Ufs_JournalEntry.thy ===== *)
theory Ufs_JournalEntry
  imports Ufs_LogEntry Ufs_JSuper
begin

text \<open>
  \<open>JournalEntry\<close> (\<open>FsProc__JournalEnabled.h\<close>, \<open>FsProc_JournalBasic.cc\<close>): one transaction of the
  journal, a body that holds the metadata logs of its inodes and a commit block. The theory has
  the state of an entry, its binary format, reading it back in two steps (header, then body),
  the check of the commit block, and what a successful journal write does to the inodes. An
  inode log refers to the in-memory inode it belongs to; here the entry carries both.
\<close>

subsection \<open>Data\<close>

datatype JournalEntryState =
  PREPARE | QUEUED | WRITE_BODY | FLUSH | WRITE_COMMIT | SUCCESS | FAILURE
  | DESERIALIZED_ERROR_MAGIC | DESERIALIZED_ERROR_ENTRY_SIZE | DESERIALIZED_PARTIAL | DESERIALIZED

definition JSUPER_MAGIC :: u64 where "JSUPER_MAGIC = 0xBEEFBEEFBEEFBEEF"
definition JBODY_MAGIC :: u64 where "JBODY_MAGIC = 0xBEEFBEEFBEEFBBBB"
definition JCOMMIT_MAGIC :: u64 where "JCOMMIT_MAGIC = 0xBEEFBEEFBEEFCCCC"

definition kMaxJournalBodySize :: nat where
  "kMaxJournalBodySize = MAX_JOURNAL_ENTRY_SIZE - BSIZE"

text \<open>The two copies of the on-disk inode an in-memory inode has: current and journalled.\<close>

record InMemInodeData =
  inodeData :: cfs_dinode
  jinodeData :: cfs_dinode

record JournalEntry =
  je_id :: nat
  je_state :: JournalEntryState
  ile_vec :: "(InodeLogEntry \<times> InMemInodeData) list"
  start_block :: u64
  nblocks :: u64
  ustime_serialized :: u64
  pinned_mem :: "nat option"
  blocks_for_bitmap_set :: "u64 list"
  blocks_for_bitmap_clear :: "u64 list"
  inode_alloc_dealloc :: "(u32, bool) umap"

definition JournalEntry_new :: "nat \<Rightarrow> JournalEntry" where
  "JournalEntry_new i = \<lparr>je_id = i, je_state = PREPARE, ile_vec = [], start_block = 0, nblocks = 0,
     ustime_serialized = 0, pinned_mem = None, blocks_for_bitmap_set = [],
     blocks_for_bitmap_clear = [], inode_alloc_dealloc = []\<rparr>"

definition addInodeLogEntry :: "InodeLogEntry \<times> InMemInodeData \<Rightarrow> JournalEntry \<Rightarrow> JournalEntry" where
  "addInodeLogEntry e je = je\<lparr>ile_vec := ile_vec je @ [e]\<rparr>"

definition calcBodySize :: "JournalEntry \<Rightarrow> nat" where
  "calcBodySize je = fold (\<lambda>e n. n + calcSize (fst e)) (ile_vec je) 48"

subsection \<open>Binary format\<close>

text \<open>\<open>now\<close> is the result of \<open>tap_ustime\<close>; the size field is written last.\<close>

definition serializeBody :: "padding \<Rightarrow> u64 \<Rightarrow> JournalEntry \<Rightarrow> bytes \<times> JournalEntry" where
  "serializeBody pad now je =
     (let je' = je\<lparr>ustime_serialized := now\<rparr>;
          entries = put_all (serialize pad) (map fst (ile_vec je))
      in (put64 JBODY_MAGIC @ put64 now @ put64 (of_nat (48 + length entries)) @
          put64 (of_nat (length (ile_vec je))) @ put64 (start_block je) @ put64 (nblocks je) @
          entries, je'))"

definition serializeCommit :: "JournalEntry \<Rightarrow> bytes" where
  "serializeCommit je =
     put64 JCOMMIT_MAGIC @ put64 (ustime_serialized je) @ put64 (of_nat (length (ile_vec je))) @
     put64 (start_block je) @ put64 (nblocks je)"

text \<open>
  \<open>ParseJournalEntryHeader\<close>: the assertions are that no log was read yet and that the buffer
  holds the header.
\<close>

definition ParseJournalEntryHeader :: "bytes \<Rightarrow> u64 \<Rightarrow> JournalEntry \<Rightarrow> JournalEntry option" where
  "ParseJournalEntryHeader buf buf_size je =
     (if ile_vec je \<noteq> [] \<or> unat buf_size < calcBodySize je then None
      else do {
        (magic, bs) \<leftarrow> get64 buf;
        if magic \<noteq> JBODY_MAGIC then Some (je\<lparr>je_state := DESERIALIZED_ERROR_MAGIC\<rparr>)
        else do {
          (ts, bs) \<leftarrow> get64 bs; (sz, bs) \<leftarrow> get64 bs;
          let je = je\<lparr>ustime_serialized := ts\<rparr>;
          if unat sz > kMaxJournalBodySize
          then Some (je\<lparr>je_state := DESERIALIZED_ERROR_ENTRY_SIZE\<rparr>)
          else do {
            (n, bs) \<leftarrow> get64 bs; (st, bs) \<leftarrow> get64 bs; (nb, bs) \<leftarrow> get64 bs;
            Some (je\<lparr>start_block := st, nblocks := nb, je_state := DESERIALIZED_PARTIAL\<rparr>) } } })"

text \<open>The constructor from a buffer; \<open>Inl\<close> carries the message of the exception.\<close>

definition JournalEntry_of_buf :: "nat \<Rightarrow> bytes \<Rightarrow> u64 \<Rightarrow> (string + JournalEntry) option" where
  "JournalEntry_of_buf i buf buf_size =
     (let je = (JournalEntry_new i)\<lparr>je_state := DESERIALIZED_PARTIAL\<rparr>
      in if unat buf_size < calcBodySize je then Some (Inl ''buffer too small'')
         else do {
           je \<leftarrow> ParseJournalEntryHeader buf buf_size je;
           Some (case je_state je of
             DESERIALIZED_PARTIAL \<Rightarrow> Inr je
           | DESERIALIZED_ERROR_MAGIC \<Rightarrow> Inl ''JBODY_MAGIC mismatch''
           | DESERIALIZED_ERROR_ENTRY_SIZE \<Rightarrow> Inl ''Invalid journal entry size''
           | _ \<Rightarrow> Inl ''Unknown deserialization state'') })"

text \<open>
  The loop of \<open>deserializeBody\<close> over the remaining logs: \<open>k\<close> logs are still expected, \<open>rem\<close> is
  \<open>remaining_buf_size\<close> (an unsigned 64-bit value, so the subtraction wraps), and the pointer
  moves by the size of the log just read. A log read from disk has no in-memory inode.
\<close>

fun read_logs ::
    "(nat \<Rightarrow> InodeLogEntry) \<Rightarrow> nat \<Rightarrow> u64 \<Rightarrow> bytes \<Rightarrow> (string + InodeLogEntry list) option" where
  "read_logs junk 0 rem bs = Some (Inr [])"
| "read_logs junk (Suc k) rem bs =
     (if rem = 0 then Some (Inr [])
      else do {
        r \<leftarrow> InodeLogEntry_of_buf (junk k) bs rem;
        case r of
          Inl msg \<Rightarrow> Some (Inl msg)
        | Inr e \<Rightarrow> do {
            rest \<leftarrow> read_logs junk k (rem - of_nat (calcSize e)) (drop (calcSize e) bs);
            Some (case rest of Inl msg \<Rightarrow> Inl msg | Inr es \<Rightarrow> Inr (e # es)) } })"

definition deserializeBody ::
    "(nat \<Rightarrow> InodeLogEntry) \<Rightarrow> (InodeLogEntry \<Rightarrow> InMemInodeData) \<Rightarrow> bytes \<Rightarrow> u64 \<Rightarrow> JournalEntry \<Rightarrow>
     (string + JournalEntry) option" where
  "deserializeBody junk no_inode buf buf_size je =
     (if ile_vec je \<noteq> [] then None
      else if unat buf_size < calcBodySize je then Some (Inl ''buffer too small'')
      else if je_state je \<noteq> DESERIALIZED_PARTIAL
        then Some (Inl ''Requires partially deserialized Jentry'')
      else do {
        (magic, bs) \<leftarrow> get64 buf; (ts, bs) \<leftarrow> get64 bs;
        if magic \<noteq> JBODY_MAGIC \<or> ts \<noteq> ustime_serialized je
        then Some (Inl ''Requires same buffer used for partial deserialization'')
        else do {
          (sz, bs) \<leftarrow> get64 bs;
          if buf_size < sz then Some (Inl ''buffer too small'')
          else do {
            (n, bs) \<leftarrow> get64 bs;
            r \<leftarrow> read_logs junk (unat n) (sz - of_nat (calcBodySize je)) (drop (calcBodySize je) buf);
            Some (case r of
              Inl msg \<Rightarrow> Inl msg
            | Inr es \<Rightarrow> Inr (je\<lparr>ile_vec := map (\<lambda>e. (e, no_inode e)) es,
                                je_state := DESERIALIZED\<rparr>)) } } })"

definition isValidCommitBlock :: "bytes option \<Rightarrow> u64 \<Rightarrow> JournalEntry \<Rightarrow> bool option" where
  "isValidCommitBlock commit_buf buf_size je =
     (case commit_buf of None \<Rightarrow> Some False
      | Some buf \<Rightarrow>
          if buf_size < 64 then Some False
          else do {
            (magic, bs) \<leftarrow> get64 buf; (ts, bs) \<leftarrow> get64 bs; (n, bs) \<leftarrow> get64 bs;
            (st, bs) \<leftarrow> get64 bs; (nb, bs) \<leftarrow> get64 bs;
            Some (\<not> (magic \<noteq> JCOMMIT_MAGIC \<or> ts \<noteq> ustime_serialized je \<or>
                     n \<noteq> of_nat (length (ile_vec je)) \<or> st \<noteq> start_block je \<or> nb \<noteq> nblocks je)) })"

subsection \<open>The format is read back as written\<close>

lemma fold_add_sum: "fold (\<lambda>e n. n + f e) xs a = a + sum_list (map f xs)" for a :: nat
  by (induction xs arbitrary: a) (simp_all add: algebra_simps)

lemma calcBodySize_sum: "calcBodySize je = 48 + sum_list (map (calcSize \<circ> fst) (ile_vec je))"
  by (simp add: calcBodySize_def fold_add_sum comp_def)

lemma calcBodySize_nil: "ile_vec je = [] \<Longrightarrow> calcBodySize je = 48"
  by (simp add: calcBodySize_def)

lemma put_all_serialize_length:
  "length (put_all (serialize pad) es) = sum_list (map calcSize es)"
  by (induction es) (simp_all add: serialize_length)

lemma serializeBody_length: "length (fst (serializeBody pad now je)) = calcBodySize je"
  by (simp add: serializeBody_def Let_def calcBodySize_sum put_all_serialize_length)

definition no_seq :: "InodeLogEntry \<Rightarrow> InodeLogEntry" where
  "no_seq e = e\<lparr>extent_seq_no := 0\<rparr>"

lemma calcSize_pos: "131 \<le> calcSize e"
  by (simp add: calcSize_def)

lemma calcSize_seq [simp]: "calcSize (e\<lparr>extent_seq_no := x\<rparr>) = calcSize e"
  by (simp add: calcSize_def)

lemma length_le_sizes: "length es \<le> sum_list (map calcSize es)"
proof (induction es)
  case (Cons e es)
  then show ?case using calcSize_pos [of e] by simp
qed simp

lemma read_logs_serialized:
  assumes "\<forall>e \<in> set es. wf_ile e" "sum_list (map calcSize es) < 2 ^ 64"
  shows "\<exists>es'. read_logs junk (length es) (of_nat (sum_list (map calcSize es)))
             (put_all (serialize pad) es @ rest) = Some (Inr es') \<and> map no_seq es' = map no_seq es"
  using assms
proof (induction es)
  case Nil
  then show ?case by simp
next
  case (Cons e es)
  let ?rem = "of_nat (sum_list (map calcSize (e # es))) :: u64"
  let ?e = "e\<lparr>extent_seq_no := extent_seq_no (junk (length es))\<rparr>"
  have rem: "unat ?rem = sum_list (map calcSize (e # es))"
    using Cons.prems(2) by (rule unat_of_nat64)
  then have "?rem \<noteq> 0" using calcSize_pos [of e] by auto
  moreover have "InodeLogEntry_of_buf (junk (length es))
      (put_all (serialize pad) (e # es) @ rest) ?rem = Some (Inr ?e)"
    using ile_of_buf_serialize [of e ?rem "junk (length es)" pad "put_all (serialize pad) es @ rest"]
      Cons.prems(1) rem by simp
  moreover have "drop (calcSize ?e) (put_all (serialize pad) (e # es) @ rest)
      = put_all (serialize pad) es @ rest"
    by (simp add: serialize_length)
  moreover have "?rem - of_nat (calcSize ?e) = of_nat (sum_list (map calcSize es))" by simp
  moreover obtain es' where "read_logs junk (length es) (of_nat (sum_list (map calcSize es)))
      (put_all (serialize pad) es @ rest) = Some (Inr es')" "map no_seq es' = map no_seq es"
    using Cons by auto
  moreover have "no_seq ?e = no_seq e" by (simp add: no_seq_def)
  ultimately show ?case by simp
qed

definition body_bytes :: "padding \<Rightarrow> u64 \<Rightarrow> JournalEntry \<Rightarrow> bytes" where
  "body_bytes pad now je =
     put64 JBODY_MAGIC @ put64 now @ put64 (of_nat (calcBodySize je)) @
     put64 (of_nat (length (ile_vec je))) @ put64 (start_block je) @ put64 (nblocks je) @
     put_all (serialize pad) (map fst (ile_vec je))"

lemma serializeBody_bytes:
  "serializeBody pad now je = (body_bytes pad now je, je\<lparr>ustime_serialized := now\<rparr>)"
  by (simp add: serializeBody_def Let_def body_bytes_def calcBodySize_sum put_all_serialize_length)

definition header_of :: "nat \<Rightarrow> u64 \<Rightarrow> JournalEntry \<Rightarrow> JournalEntry" where
  "header_of i now je = (JournalEntry_new i)\<lparr>je_state := DESERIALIZED_PARTIAL,
     ustime_serialized := now, start_block := start_block je, nblocks := nblocks je\<rparr>"

lemma header_of_sel [simp]:
  "ile_vec (header_of i now je) = []" "calcBodySize (header_of i now je) = 48"
  "je_state (header_of i now je) = DESERIALIZED_PARTIAL"
  "ustime_serialized (header_of i now je) = now" "start_block (header_of i now je) = start_block je"
  "nblocks (header_of i now je) = nblocks je"
  by (simp_all add: header_of_def JournalEntry_new_def calcBodySize_def)

lemma read_header:
  assumes "calcBodySize je \<le> kMaxJournalBodySize" "calcBodySize je \<le> unat buf_size"
  shows "JournalEntry_of_buf i (body_bytes pad now je @ rest) buf_size = Some (Inr (header_of i now je))"
proof -
  have "calcBodySize je \<le> 126976" "48 \<le> calcBodySize je"
    using assms(1)
    by (simp_all add: kMaxJournalBodySize_def MAX_JOURNAL_ENTRY_SIZE_def BSIZE_def calcBodySize_sum)
  with assms have "\<not> 126976 < unat (of_nat (calcBodySize je) :: u64)" "48 \<le> unat buf_size"
    by (simp_all add: unat_of_nat64)
  then show ?thesis
    by (simp add: JournalEntry_of_buf_def Let_def ParseJournalEntryHeader_def body_bytes_def
        calcBodySize_nil JournalEntry_new_def header_of_def
        kMaxJournalBodySize_def MAX_JOURNAL_ENTRY_SIZE_def BSIZE_def)
qed

lemma read_body:
  assumes "\<forall>e \<in> set (map fst (ile_vec je)). wf_ile e" "calcBodySize je < 2 ^ 64"
    "calcBodySize je \<le> unat buf_size"
  shows "\<exists>es. deserializeBody junk no_inode (body_bytes pad now je @ rest) buf_size (header_of i now je)
           = Some (Inr ((header_of i now je)\<lparr>ile_vec := map (\<lambda>e. (e, no_inode e)) es,
                                            je_state := DESERIALIZED\<rparr>)) \<and>
         map no_seq es = map no_seq (map fst (ile_vec je))"
proof -
  let ?es = "map fst (ile_vec je)"
  let ?n = "sum_list (map calcSize ?es)"
  have size: "calcBodySize je = 48 + ?n" by (simp add: calcBodySize_sum)
  have cnt: "length (ile_vec je) \<le> ?n" using length_le_sizes [of ?es] by simp
  obtain es where es: "read_logs junk (length ?es) (of_nat ?n) (put_all (serialize pad) ?es @ rest)
      = Some (Inr es)" "map no_seq es = map no_seq ?es"
    using read_logs_serialized [OF assms(1)] assms(2) size by fastforce
  define buf where "buf = body_bytes pad now je @ rest"
  have drop48: "drop 48 buf = put_all (serialize pad) ?es @ rest"
    by (simp add: body_bytes_def buf_def)
  obtain b1 b2 b3 b4 where reads: "get64 buf = Some (JBODY_MAGIC, b1)" "get64 b1 = Some (now, b2)"
    "get64 b2 = Some (of_nat (calcBodySize je) :: u64, b3)"
    "get64 b3 = Some (of_nat (length (ile_vec je)) :: u64, b4)"
    by (simp add: buf_def body_bytes_def)
  have un: "unat (of_nat (calcBodySize je) :: u64) = calcBodySize je"
    "unat (of_nat (length (ile_vec je)) :: u64) = length (ile_vec je)"
    using assms(2) cnt size by (intro unat_of_nat64; simp)+
  have ge: "\<not> buf_size < of_nat (calcBodySize je)" "48 \<le> unat buf_size"
    unfolding word_less_nat_alt un(1) using assms(3) size by linarith+
  have "of_nat (calcBodySize je) - 48 = (of_nat ?n :: u64)" by (simp add: size)
  with es ge show ?thesis
    unfolding deserializeBody_def buf_def [symmetric]
    by (intro exI [of _ es]) (simp add: reads un(2) drop48)
qed

text \<open>C5: A journal entry is read back as it was written. For every entry whose logs are
  well-formed and whose body fits the journal's limit, the serialised body has the announced
  size; reading the header and then the body from any buffer that starts with it gives an
  entry with the same start block, block count, time stamp and logs, in the same order (the
  unstored \<open>extent_seq_no\<close> aside); and the commit block written for the entry is accepted by
  the entry that was read back.\<close>

theorem journal_entry_roundtrip:
  assumes "\<forall>e \<in> set (map fst (ile_vec je)). wf_ile e" "calcBodySize je \<le> kMaxJournalBodySize"
    "serializeBody pad now je = (body, je')" "calcBodySize je \<le> unat buf_size"
    "64 \<le> commit_size"
  shows "length body = calcBodySize je \<and>
         (\<exists>h r. JournalEntry_of_buf i (body @ rest) buf_size = Some (Inr h) \<and>
            deserializeBody junk no_inode (body @ rest) buf_size h = Some (Inr r) \<and>
            map (no_seq \<circ> fst) (ile_vec r) = map (no_seq \<circ> fst) (ile_vec je) \<and>
            start_block r = start_block je \<and> nblocks r = nblocks je \<and> ustime_serialized r = now \<and>
            isValidCommitBlock (Some (serializeCommit je' @ rest')) commit_size r = Some True)"
proof -
  have small: "calcBodySize je < 2 ^ 64"
    using assms(2) by (simp add: kMaxJournalBodySize_def MAX_JOURNAL_ENTRY_SIZE_def BSIZE_def)
  have b: "body = body_bytes pad now je" "je' = je\<lparr>ustime_serialized := now\<rparr>"
    using assms(3) by (simp_all add: serializeBody_bytes)
  obtain es where es: "deserializeBody junk no_inode (body @ rest) buf_size (header_of i now je)
      = Some (Inr ((header_of i now je)\<lparr>ile_vec := map (\<lambda>e. (e, no_inode e)) es,
                                       je_state := DESERIALIZED\<rparr>))"
    "map no_seq es = map no_seq (map fst (ile_vec je))"
    using read_body [OF assms(1) small assms(4), of junk no_inode pad now rest i] b by auto
  moreover have "length es = length (ile_vec je)" using es(2) by (metis length_map)
  moreover have "length body = calcBodySize je"
    using serializeBody_length [of pad now je] assms(3) by simp
  moreover have "JournalEntry_of_buf i (body @ rest) buf_size = Some (Inr (header_of i now je))"
    unfolding b(1) using assms(2,4) by (rule read_header)
  ultimately show ?thesis
    using assms(5)
    by (simp add: isValidCommitBlock_def serializeCommit_def b(2) comp_def not_less)
qed

definition demo_entry :: JournalEntry where
  "demo_entry = (JournalEntry_new 0)\<lparr>start_block := 1000, nblocks := 2,
     ile_vec := [(demo_ile, \<lparr>inodeData = demo_dinode, jinodeData = demo_dinode\<rparr>)]\<rparr>"

theorem journal_entry_roundtrip_witness:
  "\<exists>h r. JournalEntry_of_buf 1 (fst (serializeBody (\<lambda>_. (0, 0, 0)) 99 demo_entry) @ []) 4096 = Some (Inr h) \<and>
     deserializeBody (\<lambda>_. demo_ile) (\<lambda>_. \<lparr>inodeData = demo_dinode, jinodeData = demo_dinode\<rparr>)
       (fst (serializeBody (\<lambda>_. (0, 0, 0)) 99 demo_entry) @ []) 4096 h = Some (Inr r) \<and>
     start_block r = 1000"
proof -
  have sz: "calcBodySize demo_entry = 219"
    by (simp add: calcBodySize_def demo_entry_def demo_ile_wf)
  have wf: "\<forall>e \<in> set (map fst (ile_vec demo_entry)). wf_ile e"
    by (simp add: demo_entry_def demo_ile_wf)
  obtain body je' where b: "serializeBody (\<lambda>_. (0, 0, 0)) 99 demo_entry = (body, je')"
    by (cases "serializeBody (\<lambda>_. (0, 0, 0)) 99 demo_entry")
  from journal_entry_roundtrip [OF wf _ b, of 4096 64 1 "[]" "\<lambda>_. demo_ile"
      "\<lambda>_. \<lparr>inodeData = demo_dinode, jinodeData = demo_dinode\<rparr>" "[]"] sz b
  show ?thesis
    by (auto simp: kMaxJournalBodySize_def MAX_JOURNAL_ENTRY_SIZE_def BSIZE_def demo_entry_def)
qed

end
