(* ===== verification/Ufs_JournalMgr.thy ===== *)
theory Ufs_JournalMgr
  imports Ufs_JournalEntry
begin

text \<open>
  \<open>JournalManager\<close> (\<open>FsProc_Journal.cc\<close>): the per-worker engine that takes journal entries from
  a queue, gives each a range of journal blocks and a pinned buffer, writes body, flush and
  commit block one after the other, writes the superblock when the watermark is passed, and
  takes part in checkpoints. Device commands are asynchronous: a handler submits a command and
  returns, and a later completion calls the next handler. The state therefore holds the
  commands in flight, each with the entry it was issued for, and the history of submissions,
  completions and callbacks.

  A failed assertion and an exception thrown because the device refuses a command are
  \<^const>\<open>None\<close>. What the code takes from outside is the record \<open>Env\<close>: the results of
  \<open>tap_ustime\<close> and the device's answers to submissions, both numbered by counters of the state,
  the padding bytes, whether the device supports flush, and the floating-point comparison of the
  journal's fill ratio with 0.9.
\<close>

subsection \<open>State\<close>

record Env =
  clock :: "nat \<Rightarrow> u64"
  accepts :: "nat \<Rightarrow> bool"
  pad_of :: padding
  flush_supported :: bool
  over_ratio :: "u64 \<Rightarrow> u64 \<Rightarrow> bool"

record CheckpointInput =
  ci_n_used :: u64
  inodesToCheckpoint :: "(u32, cfs_dinode option) umap"
  bitmapsToCheckpoint :: "(u64, bytes option) umap"
  inodeBitmapsToCheckpoint :: "(u64, bytes option) umap"

definition CheckpointInput_new :: CheckpointInput where
  "CheckpointInput_new = \<lparr>ci_n_used = 0, inodesToCheckpoint = [], bitmapsToCheckpoint = [],
     inodeBitmapsToCheckpoint = []\<rparr>"

datatype dev_cmd =
    BodyWrite JournalEntry bytes
  | FlushCmd JournalEntry
  | CommitWrite JournalEntry bytes
  | SuperWrite JSuperOnDisk u64

text \<open>
  The history of a manager: commands handed to the device, their completions (the flag says
  whether the device reported an error) and callbacks to the submitter of an entry.
\<close>

datatype event =
    Submitted dev_cmd
  | Completed dev_cmd bool
  | Notified JournalEntry bool

record JMgr =
  jsuper :: JSuper
  je_queue :: "JournalEntry list"
  pinned_mem_queue :: "nat list"
  checkpointInput :: CheckpointInput
  checkpointInProgress :: bool
  bmapsToLockAfterCheckpointCompletes :: "u32 uset"
  immutableBlockBitmaps :: "u32 uset"
  stableDataBitmaps :: "(u64, bytes) umap"
  stableInodeBitmaps :: "(u64, bytes) umap"
  in_flight_cmds :: "dev_cmd list"
  history :: "event list"
  ticks :: nat
  n_cmds :: nat

definition kMaxInFlight :: nat where
  "kMaxInFlight = 100"

text \<open>The constructor, for a journal superblock \<open>dj\<close> read from the device.\<close>

definition JournalManager_new :: "JSuperOnDisk \<Rightarrow> (string + JMgr)" where
  "JournalManager_new dj =
     (if jmagic dj \<noteq> JSUPER_MAGIC then Inl ''jsuper magic mismatch''
      else if n_used dj \<noteq> 0
      then Inl ''journal has entries, please run fsOfflineCheckpointer''
      else Inr \<lparr>jsuper = JSuper_of dj, je_queue = [], pinned_mem_queue = [0..<kMaxInFlight],
        checkpointInput = CheckpointInput_new, checkpointInProgress = False,
        bmapsToLockAfterCheckpointCompletes = [], immutableBlockBitmaps = [],
        stableDataBitmaps = [], stableInodeBitmaps = [], in_flight_cmds = [], history = [],
        ticks = 0, n_cmds = 0\<rparr>)"

subsection \<open>What a successful journal write does to an inode\<close>

text \<open>
  \<open>InodeLogEntry::on_successful_journal_write\<close>: the log is applied to the journalled copy of
  the inode, the blocks whose bitmap bits change are handed to the entry, the inode is
  registered for the next checkpoint, and the log is reset.
\<close>

definition split_blocks :: "(u64, bool) umap \<Rightarrow> JournalEntry \<Rightarrow> JournalEntry" where
  "split_blocks blocks je =
     fold (\<lambda>(b, set) je. if set then je\<lparr>blocks_for_bitmap_set := blocks_for_bitmap_set je @ [b]\<rparr>
                         else je\<lparr>blocks_for_bitmap_clear := blocks_for_bitmap_clear je @ [b]\<rparr>)
       blocks je"

definition reset_ile :: "InodeLogEntry \<Rightarrow> InodeLogEntry" where
  "reset_ile e = e\<lparr>optfield_bitarr := 0, extent_seq_no := 0, ext_add := [], ext_del := [],
     depends_on := [], syncID := syncID e + 1\<rparr>"

definition on_successful_journal_write ::
    "InodeLogEntry \<times> InMemInodeData \<Rightarrow> CheckpointInput \<times> JournalEntry \<Rightarrow>
     ((InodeLogEntry \<times> InMemInodeData) \<times> CheckpointInput \<times> JournalEntry) option" where
  "on_successful_journal_write p st =
     (case (p, st) of ((e, mi), (ci, je)) \<Rightarrow> do {
        (j, blocks) \<leftarrow> applyChangesTo e (jinodeData mi) [];
        let mi' = mi\<lparr>jinodeData := j, inodeData := (inodeData mi)\<lparr>d_syncID := d_syncID j\<rparr>\<rparr>;
        let je1 = split_blocks blocks je;
        let ci' = ci\<lparr>inodesToCheckpoint :=
                       AList.update (ucast (inode e)) None (inodesToCheckpoint ci)\<rparr>;
        let je2 = (if has_field e bitmap_op_IDX
                   then je1\<lparr>inode_alloc_dealloc :=
                          AList.update (ucast (inode e)) (bitmap_op e = 1) (inode_alloc_dealloc je1)\<rparr>
                   else je1);
        Some ((reset_ile e, mi'), ci', je2) })"

fun journal_write_all ::
    "(InodeLogEntry \<times> InMemInodeData) list \<Rightarrow> CheckpointInput \<times> JournalEntry \<Rightarrow>
     ((InodeLogEntry \<times> InMemInodeData) list \<times> CheckpointInput \<times> JournalEntry) option" where
  "journal_write_all [] st = Some ([], st)"
| "journal_write_all (p # ps) st = do {
     (p', st') \<leftarrow> on_successful_journal_write p st;
     (ps', st'') \<leftarrow> journal_write_all ps st';
     Some (p' # ps', st'') }"

subsection \<open>Pinned memory, superblock writes\<close>

definition AcquirePinnedMem :: "JournalEntry \<Rightarrow> JMgr \<Rightarrow> (JournalEntry \<times> JMgr) option" where
  "AcquirePinnedMem je m =
     (case pinned_mem_queue m of
        [] \<Rightarrow> None
      | p # ps \<Rightarrow> if pinned_mem je \<noteq> None then None
                  else Some (je\<lparr>pinned_mem := Some p\<rparr>, m\<lparr>pinned_mem_queue := ps\<rparr>))"

definition ReleasePinnedMem :: "JournalEntry \<Rightarrow> JMgr \<Rightarrow> (JournalEntry \<times> JMgr) option" where
  "ReleasePinnedMem je m =
     (case pinned_mem je of
        None \<Rightarrow> Some (je, m)
      | Some p \<Rightarrow> if length (pinned_mem_queue m) < kMaxInFlight
                  then Some (je\<lparr>pinned_mem := None\<rparr>,
                             m\<lparr>pinned_mem_queue := pinned_mem_queue m @ [p]\<rparr>)
                  else None)"

definition submit :: "Env \<Rightarrow> dev_cmd \<Rightarrow> JMgr \<Rightarrow> JMgr option" where
  "submit env cmd m =
     (if accepts env (n_cmds m)
      then Some (m\<lparr>in_flight_cmds := in_flight_cmds m @ [cmd], n_cmds := n_cmds m + 1,
                   history := history m @ [Submitted cmd]\<rparr>)
      else None)"

definition WriteJSuper :: "Env \<Rightarrow> JMgr \<Rightarrow> JMgr option" where
  "WriteJSuper env m =
     (case TrySetWriteInProgress (jsuper m) of
        None \<Rightarrow> Some m
      | Some ((dj, old), js) \<Rightarrow> submit env (SuperWrite dj old) (m\<lparr>jsuper := js\<rparr>))"

subsection \<open>The transaction engine\<close>

definition callback :: "JournalEntry \<Rightarrow> bool \<Rightarrow> JMgr \<Rightarrow> JMgr" where
  "callback je ok m = m\<lparr>history := history m @ [Notified je ok]\<rparr>"

definition submit_commit :: "Env \<Rightarrow> JournalEntry \<Rightarrow> JMgr \<Rightarrow> JMgr option" where
  "submit_commit env je m =
     (if pinned_mem je = None then None else submit env (CommitWrite je (serializeCommit je)) m)"

text \<open>
  \<open>processJournalEntry\<close> calls \<open>tryNextTransaction\<close> at the end of a transaction, which calls it
  back for the next entry; \<open>try\<close> is that call. A missing pinned buffer, or a body larger than
  it, would be a write through a bad pointer.
\<close>

definition processJournalEntry ::
    "Env \<Rightarrow> (JMgr \<Rightarrow> JMgr option) \<Rightarrow> JournalEntry \<Rightarrow> JMgr \<Rightarrow> JMgr option" where
  "processJournalEntry env try je m =
     (case je_state je of
        FAILURE \<Rightarrow> do {
          (je', m') \<leftarrow> ReleasePinnedMem je m;
          try (callback je' False m') }
      | SUCCESS \<Rightarrow> do {
          (iles, ci, je1) \<leftarrow> journal_write_all (ile_vec je) (checkpointInput m, je);
          (je2, m') \<leftarrow> ReleasePinnedMem (je1\<lparr>ile_vec := iles\<rparr>) (m\<lparr>checkpointInput := ci\<rparr>);
          try (callback je2 True m') }
      | WRITE_BODY \<Rightarrow>
          (case serializeBody (pad_of env) (clock env (ticks m)) je of (body, je') \<Rightarrow>
             if pinned_mem je = None \<or> length body > kMaxJournalBodySize \<or> nblocks je < 2 then None
             else submit env (BodyWrite je' body) (m\<lparr>ticks := ticks m + 1\<rparr>))
      | FLUSH \<Rightarrow>
          if flush_supported env then submit env (FlushCmd je) m
          else submit_commit env (je\<lparr>je_state := WRITE_COMMIT\<rparr>) m
      | WRITE_COMMIT \<Rightarrow> submit_commit env je m
      | _ \<Rightarrow> None)"

lemma mono_processJournalEntry [partial_function_mono]:
  "(\<And>m. mono_option (\<lambda>try. B try m)) \<Longrightarrow>
   mono_option (\<lambda>try. processJournalEntry env (B try) je m)"
  unfolding processJournalEntry_def
  by (cases "je_state je") (auto intro!: partial_function_mono option.const_mono simp: split_beta)

definition jblocks_required :: "JournalEntry \<Rightarrow> u64" where
  "jblocks_required je = of_nat ((calcBodySize je + BSIZE - 1) div BSIZE) + 1"

text \<open>
  The body of \<open>tryNextTransaction\<close>, with the call that \<open>processJournalEntry\<close> makes as a
  parameter, and the recursive function itself.
\<close>

definition attempt_transaction :: "Env \<Rightarrow> (JMgr \<Rightarrow> JMgr option) \<Rightarrow> JMgr \<Rightarrow> JMgr option" where
  "attempt_transaction env try m =
     (if je_queue m = [] \<or> pinned_mem_queue m = [] then Some m
      else let je = (hd (je_queue m))\<lparr>start_block := 0, nblocks := 0\<rparr>;
               req = jblocks_required je;
               popped = m\<lparr>je_queue := tl (je_queue m)\<rparr>
           in if req > max_blocks
              then processJournalEntry env try (je\<lparr>je_state := FAILURE\<rparr>) popped
              else do {
                (slot, js) \<leftarrow> AcquireNextNSlots req (jsuper m);
                if no_space slot
                then processJournalEntry env try (je\<lparr>je_state := FAILURE\<rparr>)
                       (popped\<lparr>jsuper := js\<rparr>)
                else if retry_after_jsuper_written slot
                then Some (m\<lparr>jsuper := js, je_queue := je # tl (je_queue m)\<rparr>)
                else do {
                  i \<leftarrow> start_idx slot;
                  w \<leftarrow> write_jsuper slot;
                  m1 \<leftarrow> (if w then WriteJSuper env (popped\<lparr>jsuper := js\<rparr>)
                        else Some (popped\<lparr>jsuper := js\<rparr>));
                  ok \<leftarrow> NoLoopArounds (djsuper (jsuper m1)) i req;
                  b \<leftarrow> IdxToBlockNo (djsuper (jsuper m1)) i;
                  if \<not> ok then None
                  else do {
                    (je', m2) \<leftarrow> AcquirePinnedMem
                      (je\<lparr>start_block := b, nblocks := req, je_state := WRITE_BODY\<rparr>) m1;
                    processJournalEntry env try je' m2 } } })"

lemma mono_attempt_transaction [partial_function_mono]:
  assumes "\<And>m. mono_option (\<lambda>try. B try m)"
  shows "mono_option (\<lambda>try. attempt_transaction env (B try) m)"
  unfolding attempt_transaction_def Let_def split_beta
  by (intro partial_function_mono mono_processJournalEntry option.const_mono assms)

partial_function (option) tryNextTransaction :: "Env \<Rightarrow> JMgr \<Rightarrow> JMgr option" where
  "tryNextTransaction env m = attempt_transaction env (tryNextTransaction env) m"

definition writeComplete :: "Env \<Rightarrow> bool \<Rightarrow> JournalEntry \<Rightarrow> JMgr \<Rightarrow> JMgr option" where
  "writeComplete env err je m =
     (if err then processJournalEntry env (tryNextTransaction env) (je\<lparr>je_state := FAILURE\<rparr>) m
      else case je_state je of
        WRITE_BODY \<Rightarrow> processJournalEntry env (tryNextTransaction env) (je\<lparr>je_state := FLUSH\<rparr>) m
      | FLUSH \<Rightarrow> processJournalEntry env (tryNextTransaction env) (je\<lparr>je_state := WRITE_COMMIT\<rparr>) m
      | WRITE_COMMIT \<Rightarrow> processJournalEntry env (tryNextTransaction env) (je\<lparr>je_state := SUCCESS\<rparr>) m
      | _ \<Rightarrow> None)"

text \<open>The loop in the completion of a superblock write.\<close>

partial_function (option) resume_loop :: "Env \<Rightarrow> JMgr \<Rightarrow> JMgr option" where
  "resume_loop env m =
     (if je_queue m = [] \<or> pinned_mem_queue m = [] then Some m
      else do { m' \<leftarrow> tryNextTransaction env m; resume_loop env m' })"

definition jsuper_write_complete :: "Env \<Rightarrow> bool \<Rightarrow> u64 \<Rightarrow> JMgr \<Rightarrow> JMgr option" where
  "jsuper_write_complete env err old m =
     (if err then None
      else do {
        js \<leftarrow> OnWriteComplete old (jsuper m);
        let m1 = m\<lparr>jsuper := js\<rparr>;
        let none = (je_queue m1 = [] \<or> pinned_mem_queue m1 = []);
        m2 \<leftarrow> resume_loop env m1;
        if none \<and> UnsafeShouldWriteJSuper (jsuper m2) then WriteJSuper env m2 else Some m2 })"

text \<open>The result says whether a checkpoint is proposed.\<close>

definition submitJournalEntry :: "Env \<Rightarrow> JournalEntry \<Rightarrow> JMgr \<Rightarrow> (bool \<times> JMgr) option" where
  "submitJournalEntry env je m = do {
     m' \<leftarrow> tryNextTransaction env (m\<lparr>je_queue := je_queue m @ [je]\<rparr>);
     Some (over_ratio env (Size (jsuper m')) (Capacity (jsuper m')), m') }"

text \<open>A command completes: the device picks one in flight, the completion runs its handler.\<close>

definition complete_cmd :: "Env \<Rightarrow> nat \<Rightarrow> bool \<Rightarrow> JMgr \<Rightarrow> JMgr option" where
  "complete_cmd env i err m =
     (if i < length (in_flight_cmds m)
      then let m' = m\<lparr>in_flight_cmds := take i (in_flight_cmds m) @ drop (Suc i) (in_flight_cmds m),
                        history := history m @ [Completed (in_flight_cmds m ! i) err]\<rparr>
           in case in_flight_cmds m ! i of
                BodyWrite je body \<Rightarrow> writeComplete env err je m'
              | FlushCmd je \<Rightarrow> writeComplete env err je m'
              | CommitWrite je blk \<Rightarrow> writeComplete env err je m'
              | SuperWrite dj old \<Rightarrow> jsuper_write_complete env err old m'
      else None)"

subsection \<open>Stable bitmaps\<close>

text \<open>The outer option is the assertion on the block number, the inner one a null pointer.\<close>

definition GetStableDataBitmap :: "u64 \<Rightarrow> JMgr \<Rightarrow> bytes option option" where
  "GetStableDataBitmap bno m =
     (if isBitmapBlock bno then Some (map_of (stableDataBitmaps m) bno) else None)"

definition CopyBufToStableDataBitmap :: "u64 \<Rightarrow> bytes \<Rightarrow> JMgr \<Rightarrow> JMgr option" where
  "CopyBufToStableDataBitmap bno buf m = do {
     old \<leftarrow> GetStableDataBitmap bno m;
     if old \<noteq> None then Some m
     else if length buf < BSIZE then None
     else Some (m\<lparr>stableDataBitmaps := AList.update bno (take BSIZE buf) (stableDataBitmaps m)\<rparr>) }"

definition GetStableInodeBitmap :: "u64 \<Rightarrow> JMgr \<Rightarrow> bytes option option" where
  "GetStableInodeBitmap bno m =
     (if isInodeBitmap bno then Some (map_of (stableInodeBitmaps m) bno) else None)"

definition CopyBufToStableInodeBitmap :: "u64 \<Rightarrow> bytes \<Rightarrow> JMgr \<Rightarrow> JMgr option" where
  "CopyBufToStableInodeBitmap bno buf m = do {
     old \<leftarrow> GetStableInodeBitmap bno m;
     if old \<noteq> None then Some m
     else if length buf < BSIZE then None
     else Some (m\<lparr>stableInodeBitmaps := AList.update bno (take BSIZE buf) (stableInodeBitmaps m)\<rparr>) }"

definition registerBitmapsWithDeallocations :: "u32 uset \<Rightarrow> JMgr \<Rightarrow> JMgr" where
  "registerBitmapsWithDeallocations bmaps m =
     (if checkpointInProgress m
      then m\<lparr>bmapsToLockAfterCheckpointCompletes :=
               fold List.insert bmaps (bmapsToLockAfterCheckpointCompletes m)\<rparr>
      else m)"

subsection \<open>Checkpoints\<close>

text \<open>
  \<open>populateCheckpointInput\<close>: \<open>wid\<close> is the current worker; \<open>minode_of\<close> gives the manager and the
  journalled data of an inode in memory (\<open>GetInMemInode\<close>).
\<close>

fun copy_all :: "('k \<Rightarrow> 'v option) \<Rightarrow> ('k, 'v option) umap \<Rightarrow> ('k, 'v option) umap option" where
  "copy_all get [] = Some []"
| "copy_all get ((k, v) # m) = do { x \<leftarrow> get k; m' \<leftarrow> copy_all get m; Some ((k, Some x) # m') }"

definition populateCheckpointInput ::
    "int \<Rightarrow> (u32 \<Rightarrow> (int \<times> cfs_dinode) option) \<Rightarrow> JMgr \<Rightarrow> CheckpointInput option" where
  "populateCheckpointInput wid minode_of m = do {
     let ci = checkpointInput m;
     inodes \<leftarrow> copy_all (\<lambda>ino. do { (w, d) \<leftarrow> minode_of ino; if w = wid then Some d else None })
       (inodesToCheckpoint ci);
     bmaps \<leftarrow> copy_all (\<lambda>b. if getWidForBitmapBlock b = wid
                            then do { r \<leftarrow> GetStableDataBitmap b m; r } else None)
       (bitmapsToCheckpoint ci);
     imaps \<leftarrow> copy_all (\<lambda>b. if wid = 0 then do { r \<leftarrow> GetStableInodeBitmap b m; r } else None)
       (inodeBitmapsToCheckpoint ci);
     Some \<lparr>ci_n_used = Size (jsuper m), inodesToCheckpoint = inodes,
           bitmapsToCheckpoint = bmaps, inodeBitmapsToCheckpoint = imaps\<rparr> }"

text \<open>\<open>mem_ok\<close>: whether the two allocations of device memory succeed.\<close>

definition prepareForCheckpointing ::
    "bool \<Rightarrow> bool \<Rightarrow> int \<Rightarrow> (u32 \<Rightarrow> (int \<times> cfs_dinode) option) \<Rightarrow> JMgr \<Rightarrow>
     (CheckpointInput option \<times> JMgr) option" where
  "prepareForCheckpointing inode_mem_ok bitmap_mem_ok wid minode_of m =
     (let ci = checkpointInput m;
          numInodes = length (inodesToCheckpoint ci);
          numBitmaps = length (bitmapsToCheckpoint ci) + length (inodeBitmapsToCheckpoint ci)
      in if numInodes \<noteq> 0 \<and> \<not> inode_mem_ok then Some (None, m)
         else if numBitmaps \<noteq> 0 \<and> \<not> bitmap_mem_ok then Some (None, m)
         else do {
           dst \<leftarrow> populateCheckpointInput wid minode_of m;
           Some (Some dst, m\<lparr>checkpointInput := CheckpointInput_new, checkpointInProgress := True\<rparr>) })"

definition onCheckpointSuccess :: "Env \<Rightarrow> u64 \<Rightarrow> CheckpointInput \<Rightarrow> JMgr \<Rightarrow> JMgr option" where
  "onCheckpointSuccess env now src m = do {
     js \<leftarrow> ReleaseFirstNSlots (ci_n_used src) (jsuper m);
     m1 \<leftarrow> WriteJSuper env (m\<lparr>jsuper := SetLastCheckpoint now js\<rparr>);
     Some (m1\<lparr>checkpointInProgress := False,
              immutableBlockBitmaps := bmapsToLockAfterCheckpointCompletes m1,
              bmapsToLockAfterCheckpointCompletes := []\<rparr>) }"

text \<open>The argument is a pointer that the code follows: the null pointer has no result.\<close>

definition onCheckpointFailure :: "CheckpointInput option \<Rightarrow> JMgr \<Rightarrow> JMgr option" where
  "onCheckpointFailure src m = do {
     src \<leftarrow> src;
     let ci = checkpointInput m;
     Some (m\<lparr>checkpointInput := ci\<lparr>
               inodesToCheckpoint :=
                 fold (\<lambda>(k, _). AList.update k None) (inodesToCheckpoint src) (inodesToCheckpoint ci),
               bitmapsToCheckpoint :=
                 fold (\<lambda>(k, _). AList.update k None) (bitmapsToCheckpoint src) (bitmapsToCheckpoint ci)\<rparr>,
             checkpointInProgress := False,
             bmapsToLockAfterCheckpointCompletes := []\<rparr>) }"

text \<open>
  \<open>checkpointAllJournals\<close> over all workers: every worker prepares; if one could not, all are
  told of the failure; otherwise all inodes and bitmaps are written (\<open>failed\<close>: whether a write
  completed with an error) and all workers are told the outcome. The workers run one after the
  other here, in index order.
\<close>

fun map_opt :: "('a \<Rightarrow> 'b option) \<Rightarrow> 'a list \<Rightarrow> 'b list option" where
  "map_opt f [] = Some []"
| "map_opt f (x # xs) = do { y \<leftarrow> f x; ys \<leftarrow> map_opt f xs; Some (y # ys) }"

definition notifyAllProcsOnCheckpointComplete ::
    "Env \<Rightarrow> u64 \<Rightarrow> bool \<Rightarrow> (CheckpointInput option \<times> JMgr) list \<Rightarrow> JMgr list option" where
  "notifyAllProcsOnCheckpointComplete env now success prepared =
     map_opt (\<lambda>(ci, m). if success then do { c \<leftarrow> ci; onCheckpointSuccess env now c m }
                       else onCheckpointFailure ci m) prepared"

definition checkpoint_sectors :: "CheckpointInput \<Rightarrow> u64 list" where
  "checkpoint_sectors ci =
     map (\<lambda>(ino, _). ucast (calcSectorForInode ino)) (inodesToCheckpoint ci) @
     map (\<lambda>(b, _). b * 8) (bitmapsToCheckpoint ci) @
     map (\<lambda>(b, _). b * 8) (inodeBitmapsToCheckpoint ci)"

definition checkpointAllJournals ::
    "Env \<Rightarrow> u64 \<Rightarrow> (int \<Rightarrow> bool \<times> bool) \<Rightarrow> (u32 \<Rightarrow> (int \<times> cfs_dinode) option) \<Rightarrow> (u64 list \<Rightarrow> bool) \<Rightarrow>
     JMgr list \<Rightarrow> JMgr list option" where
  "checkpointAllJournals env now mem_ok minode_of failed ms = do {
     prepared \<leftarrow> map_opt (\<lambda>(wid, m). prepareForCheckpointing (fst (mem_ok wid)) (snd (mem_ok wid))
                                    wid minode_of m)
                   (zip [0..int (length ms) - 1] ms);
     if \<not> list_all (\<lambda>(ci, m). ci \<noteq> None) prepared
     then notifyAllProcsOnCheckpointComplete env now False prepared
     else let sectors = concat (map (\<lambda>(ci, m). checkpoint_sectors (the ci)) prepared)
          in notifyAllProcsOnCheckpointComplete env now (\<not> failed sectors) prepared }"

subsection \<open>Who may start a checkpoint\<close>

text \<open>
  The coordination of checkpoints in \<open>FsProc\<close>: a worker proposes unless the flag
  \<open>inGlobalCheckpointing\<close> is set; the primary worker answers a proposal by setting the flag
  and assigning the checkpoint to the proposer. Messages are delivered in order.
\<close>

datatype chk_msg = PROPOSE_CHECKPOINT nat | ASSIGN_CHECKPOINT_TO_WORKER nat

record Coordinator =
  inGlobalCheckpointing :: bool
  messages :: "chk_msg list"
  performed :: "nat list"

definition proposeJournalCheckpointing :: "nat \<Rightarrow> Coordinator \<Rightarrow> Coordinator" where
  "proposeJournalCheckpointing wid c =
     (if inGlobalCheckpointing c then c
      else c\<lparr>messages := messages c @ [PROPOSE_CHECKPOINT wid]\<rparr>)"

definition setInCheckpointing :: "Coordinator \<Rightarrow> bool \<times> Coordinator" where
  "setInCheckpointing c =
     (if inGlobalCheckpointing c then (False, c) else (True, c\<lparr>inGlobalCheckpointing := True\<rparr>))"

definition processCheckpointMessage :: "Coordinator \<Rightarrow> Coordinator" where
  "processCheckpointMessage c =
     (case messages c of
        [] \<Rightarrow> c
      | PROPOSE_CHECKPOINT wid # ms \<Rightarrow>
          (case setInCheckpointing (c\<lparr>messages := ms\<rparr>) of (b, c') \<Rightarrow>
             if b then c'\<lparr>messages := messages c' @ [ASSIGN_CHECKPOINT_TO_WORKER wid]\<rparr> else c')
      | ASSIGN_CHECKPOINT_TO_WORKER wid # ms \<Rightarrow>
          c\<lparr>messages := ms, performed := performed c @ [wid]\<rparr>)"

end
