(* ===== verification/Ufs_BitmapSync.thy ===== *)
theory Ufs_BitmapSync
  imports Ufs_AllocLoop Ufs_JournalMgr
begin

text \<open>
  What happens to the bitmaps when a journal entry has been written (\<open>FsProc_FileMng.cc\<close>). Each
  bitmap block has two copies: the dirty one that allocations change, and the stable one that
  follows the journal and is meant to be checkpointed. The changes of an entry are sorted by the
  worker that owns the bitmap block; the own ones are applied at once, the others are sent. A
  deallocation clears the bit in both copies; if it was journalled by another worker, the bitmap
  block is locked until the next checkpoint.

  \<^const>\<open>Abort\<close> is a failed assertion, \<^const>\<open>Throw\<close> an exception. The set of locked bitmap blocks is
  a member of \<open>FsImpl\<close>; the journal manager keeps its own view of it for checkpoints.
\<close>

subsection \<open>State\<close>

record FileMng =
  getWid :: int
  fsImpl :: FsImpl
  jmgr :: JMgr

record BitmapChangeOps =
  blocksToSet :: "u64 list"
  blocksToClear :: "u64 list"
  inodeBitmapChanges :: "(u32, bool) umap"

definition BitmapChangeOps_new :: BitmapChangeOps where
  "BitmapChangeOps_new = \<lparr>blocksToSet = [], blocksToClear = [], inodeBitmapChanges = []\<rparr>"

type_synonym wid_ops = "(int, BitmapChangeOps) umap"

subsection \<open>Sorting the changes of an entry\<close>

definition getOrCreateBitmapChangeOpsForWid :: "int \<Rightarrow> wid_ops \<Rightarrow> BitmapChangeOps \<times> wid_ops" where
  "getOrCreateBitmapChangeOpsForWid wid m =
     (case map_of m wid of
        Some ops \<Rightarrow> (ops, m)
      | None \<Rightarrow> (BitmapChangeOps_new, AList.update wid BitmapChangeOps_new m))"

definition updateWidToBitmapChangeOps :: "int \<Rightarrow> bool \<Rightarrow> u64 \<Rightarrow> wid_ops \<Rightarrow> wid_ops" where
  "updateWidToBitmapChangeOps wid add_or_del block_no m =
     (case getOrCreateBitmapChangeOpsForWid wid m of (ops, m') \<Rightarrow>
        AList.update wid
          (if add_or_del then ops\<lparr>blocksToSet := blocksToSet ops @ [block_no]\<rparr>
           else ops\<lparr>blocksToClear := blocksToClear ops @ [block_no]\<rparr>) m')"

definition owner_of_pba :: "u64 \<Rightarrow> int" where
  "owner_of_pba block_no = getWidForBitmapBlock (ucast (get_bmap_block_for_pba (ucast block_no)))"

definition sort_blocks :: "u64 list \<Rightarrow> bool \<Rightarrow> wid_ops \<Rightarrow> wid_ops" where
  "sort_blocks blocks set_or_clear m =
     fold (\<lambda>b. updateWidToBitmapChangeOps (owner_of_pba b) set_or_clear b) blocks m"

definition sort_changes :: "JournalEntry \<Rightarrow> wid_ops" where
  "sort_changes je =
     (let m = sort_blocks (blocks_for_bitmap_clear je) False (sort_blocks (blocks_for_bitmap_set je) True [])
      in if inode_alloc_dealloc je = [] then m
         else case getOrCreateBitmapChangeOpsForWid 0 m of (ops, m') \<Rightarrow>
           AList.update 0 (ops\<lparr>inodeBitmapChanges :=
             fold (\<lambda>(k, v) c. if map_of c k = None then AList.update k v c else c) (inode_alloc_dealloc je)
               (inodeBitmapChanges ops)\<rparr>) m')"

subsection \<open>Applying changes\<close>

text \<open>The bit of a data block in the stable bitmap; \<open>f\<close> sets or clears.\<close>

definition stable_bit :: "(u32 \<Rightarrow> bytes \<Rightarrow> (int \<times> bytes) option) \<Rightarrow> u32 \<Rightarrow> FileMng \<Rightarrow> FileMng res" where
  "stable_bit f lba fm =
     (let bno = ucast (get_bmap_block_for_lba lba)
      in res_bind (of_opt (GetStableDataBitmap bno (jmgr fm))) (\<lambda>r.
         res_bind (of_opt r) (\<lambda>bm.
         res_bind (of_opt (f (ucast (ucast lba mod BPB)) bm)) (\<lambda>(_, bm').
           Inr (fm\<lparr>jmgr := (jmgr fm)\<lparr>stableDataBitmaps := AList.update bno bm' (stableDataBitmaps (jmgr fm))\<rparr>\<rparr>)))))"

text \<open>
  The two loops of \<open>updateBlockBitmaps\<close>. The local variable \<open>bitmapsToCheckpoint\<close> is a copy of the
  manager's map, and ends with the function.
\<close>

type_synonym upd_state = "(u64, bytes option) umap \<times> u32 uset \<times> FileMng"

definition set_block :: "u64 \<Rightarrow> upd_state \<Rightarrow> upd_state res" where
  "set_block block_no = (\<lambda>(bitmapsToCheckpoint, cleared, fm).
     let lba = ucast (conv_pba_to_lba block_no); bno = get_bmap_block_for_lba lba
     in if getWidForBitmapBlock (ucast bno) \<noteq> getWid fm then Inl Abort
        else res_bind (stable_bit block_set_bit lba fm) (\<lambda>fm'.
          Inr (AList.update (ucast bno) None bitmapsToCheckpoint, cleared, fm')))"

definition clear_block :: "u64 \<Rightarrow> upd_state \<Rightarrow> upd_state res" where
  "clear_block block_no = (\<lambda>(bitmapsToCheckpoint, cleared, fm).
     let lba = ucast (conv_pba_to_lba block_no); bno = get_bmap_block_for_lba lba
     in if getWidForBitmapBlock (ucast bno) \<noteq> getWid fm then Inl Abort
        else res_bind (stable_bit block_clear_bit lba fm) (\<lambda>fm1.
          res_bind (clear_dirty lba (fsImpl fm1)) (\<lambda>fs.
            Inr (AList.update (ucast bno) None bitmapsToCheckpoint, List.insert bno cleared, fm1\<lparr>fsImpl := fs\<rparr>))))"

definition updateBlockBitmaps :: "u64 list \<Rightarrow> u64 list \<Rightarrow> FileMng \<Rightarrow> (u32 uset \<times> FileMng) res" where
  "updateBlockBitmaps blocks_to_set blocks_to_clear fm =
     res_bind (fold_res set_block blocks_to_set (bitmapsToCheckpoint (checkpointInput (jmgr fm)), [], fm)) (\<lambda>st.
     res_bind (fold_res clear_block blocks_to_clear st) (\<lambda>(_, cleared, fm'). Inr (cleared, fm')))"

definition getDirtyInodeBitmap :: "u32 \<Rightarrow> FsImpl \<Rightarrow> bytes option" where
  "getDirtyInodeBitmap bno fs =
     (let off = uint (ucast bno - get_imap_start_block)
      in if off < int (length (iMapBlocks fs)) then Some (iMapBlocks fs ! nat off) else None)"

definition inode_bit :: "u32 \<times> bool \<Rightarrow> (u64, bytes option) umap \<times> FileMng \<Rightarrow> ((u64, bytes option) umap \<times> FileMng) res" where
  "inode_bit = (\<lambda>(ino, created) (inodeBitmapsToCheckpoint, fm).
     let bno = get_imap_for_inode (ucast ino); i = ucast (ucast ino mod BPB); m = jmgr fm;
         put = (\<lambda>bm'. m\<lparr>stableInodeBitmaps := AList.update (ucast bno) bm' (stableInodeBitmaps m)\<rparr>);
         chk = AList.update (ucast bno) None inodeBitmapsToCheckpoint
     in res_bind (of_opt (GetStableInodeBitmap (ucast bno) m)) (\<lambda>r.
        res_bind (of_opt r) (\<lambda>bm.
          if created
          then res_bind (of_opt (block_set_bit i bm)) (\<lambda>(_, bm'). Inr (chk, fm\<lparr>jmgr := put bm'\<rparr>))
          else res_bind (of_opt (block_clear_bit i bm)) (\<lambda>(_, bm').
               res_bind (of_opt (getDirtyInodeBitmap bno (fsImpl fm))) (\<lambda>d.
               res_bind (of_opt (block_clear_bit i d)) (\<lambda>(_, d').
                 Inr (chk, fm\<lparr>jmgr := put bm', fsImpl := (fsImpl fm)\<lparr>iMapBlocks :=
                   (iMapBlocks (fsImpl fm))[nat (uint (ucast bno - get_imap_start_block)) := d']\<rparr>\<rparr>)))))))"

definition processInodeBitmapChanges :: "(u32, bool) umap \<Rightarrow> FileMng \<Rightarrow> FileMng res" where
  "processInodeBitmapChanges changes fm =
     (if changes \<noteq> [] \<and> getWid fm \<noteq> 0
      then Inl (Throw ''inodeBitmapChanges cannot be handled by secondary workers'')
      else res_bind (fold_res inode_bit changes (inodeBitmapsToCheckpoint (checkpointInput (jmgr fm)), fm)) (\<lambda>(_, fm'). Inr fm'))"

fun all_stable :: "u32 list \<Rightarrow> JMgr \<Rightarrow> bool res" where
  "all_stable [] m = Inr True"
| "all_stable (b # bs) m =
     res_bind (of_opt (GetStableDataBitmap (ucast b) m)) (\<lambda>r. if r = None then Inr False else all_stable bs m)"

definition allBitmapsInMemory :: "BitmapChangeOps \<Rightarrow> FileMng \<Rightarrow> bool res" where
  "allBitmapsInMemory changes fm =
     all_stable (remdups (map (\<lambda>b. get_bmap_block_for_pba (ucast b)) (blocksToSet changes @ blocksToClear changes))) (jmgr fm)"

definition lockBitmaps :: "u32 uset \<Rightarrow> FileMng \<Rightarrow> FileMng" where
  "lockBitmaps bs fm = fm\<lparr>
     fsImpl := (fsImpl fm)\<lparr>immutableBitmaps := fold List.insert bs (immutableBitmaps (fsImpl fm))\<rparr>,
     jmgr := (jmgr fm)\<lparr>immutableBlockBitmaps := fold List.insert bs (immutableBlockBitmaps (jmgr fm))\<rparr>\<rparr>"

definition processBitmapChanges :: "BitmapChangeOps \<Rightarrow> bool \<Rightarrow> FileMng \<Rightarrow> FileMng res" where
  "processBitmapChanges changes journalled_locally fm =
     res_bind (allBitmapsInMemory changes fm) (\<lambda>ok.
       if \<not> ok then Inl Abort
       else res_bind (processInodeBitmapChanges (inodeBitmapChanges changes) fm) (\<lambda>fm1.
         res_bind (updateBlockBitmaps (blocksToSet changes) (blocksToClear changes) fm1) (\<lambda>(cleared, fm2).
           if journalled_locally \<or> cleared = [] then Inr fm2
           else let fm3 = lockBitmaps cleared fm2
                in Inr (fm3\<lparr>jmgr := registerBitmapsWithDeallocations cleared (jmgr fm3)\<rparr>))))"

subsection \<open>Own changes and messages\<close>

text \<open>The messages \<open>BITMAP_CHANGES\<close>, each with the worker it goes to.\<close>

definition updateBitmapsOnJournalWriteComplete :: "JournalEntry \<Rightarrow> FileMng \<Rightarrow> (wid_ops \<times> FileMng) res" where
  "updateBitmapsOnJournalWriteComplete je fm =
     (let m = sort_changes je; wid = getWid fm
      in case map_of m wid of
           Some ops \<Rightarrow> res_bind (processBitmapChanges ops True fm) (\<lambda>fm'. Inr (AList.delete wid m, fm'))
         | None \<Rightarrow> Inr (m, fm))"

text \<open>
  The receiver: first the missing bitmap blocks are read, then the changes are applied.
  \<open>None\<close> for the state means that the request has been released.
\<close>

datatype RemoteState = REMOTE_BITMAP_CHANGES_INIT | REMOTE_BITMAP_CHANGES_BMAPS_READY

fun request_missing :: "u32 list \<Rightarrow> FileMng \<Rightarrow> (nat \<times> FileMng) res" where
  "request_missing [] fm = Inr (0, fm)"
| "request_missing (b # bs) fm =
     res_bind (of_opt (GetStableDataBitmap (ucast b) (jmgr fm))) (\<lambda>r.
       if r \<noteq> None then request_missing bs fm
       else if bmapInMem (fsImpl fm) b then Inl (Throw ''Bitmap block not in stable map'')
       else res_bind (request_missing bs (fm\<lparr>fsImpl := request_bmap b (fsImpl fm)\<rparr>)) (\<lambda>(n, fm'). Inr (Suc n, fm')))"

definition processRemoteBitmapChanges ::
    "BitmapChangeOps \<Rightarrow> RemoteState \<Rightarrow> FileMng \<Rightarrow> (RemoteState option \<times> FileMng) res" where
  "processRemoteBitmapChanges changes st fm =
     (let ready = (\<lambda>fm. res_bind (processBitmapChanges changes False fm) (\<lambda>fm'. Inr (None, fm')))
      in case st of
           REMOTE_BITMAP_CHANGES_BMAPS_READY \<Rightarrow> ready fm
         | REMOTE_BITMAP_CHANGES_INIT \<Rightarrow>
             res_bind (request_missing (remdups (map (\<lambda>b. get_bmap_block_for_pba (ucast b)) (blocksToClear changes))) fm)
               (\<lambda>(n, fm'). if n \<noteq> 0 then Inr (Some REMOTE_BITMAP_CHANGES_BMAPS_READY, fm') else ready fm'))"

text \<open>A bitmap block arrives from the device: \<open>submitDevAsyncReadReqCompletion\<close> makes the stable copy.\<close>

definition bmap_arrives :: "u32 \<Rightarrow> bytes \<Rightarrow> FileMng \<Rightarrow> FileMng res" where
  "bmap_arrives b buf fm =
     res_bind (if isBitmapBlock (ucast b) then of_opt (CopyBufToStableDataBitmap (ucast b) buf (jmgr fm)) else Inr (jmgr fm)) (\<lambda>m.
       Inr (fm\<lparr>jmgr := m, fsImpl := (fsImpl fm)\<lparr>bmapBlocks := (bmapBlocks (fsImpl fm))(b := buf),
         bmapInMem := (bmapInMem (fsImpl fm))(b := True)\<rparr>\<rparr>))"

end
