(* ===== verification/Ufs_JournalProps.thy ===== *)
theory Ufs_JournalProps
  imports Ufs_JournalMgr
begin

text \<open>
  Properties of the journal manager: the order of device writes, that a transaction attempt
  always returns, and what goes wrong around checkpoints and superblock writes.
\<close>

subsection \<open>At most one checkpoint\<close>

datatype coord_step = Propose nat | Deliver

fun coord_do :: "coord_step \<Rightarrow> Coordinator \<Rightarrow> Coordinator" where
  "coord_do (Propose wid) = proposeJournalCheckpointing wid"
| "coord_do Deliver = processCheckpointMessage"

definition coord_init :: Coordinator where
  "coord_init = \<lparr>inGlobalCheckpointing = False, messages = [], performed = []\<rparr>"

fun is_assign :: "chk_msg \<Rightarrow> bool" where
  "is_assign (ASSIGN_CHECKPOINT_TO_WORKER w) = True"
| "is_assign (PROPOSE_CHECKPOINT w) = False"

definition coord_inv :: "Coordinator \<Rightarrow> bool" where
  "coord_inv c \<longleftrightarrow>
     length (filter is_assign (messages c)) + length (performed c) \<le> (if inGlobalCheckpointing c then 1 else 0)"

lemma coord_inv_step: "coord_inv c \<Longrightarrow> coord_inv (coord_do op c)"
  by (cases op)
     (auto simp: coord_inv_def proposeJournalCheckpointing_def processCheckpointMessage_def
       setInCheckpointing_def split: list.splits chk_msg.splits if_splits)

lemma coord_inv_run: "coord_inv (fold coord_do ops coord_init)"
proof -
  have "coord_inv c \<Longrightarrow> coord_inv (fold coord_do ops c)" for c
    by (induction ops arbitrary: c) (simp_all add: coord_inv_step)
  then show ?thesis by (simp add: coord_inv_def coord_init_def)
qed



subsection \<open>Failed checkpoint preparation\<close>

lemma map_opt_None: "x \<in> set xs \<Longrightarrow> f x = None \<Longrightarrow> map_opt f xs = None"
  by (induction xs) (auto split: bind_splits)

lemma map_opt_mem:
  "map_opt f xs = Some ys \<Longrightarrow> x \<in> set xs \<Longrightarrow> \<exists>y \<in> set ys. f x = Some y"
  by (induction xs arbitrary: ys) (auto split: bind_splits)

text \<open>A worker that cannot prepare for a checkpoint brings the checkpoint down. If a worker
  has inodes to checkpoint and the allocation of its device memory fails, then running the
  checkpoint over all workers has no result: every worker is told of the failure with its own
  checkpoint input, and the handler follows the null pointer of the worker that failed.\<close>

theorem failed_preparation_crashes:
  assumes "i < length ms" "inodesToCheckpoint (checkpointInput (ms ! i)) \<noteq> []"
    "\<not> fst (mem_ok (int i))"
  shows "checkpointAllJournals env now mem_ok minode_of failed ms = None"
proof (rule ccontr)
  let ?f = "\<lambda>(wid, m). prepareForCheckpointing (fst (mem_ok wid)) (snd (mem_ok wid)) wid minode_of m"
  let ?ws = "zip [0..int (length ms) - 1] ms"
  assume "\<not> ?thesis"
  then obtain prepared where p: "map_opt ?f ?ws = Some prepared"
    by (auto simp: checkpointAllJournals_def split: bind_splits)
  have "(int i, ms ! i) \<in> set ?ws"
    using assms(1) by (auto simp: set_zip intro!: exI [of _ i])
  moreover have "?f (int i, ms ! i) = Some (None, ms ! i)"
    using assms(2,3) by (simp add: prepareForCheckpointing_def Let_def)
  ultimately have mem: "(None, ms ! i) \<in> set prepared"
    using map_opt_mem [OF p] by fastforce
  then have "\<not> list_all (\<lambda>(ci, m). ci \<noteq> None) prepared" by (auto simp: list_all_iff)
  moreover have "notifyAllProcsOnCheckpointComplete env now False prepared = None"
    unfolding notifyAllProcsOnCheckpointComplete_def
    using mem by (rule map_opt_None) (simp add: onCheckpointFailure_def)
  ultimately have "checkpointAllJournals env now mem_ok minode_of failed ms = None"
    using p by (simp add: checkpointAllJournals_def)
  with \<open>\<not> ?thesis\<close> show False by simp
qed

definition demo_env :: Env where
  "demo_env = \<lparr>clock = (\<lambda>n. of_nat (1000 + n)), accepts = (\<lambda>n. True), pad_of = (\<lambda>_. (0, 0, 0)),
     flush_supported = True, over_ratio = (\<lambda>used size. 10 * unat used > 9 * unat size)\<rparr>"

definition demo_mgr :: JMgr where
  "demo_mgr = \<lparr>jsuper = JSuper_of demo_journal, je_queue = [], pinned_mem_queue = [0..<kMaxInFlight],
     checkpointInput = CheckpointInput_new, checkpointInProgress = False,
     bmapsToLockAfterCheckpointCompletes = [], immutableBlockBitmaps = [],
     stableDataBitmaps = [], stableInodeBitmaps = [], in_flight_cmds = [], history = [],
     ticks = 0, n_cmds = 0\<rparr>"

lemma demo_mgr_new: "JournalManager_new demo_journal = Inr demo_mgr"
  by (simp add: JournalManager_new_def demo_mgr_def demo_journal_def JSUPER_MAGIC_def)

theorem failed_preparation_crashes_witness:
  "checkpointAllJournals demo_env 5 (\<lambda>wid. (wid \<noteq> 1, True)) (\<lambda>ino. Some (1, demo_dinode)) (\<lambda>_. False)
     [demo_mgr, demo_mgr\<lparr>checkpointInput := CheckpointInput_new\<lparr>inodesToCheckpoint := [(7, None)]\<rparr>\<rparr>]
   = None"
  using failed_preparation_crashes
    [of 1 "[demo_mgr, demo_mgr\<lparr>checkpointInput := CheckpointInput_new\<lparr>inodesToCheckpoint := [(7, None)]\<rparr>\<rparr>]"
      "\<lambda>wid. (wid \<noteq> 1, True)"]
  by simp

subsection \<open>A transaction attempt returns\<close>

definition mgr_ok :: "JMgr \<Rightarrow> bool" where
  "mgr_ok m \<longleftrightarrow> ring_ok (djsuper (jsuper m)) \<and>
     (\<forall>je \<in> set (je_queue m). pinned_mem je = None \<and> calcBodySize je < 2 ^ 63)"

lemma calcBodySize_update [simp]:
  "calcBodySize (je\<lparr>start_block := a\<rparr>) = calcBodySize je"
  "calcBodySize (je\<lparr>nblocks := a\<rparr>) = calcBodySize je"
  "calcBodySize (je\<lparr>je_state := st\<rparr>) = calcBodySize je"
  "calcBodySize (je\<lparr>pinned_mem := p\<rparr>) = calcBodySize je"
  "calcBodySize (je\<lparr>ustime_serialized := a\<rparr>) = calcBodySize je"
  by (simp_all add: calcBodySize_def)

lemma jblocks_required_nat:
  assumes "calcBodySize je < 2 ^ 63"
  shows "unat (jblocks_required je) = (calcBodySize je + 4095) div 4096 + 1" "2 \<le> unat (jblocks_required je)"
    "unat (jblocks_required je) \<le> 32 \<Longrightarrow> calcBodySize je \<le> kMaxJournalBodySize"
proof -
  have lt: "(calcBodySize je + 4095) div 4096 < 2 ^ 63" using assms by simp
  show eq: "unat (jblocks_required je) = (calcBodySize je + 4095) div 4096 + 1"
    using lt by (simp add: jblocks_required_def BSIZE_def unat_add_no_overflow unat_of_nat)
  have "48 \<le> calcBodySize je" by (simp add: calcBodySize_sum)
  then show "2 \<le> unat (jblocks_required je)" by (simp add: eq)
  show "calcBodySize je \<le> kMaxJournalBodySize" if "unat (jblocks_required je) \<le> 32"
    using that by (simp add: eq kMaxJournalBodySize_def MAX_JOURNAL_ENTRY_SIZE_def BSIZE_def)
qed

lemma WriteJSuper_returns:
  assumes "\<forall>n. accepts env n"
  shows "\<exists>m'. WriteJSuper env m = Some m' \<and> djsuper (jsuper m') = djsuper (jsuper m) \<and>
    je_queue m' = je_queue m \<and> pinned_mem_queue m' = pinned_mem_queue m"
  using assms
  by (auto simp: WriteJSuper_def submit_def TrySetWriteInProgress_def)

lemma acquire_returns:
  assumes "ring_ok (djsuper s)" "unat n \<le> 32"
  shows "\<exists>slot j. AcquireNextNSlots n s = Some (slot, j) \<and> ring_ok (djsuper j) \<and>
    (no_space slot \<or> retry_after_jsuper_written slot \<longrightarrow> j = s) \<and>
    (\<not> no_space slot \<and> \<not> retry_after_jsuper_written slot \<longrightarrow>
       start_idx slot = Some (head (djsuper s)) \<and> write_jsuper slot \<noteq> None \<and>
       same_geometry (djsuper s) (djsuper j))"
proof -
  have wf: "wf_disk (djsuper s)" "contig (djsuper s) (unat (tail (djsuper s)))"
    using assms(1) by (simp_all add: ring_ok_def)
  show ?thesis
  proof (cases "nblocks_unaccounted s < 51200 \<and> unat (n_used (djsuper s)) + unat n \<le> cap (djsuper s)")
    case True
    then have "nblocks_unaccounted s < 51200" "unat (n_used (djsuper s)) + unat n \<le> cap (djsuper s)"
      by simp_all
    with wf assms(2) show ?thesis
      by (rule acquire_wf) (use wf in \<open>auto simp: ring_ok_def same_geometry_def contig_def\<close>)
  next
    case False
    then have "51200 \<le> nblocks_unaccounted s \<or> cap (djsuper s) < unat (n_used (djsuper s)) + unat n"
      by auto
    moreover have "unat n \<le> 2 ^ 62" using assms(2) by simp
    ultimately obtain slot where "AcquireNextNSlots n s = Some (slot, s)"
      "no_space slot \<longleftrightarrow> cap (djsuper s) < unat (n_used (djsuper s)) + unat n"
      "retry_after_jsuper_written slot \<longleftrightarrow> 51200 \<le> nblocks_unaccounted s"
      using acquire_abort [OF wf(1)] by blast
    with False assms(1) show ?thesis by (auto simp: not_less not_le)
  qed
qed

text \<open>Processing an entry that got its blocks submits the write of its body.\<close>

lemma process_body:
  assumes "je_state je = WRITE_BODY" "pinned_mem je \<noteq> None" "calcBodySize je \<le> kMaxJournalBodySize"
    "2 \<le> nblocks je" "\<forall>n. accepts env n"
  shows "\<exists>m'. processJournalEntry env try je m = Some m' \<and> jsuper m' = jsuper m \<and> je_queue m' = je_queue m"
  using assms serializeBody_length [of "pad_of env" "clock env (ticks m)" je]
  by (auto simp: processJournalEntry_def submit_def not_less split: prod.split)

lemma process_failure:
  assumes "pinned_mem je = None"
  shows "processJournalEntry env try (je\<lparr>je_state := FAILURE\<rparr>) m =
           try (callback (je\<lparr>je_state := FAILURE\<rparr>) False m)"
  using assms by (simp add: processJournalEntry_def ReleasePinnedMem_def)

lemma callback_sel [simp]:
  "jsuper (callback je b m) = jsuper m" "je_queue (callback je b m) = je_queue m"
  "pinned_mem_queue (callback je b m) = pinned_mem_queue m"
  by (simp_all add: callback_def)

text \<open>
  One unfolding of \<open>tryNextTransaction\<close> per branch; \<open>front\<close> is the entry it looks at and
  \<open>popped\<close> the state without it.
\<close>

definition front :: "JMgr \<Rightarrow> JournalEntry" where
  "front m = (hd (je_queue m))\<lparr>start_block := 0, nblocks := 0\<rparr>"

definition popped :: "JSuper \<Rightarrow> JMgr \<Rightarrow> JMgr" where
  "popped js m = m\<lparr>je_queue := tl (je_queue m), jsuper := js\<rparr>"

definition ready :: "JMgr \<Rightarrow> bool" where
  "ready m \<longleftrightarrow> je_queue m \<noteq> [] \<and> pinned_mem_queue m \<noteq> []"

lemma popped_same: "popped (jsuper m) m = m\<lparr>je_queue := tl (je_queue m)\<rparr>"
  by (simp add: popped_def)

lemma try_idle: "\<not> ready m \<Longrightarrow> tryNextTransaction env m = Some m"
  by (subst tryNextTransaction.simps) (simp add: attempt_transaction_def ready_def)

lemma try_too_big:
  "ready m \<Longrightarrow> jblocks_required (front m) > 32 \<Longrightarrow>
   tryNextTransaction env m =
     processJournalEntry env (tryNextTransaction env) ((front m)\<lparr>je_state := FAILURE\<rparr>)
       (popped (jsuper m) m)"
  by (subst tryNextTransaction.simps) (simp add: attempt_transaction_def ready_def front_def popped_same Let_def)

lemma try_no_space:
  "ready m \<Longrightarrow> \<not> jblocks_required (front m) > 32 \<Longrightarrow>
   AcquireNextNSlots (jblocks_required (front m)) (jsuper m) = Some (slot, js) \<Longrightarrow> no_space slot \<Longrightarrow>
   tryNextTransaction env m =
     processJournalEntry env (tryNextTransaction env) ((front m)\<lparr>je_state := FAILURE\<rparr>) (popped js m)"
  by (subst tryNextTransaction.simps) (simp add: attempt_transaction_def ready_def front_def popped_def Let_def)

lemma try_retry:
  "ready m \<Longrightarrow> \<not> jblocks_required (front m) > 32 \<Longrightarrow>
   AcquireNextNSlots (jblocks_required (front m)) (jsuper m) = Some (slot, js) \<Longrightarrow> \<not> no_space slot \<Longrightarrow>
   retry_after_jsuper_written slot \<Longrightarrow>
   tryNextTransaction env m = Some (m\<lparr>jsuper := js, je_queue := front m # tl (je_queue m)\<rparr>)"
  by (subst tryNextTransaction.simps) (simp add: attempt_transaction_def ready_def front_def Let_def)

definition started :: "u64 \<Rightarrow> u64 \<Rightarrow> JournalEntry \<Rightarrow> JournalEntry" where
  "started b req je = je\<lparr>start_block := b, nblocks := req, je_state := WRITE_BODY\<rparr>"

lemma try_go:
  "ready m \<Longrightarrow> \<not> jblocks_required (front m) > 32 \<Longrightarrow>
   AcquireNextNSlots (jblocks_required (front m)) (jsuper m) = Some (slot, js) \<Longrightarrow> \<not> no_space slot \<Longrightarrow>
   \<not> retry_after_jsuper_written slot \<Longrightarrow> start_idx slot = Some i \<Longrightarrow> write_jsuper slot = Some w \<Longrightarrow>
   (if w then WriteJSuper env (popped js m) else Some (popped js m)) = Some m1 \<Longrightarrow>
   NoLoopArounds (djsuper (jsuper m1)) i (jblocks_required (front m)) = Some True \<Longrightarrow>
   IdxToBlockNo (djsuper (jsuper m1)) i = Some b \<Longrightarrow>
   tryNextTransaction env m = do {
     (je', m2) \<leftarrow> AcquirePinnedMem (started b (jblocks_required (front m)) (front m)) m1;
     processJournalEntry env (tryNextTransaction env) je' m2 }"
  unfolding popped_def
  by (subst tryNextTransaction.simps)
     (simp add: attempt_transaction_def ready_def front_def started_def Let_def split del: if_split)

lemma front_ok:
  assumes "mgr_ok m" "ready m"
  shows "pinned_mem (front m) = None" "calcBodySize (front m) < 2 ^ 63" "je_queue m \<noteq> []"
    "ring_ok (djsuper (jsuper m))"
  using assms by (auto simp: mgr_ok_def ready_def front_def dest: hd_in_set)

lemma mgr_ok_popped:
  assumes "mgr_ok m" "ready m" "ring_ok (djsuper js)"
  shows "mgr_ok (callback je b (popped js m))"
  using assms by (auto simp: mgr_ok_def popped_def ready_def dest: list.set_sel(2))

lemma start_returns:
  assumes "mgr_ok m" "ready m" "\<not> jblocks_required (front m) > 32" "\<forall>n. accepts env n"
    "AcquireNextNSlots (jblocks_required (front m)) (jsuper m) = Some (slot, js)"
    "\<not> no_space slot" "\<not> retry_after_jsuper_written slot"
  shows "\<exists>m'. tryNextTransaction env m = Some m' \<and> mgr_ok m'"
proof -
  let ?req = "jblocks_required (front m)"
  note f = front_ok [OF assms(1,2)]
  note req = jblocks_required_nat [OF f(2)]
  have le: "unat ?req \<le> 32" using assms(3) by (simp add: word_less_nat_alt)
  obtain w where w: "write_jsuper slot = Some w" "start_idx slot = Some (head (djsuper (jsuper m)))"
    and ring: "ring_ok (djsuper js)" and geom: "same_geometry (djsuper (jsuper m)) (djsuper js)"
    using acquire_returns [OF f(4) le] assms(5-7) by auto
  obtain m1 where m1: "(if w then WriteJSuper env (popped js m) else Some (popped js m)) = Some m1"
    "djsuper (jsuper m1) = djsuper js" "je_queue m1 = tl (je_queue m)"
    "pinned_mem_queue m1 = pinned_mem_queue m"
    using WriteJSuper_returns [OF assms(4), of "popped js m"] by (cases w) (auto simp: popped_def)
  have ct: "contig (djsuper (jsuper m)) (unat (head (djsuper (jsuper m))))" and wf: "wf_disk (djsuper js)"
    using f(4) ring by (simp_all add: ring_ok_def)
  have loop: "NoLoopArounds (djsuper (jsuper m1)) (head (djsuper (jsuper m))) ?req = Some True"
    using range_no_loop [OF ct wf geom req(2) le] by (simp add: m1(2))
  obtain b where b: "IdxToBlockNo (djsuper (jsuper m1)) (head (djsuper (jsuper m))) = Some b"
    using range_blocks [OF ct wf geom, of 0] by (auto simp: m1(2))
  let ?je = "(started b ?req (front m))\<lparr>pinned_mem := Some (hd (pinned_mem_queue m))\<rparr>"
  let ?m2 = "m1\<lparr>pinned_mem_queue := tl (pinned_mem_queue m)\<rparr>"
  have "AcquirePinnedMem (started b ?req (front m)) m1 = Some (?je, ?m2)"
    using assms(2) f(1) m1(4)
    by (auto simp: AcquirePinnedMem_def started_def ready_def neq_Nil_conv)
  then have "tryNextTransaction env m = processJournalEntry env (tryNextTransaction env) ?je ?m2"
    using try_go [OF assms(2,3,5-7) w(2,1) m1(1) loop b] by simp
  moreover obtain m' where "processJournalEntry env (tryNextTransaction env) ?je ?m2 = Some m'"
    "jsuper m' = jsuper ?m2" "je_queue m' = je_queue ?m2"
    using process_body [of ?je env "tryNextTransaction env" ?m2] req le assms(4)
    by (auto simp: started_def word_le_nat_alt)
  moreover have "\<forall>je \<in> set (tl (je_queue m)). pinned_mem je = None \<and> calcBodySize je < 2 ^ 63"
    using assms(1) by (auto simp: mgr_ok_def dest: list.set_sel(2) [OF f(3)])
  ultimately show ?thesis using ring m1 by (auto simp: mgr_ok_def)
qed

lemma try_returns:
  assumes "mgr_ok m" "\<forall>n. accepts env n"
  shows "\<exists>m'. tryNextTransaction env m = Some m' \<and> mgr_ok m'"
  using assms(1)
proof (induction "length (je_queue m)" arbitrary: m rule: less_induct)
  case less
  show ?case
  proof (cases "ready m")
    case False
    with less.prems show ?thesis by (simp add: try_idle)
  next
    case r: True
    note f = front_ok [OF less.prems r]
    have fail: "\<exists>m'. processJournalEntry env (tryNextTransaction env) ((front m)\<lparr>je_state := FAILURE\<rparr>)
        (popped js m) = Some m' \<and> mgr_ok m'" if "ring_ok (djsuper js)" for js
      unfolding process_failure [OF f(1)]
      using mgr_ok_popped [OF less.prems r that] f(3)
      by (intro less.hyps) (simp_all add: popped_def)
    show ?thesis
    proof (cases "jblocks_required (front m) > 32")
      case True
      with fail [OF f(4)] show ?thesis by (simp add: try_too_big [OF r])
    next
      case False
      then have le: "unat (jblocks_required (front m)) \<le> 32" by (simp add: word_less_nat_alt)
      obtain slot js where a: "AcquireNextNSlots (jblocks_required (front m)) (jsuper m) = Some (slot, js)"
        "ring_ok (djsuper js)" using acquire_returns [OF f(4) le] by blast
      consider "no_space slot" | "\<not> no_space slot" "retry_after_jsuper_written slot"
        | "\<not> no_space slot" "\<not> retry_after_jsuper_written slot" by blast
      then show ?thesis
      proof cases
        case 1
        with fail [OF a(2)] show ?thesis by (simp add: try_no_space [OF r False a(1)])
      next
        case 2
        have "mgr_ok (m\<lparr>jsuper := js, je_queue := front m # tl (je_queue m)\<rparr>)"
          using less.prems a(2) f by (auto simp: mgr_ok_def dest: list.set_sel(2) [OF f(3)])
        then show ?thesis by (simp add: try_retry [OF r False a(1) 2])
      next
        case 3
        then show ?thesis using start_returns [OF less.prems r False assms(2) a(1)] by blast
      qed
    qed
  qed
qed

text \<open>C3: Submitting a journal entry returns. In any manager whose ring is in shape and whose
  queued entries have no buffer yet, with a device that accepts commands, submitting an entry
  ends: no assertion fails, the recursion between processing an entry and starting the next one
  stops, and the manager is in shape again. This covers every outcome: an entry larger than the
  maximum, a full journal, a wait for the superblock, and a started transaction.\<close>

theorem submit_entry_returns:
  assumes "mgr_ok m" "\<forall>n. accepts env n" "pinned_mem je = None" "calcBodySize je < 2 ^ 63"
  shows "\<exists>propose m'. submitJournalEntry env je m = Some (propose, m') \<and> mgr_ok m'"
proof -
  have "mgr_ok (m\<lparr>je_queue := je_queue m @ [je]\<rparr>)"
    using assms by (auto simp: mgr_ok_def)
  from try_returns [OF this assms(2)] show ?thesis
    by (auto simp: submitJournalEntry_def)
qed

lemma demo_entry_size: "calcBodySize demo_entry = 219"
  by (simp add: calcBodySize_def demo_entry_def demo_ile_wf)

lemma demo_mgr_ok: "mgr_ok demo_mgr"
  using demo_journal_ok(1)
  by (simp add: mgr_ok_def demo_mgr_def ring_ok_def boot_ok_def JSuper_of_def contig_def)
     (simp add: demo_journal_def)

theorem submit_entry_returns_witness:
  "\<exists>propose m'. submitJournalEntry demo_env demo_entry demo_mgr = Some (propose, m') \<and> mgr_ok m'"
  by (rule submit_entry_returns)
     (simp_all add: demo_mgr_ok demo_entry_size demo_env_def, simp add: demo_entry_def JournalEntry_new_def)

subsection \<open>A superblock completion that never returns\<close>

text \<open>
  If an attempt changes nothing, the loop repeats it; \<open>raw_induct\<close> of the loop shows that it
  has no result.
\<close>

lemma resume_loop_stuck:
  assumes "tryNextTransaction env m = Some m" "ready m"
  shows "resume_loop env m = None"
proof (rule ccontr)
  assume "resume_loop env m \<noteq> None"
  then obtain r where r: "resume_loop env m = Some r" by blast
  have "e = env \<longrightarrow> m' = m \<longrightarrow> False" if "resume_loop e m' = Some r'" for e m' r'
    using _ that
    by (rule resume_loop.raw_induct [where P = "\<lambda>e m' r'. e = env \<longrightarrow> m' = m \<longrightarrow> False"])
       ((use assms in \<open>auto simp: ready_def split: if_splits\<close>), blast)
  with r show False by blast
qed

lemma throttled_attempt:
  assumes "mgr_ok m" "ready m" "unat (jblocks_required (front m)) \<le> 32"
    "51200 \<le> nblocks_unaccounted (jsuper m)"
    "unat (n_used (djsuper (jsuper m))) + unat (jblocks_required (front m)) \<le> cap (djsuper (jsuper m))"
  shows "tryNextTransaction env m = Some (m\<lparr>je_queue := front m # tl (je_queue m)\<rparr>)"
proof -
  have wf: "wf_disk (djsuper (jsuper m))" using assms(1) by (simp add: mgr_ok_def ring_ok_def)
  obtain slot where a: "AcquireNextNSlots (jblocks_required (front m)) (jsuper m) = Some (slot, jsuper m)"
    "no_space slot \<longleftrightarrow> cap (djsuper (jsuper m)) < unat (n_used (djsuper (jsuper m))) + unat (jblocks_required (front m))"
    "retry_after_jsuper_written slot \<longleftrightarrow> 51200 \<le> nblocks_unaccounted (jsuper m)"
    using acquire_abort [OF wf, of "jblocks_required (front m)"] assms(3,4) by fastforce
  have "\<not> jblocks_required (front m) > 32" using assms(3) by (simp add: word_less_nat_alt)
  from try_retry [OF assms(2) this a(1)] a(2,3) assms(4,5) show ?thesis by simp
qed

text \<open>The completion of a superblock write can spin forever. If more than the maximum of
  unaccounted blocks remain after the write completed (they were used and released while the
  write was in flight), and a transaction is waiting, then the completion handler has no result:
  every attempt is refused until the superblock is written, and the loop repeats it without
  starting that write.\<close>

theorem jsuper_completion_spins:
  assumes "mgr_ok m" "ready m" "calcBodySize (hd (je_queue m)) \<le> kMaxJournalBodySize"
    "write_in_progress (jsuper m)" "old \<le> nblocks_unaccounted (jsuper m)"
    "51200 \<le> nblocks_unaccounted (jsuper m) - old"
    "unat (n_used (djsuper (jsuper m))) + 32 \<le> cap (djsuper (jsuper m))"
  shows "jsuper_write_complete env False old m = None"
proof -
  define js where "js = (jsuper m)\<lparr>write_in_progress := False,
    nblocks_unaccounted := nblocks_unaccounted (jsuper m) - old\<rparr>"
  have js: "djsuper js = djsuper (jsuper m)" "nblocks_unaccounted js = nblocks_unaccounted (jsuper m) - old"
    by (simp_all add: js_def)
  let ?m = "m\<lparr>jsuper := js\<rparr>"
  let ?m1 = "?m\<lparr>je_queue := front ?m # tl (je_queue m)\<rparr>"
  have sz: "calcBodySize (front ?m) \<le> kMaxJournalBodySize" using assms(3) by (simp add: front_def)
  have req: "unat (jblocks_required (front ?m)) \<le> 32"
    using jblocks_required_nat(1) [of "front ?m"] sz
    by (simp add: kMaxJournalBodySize_def MAX_JOURNAL_ENTRY_SIZE_def BSIZE_def)
  have ok: "mgr_ok ?m" "ready ?m" using assms(1,2) by (simp_all add: mgr_ok_def ready_def js)
  have fr: "front ?m1 = front ?m" by (simp add: front_def)
  have ok1: "mgr_ok ?m1" "ready ?m1"
    using ok front_ok [OF ok] by (auto simp: mgr_ok_def ready_def dest: list.set_sel(2))
  have try1: "tryNextTransaction env ?m = Some ?m1"
    using throttled_attempt [of ?m env] ok req assms(6,7) by (simp add: js)
  have "tryNextTransaction env ?m1 = Some (?m1\<lparr>je_queue := front ?m1 # tl (je_queue ?m1)\<rparr>)"
    by (rule throttled_attempt) (use ok1 req assms(6,7) in \<open>simp_all only: fr, simp_all add: js\<close>)
  then have "tryNextTransaction env ?m1 = Some ?m1" by (simp add: fr)
  from resume_loop_stuck [OF this ok1(2)] have "resume_loop env ?m = None"
    using ok(2) try1 by (subst resume_loop.simps) (simp add: ready_def)
  then show ?thesis
    using assms(4,5) by (simp add: jsuper_write_complete_def OnWriteComplete_def Let_def js_def)
qed

definition busy_mgr :: JMgr where
  "busy_mgr = demo_mgr\<lparr>jsuper := (JSuper_of demo_journal)\<lparr>write_in_progress := True,
       nblocks_unaccounted := 51300\<rparr>, je_queue := [demo_entry]\<rparr>"

theorem jsuper_completion_spins_witness: "jsuper_write_complete demo_env False 100 busy_mgr = None"
proof (rule jsuper_completion_spins)
  show "mgr_ok busy_mgr"
    using demo_mgr_ok by (simp add: mgr_ok_def busy_mgr_def demo_mgr_def JSuper_of_def demo_entry_size)
      (simp add: demo_entry_def JournalEntry_new_def)
  show "ready busy_mgr" by (simp add: ready_def busy_mgr_def demo_mgr_def kMaxInFlight_def)
  show "calcBodySize (hd (je_queue busy_mgr)) \<le> kMaxJournalBodySize"
    by (simp add: busy_mgr_def demo_entry_size kMaxJournalBodySize_def MAX_JOURNAL_ENTRY_SIZE_def BSIZE_def)
qed (simp_all add: busy_mgr_def JSuper_of_def demo_journal_def)

end
