(* ===== verification/Ufs_BitmapProps.thy ===== *)
theory Ufs_BitmapProps
  imports Ufs_BitmapSync Ufs_JournalProps
begin

text \<open>
  Properties of the bitmap changes of a journal entry: to whom each change goes, what applying the
  changes does to the two copies of a bitmap, and what reaches the next checkpoint.
\<close>

subsection \<open>To whom a change goes\<close>

text \<open>The changes of an entry for one worker.\<close>

definition ops_for :: "JournalEntry \<Rightarrow> int \<Rightarrow> BitmapChangeOps" where
  "ops_for je w = \<lparr>
     blocksToSet = filter (\<lambda>b. owner_of_pba b = w) (blocks_for_bitmap_set je),
     blocksToClear = filter (\<lambda>b. owner_of_pba b = w) (blocks_for_bitmap_clear je),
     inodeBitmapChanges = (if w = 0 then inode_alloc_dealloc je else [])\<rparr>"

definition ops_at :: "wid_ops \<Rightarrow> int \<Rightarrow> BitmapChangeOps" where
  "ops_at m w = (case map_of m w of None \<Rightarrow> BitmapChangeOps_new | Some ops \<Rightarrow> ops)"

lemma ops_at_update: "ops_at (AList.update w ops m) v = (if v = w then ops else ops_at m v)"
  by (simp add: ops_at_def update_conv')

lemma getOrCreate_ops:
  assumes "getOrCreateBitmapChangeOpsForWid w m = (ops, m')"
  shows "ops = ops_at m w" "ops_at m' v = ops_at m v" "map_of m' v = None \<longleftrightarrow> map_of m v = None \<and> v \<noteq> w"
  using assms by (auto simp: getOrCreateBitmapChangeOpsForWid_def ops_at_def update_conv' split: option.splits if_splits)

lemma updateWid_ops:
  "ops_at (updateWidToBitmapChangeOps w s b m) v =
     (if v = w then (if s then (ops_at m w)\<lparr>blocksToSet := blocksToSet (ops_at m w) @ [b]\<rparr>
                     else (ops_at m w)\<lparr>blocksToClear := blocksToClear (ops_at m w) @ [b]\<rparr>)
      else ops_at m v)"
  "map_of (updateWidToBitmapChangeOps w s b m) v = None \<longleftrightarrow> map_of m v = None \<and> v \<noteq> w"
  using getOrCreate_ops [of w m]
  by (auto simp: updateWidToBitmapChangeOps_def ops_at_update update_conv' split: prod.splits)

lemma sort_blocks_ops:
  "ops_at (sort_blocks bs s m) v =
     (if s then (ops_at m v)\<lparr>blocksToSet := blocksToSet (ops_at m v) @ filter (\<lambda>b. owner_of_pba b = v) bs\<rparr>
      else (ops_at m v)\<lparr>blocksToClear := blocksToClear (ops_at m v) @ filter (\<lambda>b. owner_of_pba b = v) bs\<rparr>)"
  "map_of (sort_blocks bs s m) v = None \<longleftrightarrow> map_of m v = None \<and> (\<forall>b \<in> set bs. owner_of_pba b \<noteq> v)"
  by (induction bs arbitrary: m) (auto simp: sort_blocks_def updateWid_ops)

lemma fold_insert_fresh:
  assumes "wf_umap (acc @ m)"
  shows "fold (\<lambda>(k, v) c. if map_of c k = None then AList.update k v c else c) m acc = acc @ m"
  using assms
proof (induction m arbitrary: acc)
  case (Cons p m)
  obtain k v where p: "p = (k, v)" by (cases p)
  have "k \<notin> fst ` set acc" using Cons.prems by (auto simp: wf_umap_def p)
  then have "map_of acc k = None" "AList.update k v acc = acc @ [p]" by (simp_all add: map_of_eq_None_iff p update_fresh)
  with Cons.IH [of "acc @ [p]"] Cons.prems show ?case by (simp add: p)
qed simp

text \<open>C29: The changes of a journal entry are sorted exactly by owner. The map that
  updateBitmapsOnJournalWriteComplete builds gives every worker the blocks whose bitmap block it
  owns, in order and without loss or duplication, and gives all inode changes to worker 0; a
  worker without changes has no entry, so it gets no message.\<close>

theorem sort_changes_by_owner:
  assumes "wf_umap (inode_alloc_dealloc je)"
  shows "map_of (sort_changes je) w =
    (if ops_for je w = BitmapChangeOps_new then None else Some (ops_for je w))"
proof -
  let ?m = "sort_blocks (blocks_for_bitmap_clear je) False (sort_blocks (blocks_for_bitmap_set je) True [])"
  have ops: "ops_at ?m v = \<lparr>blocksToSet = filter (\<lambda>b. owner_of_pba b = v) (blocks_for_bitmap_set je),
      blocksToClear = filter (\<lambda>b. owner_of_pba b = v) (blocks_for_bitmap_clear je), inodeBitmapChanges = []\<rparr>" for v
    by (simp add: sort_blocks_ops) (simp add: ops_at_def BitmapChangeOps_new_def)
  have none: "map_of ?m v = None \<longleftrightarrow> (\<forall>b \<in> set (blocks_for_bitmap_set je @ blocks_for_bitmap_clear je). owner_of_pba b \<noteq> v)" for v
    by (auto simp: sort_blocks_ops)
  have some: "map_of m v = (if map_of m v = None then None else Some (ops_at m v))" for m v
    by (auto simp: ops_at_def)
  show ?thesis
  proof (cases "inode_alloc_dealloc je = []")
    case True
    then have "sort_changes je = ?m" by (simp add: sort_changes_def)
    then show ?thesis using True ops [of w] none [of w]
      by (subst some) (auto simp: ops_for_def BitmapChangeOps_new_def filter_empty_conv)
  next
    case False
    obtain o' m' where g: "getOrCreateBitmapChangeOpsForWid 0 ?m = (o', m')" by fastforce
    have o': "o' = ops_at ?m 0" by (rule getOrCreate_ops(1) [OF g])
    have f: "fold (\<lambda>(k, v) c. if map_of c k = None then AList.update k v c else c) (inode_alloc_dealloc je) [] = inode_alloc_dealloc je"
      using fold_insert_fresh [of "[]" "inode_alloc_dealloc je"] assms by simp
    have "sort_changes je = AList.update 0 (o'\<lparr>inodeBitmapChanges := inode_alloc_dealloc je\<rparr>) m'"
      using False unfolding sort_changes_def Let_def g by (simp add: o' ops f)
    then show ?thesis
      using False o' getOrCreate_ops(2,3) [OF g, of w] ops [of w] none [of w] ops [of 0] some [of m' w]
      by (auto simp: update_conv' ops_for_def BitmapChangeOps_new_def filter_empty_conv)
  qed
qed

definition demo_changes :: JournalEntry where
  "demo_changes = (JournalEntry_new 1)\<lparr>blocks_for_bitmap_set := [10507793, 31479313],
     blocks_for_bitmap_clear := [10507794], inode_alloc_dealloc := [(7, True)]\<rparr>"

lemma demo_owner: "owner_of_pba 10507793 = 0" "owner_of_pba 31479313 = 1" "owner_of_pba 10507794 = 0"
  by (simp_all add: owner_of_pba_def get_bmap_block_for_pba_def conv_pba_to_lba_def get_bmap_block_for_lba_def
      getWidForBitmapBlock_def BPB_def BSIZE_w_def)

theorem sort_changes_by_owner_witness:
  "map_of (sort_changes demo_changes) 1 =
     Some \<lparr>blocksToSet = [31479313], blocksToClear = [], inodeBitmapChanges = []\<rparr>"
  using sort_changes_by_owner [of demo_changes 1]
  by (simp add: demo_changes_def JournalEntry_new_def wf_umap_def ops_for_def BitmapChangeOps_new_def demo_owner)

subsection \<open>The two copies of a bitmap\<close>

definition lba_of :: "u64 \<Rightarrow> nat" where "lba_of b = unat (conv_pba_to_lba b)"

definition n_lbas :: nat where "n_lbas = 209715200"

definition stable_used :: "FileMng \<Rightarrow> nat \<Rightarrow> bool" where
  "stable_used fm n \<longleftrightarrow> (case map_of (stableDataBitmaps (jmgr fm)) (ucast (bmap_no (n div 32768))) of
     None \<Rightarrow> False | Some bm \<Rightarrow> bset bm (n mod 32768))"

definition dirty_used :: "FileMng \<Rightarrow> nat \<Rightarrow> bool" where
  "dirty_used fm n \<longleftrightarrow> bset (bmapBlocks (fsImpl fm) (bmap_no (n div 32768))) (n mod 32768)"

definition sync_ok :: "FileMng \<Rightarrow> bool" where
  "sync_ok fm \<longleftrightarrow> (\<forall>b. blk_ok (bmapBlocks (fsImpl fm) b)) \<and>
     (\<forall>b bm. map_of (stableDataBitmaps (jmgr fm)) b = Some bm \<longrightarrow> blk_ok bm)"

text \<open>A block of the worker whose bitmap block is in memory, in both copies.\<close>

definition loaded :: "FileMng \<Rightarrow> u64 \<Rightarrow> bool" where
  "loaded fm b \<longleftrightarrow> lba_of b < n_lbas \<and> int (owner (lba_of b)) = getWid fm \<and>
     ucast (bmap_no (lba_of b div 32768)) \<in> dom (map_of (stableDataBitmaps (jmgr fm))) \<and>
     bmapInMem (fsImpl fm) (bmap_no (lba_of b div 32768))"

lemma lba_of_facts:
  assumes "lba_of b < n_lbas"
  shows "get_bmap_block_for_lba (ucast (conv_pba_to_lba b)) = bmap_no (lba_of b div 32768)"
    "getWidForBitmapBlock (ucast (bmap_no (lba_of b div 32768))) = int (owner (lba_of b))"
    "ucast (ucast (ucast (conv_pba_to_lba b) :: u32) mod BPB) = (of_nat (lba_of b mod 32768) :: u32)"
    "isBitmapBlock (ucast (bmap_no (lba_of b div 32768)))"
proof -
  have q: "unat (conv_pba_to_lba b) div 32768 < 6400" using assms by (simp add: lba_of_def n_lbas_def div_less_iff_less_mult)
  note l = lba_of_extent [OF q]
  show "get_bmap_block_for_lba (ucast (conv_pba_to_lba b)) = bmap_no (lba_of b div 32768)"
    "ucast (ucast (ucast (conv_pba_to_lba b) :: u32) mod BPB) = (of_nat (lba_of b mod 32768) :: u32)"
    using l(1,3) by (simp_all add: lba_of_def)
  have "(ucast (bmap_no (lba_of b div 32768)) :: u64) = 10485766 + of_nat (lba_of b div 32768)"
    using unat_bmap_no [OF q] q by (simp add: word_unat_eq_iff unat_ucast_up unat_add_no_overflow unat_of_nat lba_of_def)
  with bitmap_block_nat [of "lba_of b div 32768"] q
  show "getWidForBitmapBlock (ucast (bmap_no (lba_of b div 32768))) = int (owner (lba_of b))"
    "isBitmapBlock (ucast (bmap_no (lba_of b div 32768)))" by (simp_all add: lba_of_def owner_def)
qed

lemma ucast_bmap_no_inj:
  "n < n_lbas \<Longrightarrow> n' < n_lbas \<Longrightarrow>
    (ucast (bmap_no (n div 32768)) :: u64) = ucast (bmap_no (n' div 32768)) \<longleftrightarrow> n div 32768 = n' div 32768"
proof -
  assume "n < n_lbas" "n' < n_lbas"
  then have "n div 32768 < 6400" "n' div 32768 < 6400" by (simp_all add: n_lbas_def div_less_iff_less_mult)
  then show ?thesis using bmap_no_inj [of "n div 32768" "n' div 32768"] by (simp add: word_unat_eq_iff unat_ucast_up)
qed

text \<open>What stays the same when bits of loaded blocks change.\<close>

definition same_sync :: "FileMng \<Rightarrow> FileMng \<Rightarrow> bool" where
  "same_sync fm fm' \<longleftrightarrow> sync_ok fm' \<and> getWid fm' = getWid fm \<and> bmapInMem (fsImpl fm') = bmapInMem (fsImpl fm) \<and>
     iMapBlocks (fsImpl fm') = iMapBlocks (fsImpl fm) \<and> immutableBitmaps (fsImpl fm') = immutableBitmaps (fsImpl fm) \<and>
     dom (map_of (stableDataBitmaps (jmgr fm'))) = dom (map_of (stableDataBitmaps (jmgr fm))) \<and>
     checkpointInput (jmgr fm') = checkpointInput (jmgr fm)"

lemma same_sync_trans: "same_sync fm fm1 \<Longrightarrow> same_sync fm1 fm2 \<Longrightarrow> same_sync fm fm2"
  by (simp add: same_sync_def)

lemma same_sync_loaded: "same_sync fm fm' \<Longrightarrow> loaded fm' b \<longleftrightarrow> loaded fm b"
  by (simp add: same_sync_def loaded_def)

lemma stable_bit_ok:
  assumes "sync_ok fm" "loaded fm b" "\<And>x. P False x = x"
    and f: "\<And>a n. blk_ok a \<Longrightarrow> n < 32768 \<Longrightarrow>
      \<exists>v a'. f (of_nat n) a = Some (v, a') \<and> blk_ok a' \<and> (\<forall>j < 32768. bset a' j = P (j = n) (bset a j))"
  shows "\<exists>fm'. stable_bit f (ucast (conv_pba_to_lba b)) fm = Inr fm' \<and> same_sync fm fm' \<and> fsImpl fm' = fsImpl fm \<and>
    (\<forall>n < n_lbas. stable_used fm' n = P (n = lba_of b) (stable_used fm n))"
proof -
  let ?q = "ucast (bmap_no (lba_of b div 32768)) :: u64" and ?S = "stableDataBitmaps (jmgr fm)"
  have lt: "lba_of b < n_lbas" using assms(2) by (simp add: loaded_def)
  note l = lba_of_facts [OF lt]
  obtain bm where bm: "map_of ?S ?q = Some bm" using assms(2) by (auto simp: loaded_def)
  then have "blk_ok bm" using assms(1) by (auto simp: sync_ok_def)
  then have "\<exists>v a'. f (of_nat (lba_of b mod 32768)) bm = Some (v, a') \<and> blk_ok a' \<and>
      (\<forall>j < 32768. bset a' j = P (j = lba_of b mod 32768) (bset bm j))" by (rule f) simp
  then obtain v bm' where b': "f (of_nat (lba_of b mod 32768)) bm = Some (v, bm')" "blk_ok bm'"
    "\<forall>j < 32768. bset bm' j = P (j = lba_of b mod 32768) (bset bm j)" by blast
  let ?fm = "fm\<lparr>jmgr := (jmgr fm)\<lparr>stableDataBitmaps := AList.update ?q bm' ?S\<rparr>\<rparr>"
  have "stable_bit f (ucast (conv_pba_to_lba b)) fm = Inr ?fm"
    using l bm b'(1) by (simp add: stable_bit_def GetStableDataBitmap_def Let_def)
  moreover have "same_sync fm ?fm"
    using assms(1) bm b'(2) by (auto simp: same_sync_def sync_ok_def update_conv' split: if_splits)
  moreover have "stable_used ?fm n = P (n = lba_of b) (stable_used fm n)" if n: "n < n_lbas" for n
  proof (cases "n div 32768 = lba_of b div 32768")
    case True
    then have "n = lba_of b \<longleftrightarrow> n mod 32768 = lba_of b mod 32768" by (metis div_mult_mod_eq)
    moreover have "bset bm' (n mod 32768) = P (n mod 32768 = lba_of b mod 32768) (bset bm (n mod 32768))"
      by (rule b'(3) [rule_format]) simp
    ultimately show ?thesis using True bm by (simp add: stable_used_def update_conv')
  next
    case False
    then have "(ucast (bmap_no (n div 32768)) :: u64) \<noteq> ?q" "n \<noteq> lba_of b" using ucast_bmap_no_inj [OF n lt] by auto
    then show ?thesis by (simp add: stable_used_def update_conv' assms(3))
  qed
  moreover have "fsImpl ?fm = fsImpl fm" by simp
  ultimately show ?thesis by blast
qed

lemma set_bit_ok:
  "blk_ok a \<Longrightarrow> n < 32768 \<Longrightarrow>
    \<exists>v a'. block_set_bit (of_nat n) a = Some (v, a') \<and> blk_ok a' \<and> (\<forall>j < 32768. bset a' j = (j = n \<or> bset a j))"
  by (rule set_in_block) auto

lemma clear_bit_ok:
  "blk_ok a \<Longrightarrow> n < 32768 \<Longrightarrow>
    \<exists>v a'. block_clear_bit (of_nat n) a = Some (v, a') \<and> blk_ok a' \<and> (\<forall>j < 32768. bset a' j = (j \<noteq> n \<and> bset a j))"
  by (rule clear_in_block) auto

lemma set_block_ok:
  assumes "sync_ok fm" "loaded fm b"
  shows "\<exists>chk' fm'. set_block b (chk, cl, fm) = Inr (chk', cl, fm') \<and> same_sync fm fm' \<and> fsImpl fm' = fsImpl fm \<and>
    (\<forall>n < n_lbas. stable_used fm' n \<longleftrightarrow> n = lba_of b \<or> stable_used fm n)"
proof -
  note l = lba_of_facts [of b] and d = assms(2) [unfolded loaded_def]
  obtain fm' where "stable_bit block_set_bit (ucast (conv_pba_to_lba b)) fm = Inr fm'" "same_sync fm fm'" "fsImpl fm' = fsImpl fm"
    "\<forall>n < n_lbas. stable_used fm' n \<longleftrightarrow> n = lba_of b \<or> stable_used fm n"
    using stable_bit_ok [OF assms, where P = "(\<or>)", OF _ set_bit_ok] by auto
  then show ?thesis using l d by (simp add: set_block_def Let_def)
qed

lemma clear_block_ok:
  assumes "sync_ok fm" "loaded fm b"
  shows "\<exists>chk' fm'. clear_block b (chk, cl, fm) = Inr (chk', List.insert (bmap_no (lba_of b div 32768)) cl, fm') \<and>
    same_sync fm fm' \<and>
    (\<forall>n < n_lbas. (stable_used fm' n \<longleftrightarrow> n \<noteq> lba_of b \<and> stable_used fm n) \<and>
                   (dirty_used fm' n \<longleftrightarrow> n \<noteq> lba_of b \<and> dirty_used fm n))"
proof -
  let ?q = "bmap_no (lba_of b div 32768)"
  have lt: "lba_of b < n_lbas" using assms(2) by (simp add: loaded_def)
  note l = lba_of_facts [OF lt] and d = assms(2) [unfolded loaded_def]
  obtain fm1 where s: "stable_bit block_clear_bit (ucast (conv_pba_to_lba b)) fm = Inr fm1" "same_sync fm fm1" "fsImpl fm1 = fsImpl fm"
    "\<forall>n < n_lbas. stable_used fm1 n \<longleftrightarrow> n \<noteq> lba_of b \<and> stable_used fm n"
    using stable_bit_ok [OF assms, where P = "\<lambda>e x. \<not> e \<and> x", OF _ clear_bit_ok] by auto
  obtain v c where c: "block_clear_bit (of_nat (lba_of b mod 32768)) (bmapBlocks (fsImpl fm) ?q) = Some (v, c)" "blk_ok c"
    "\<forall>j < 32768. bset c j \<longleftrightarrow> j \<noteq> lba_of b mod 32768 \<and> bset (bmapBlocks (fsImpl fm) ?q) j"
    using clear_bit_ok [of "bmapBlocks (fsImpl fm) ?q" "lba_of b mod 32768"] assms(1) by (auto simp: sync_ok_def)
  let ?fm = "fm1\<lparr>fsImpl := put_bmap ?q c (fsImpl fm)\<rparr>"
  have "clear_dirty (ucast (conv_pba_to_lba b)) (fsImpl fm) = Inr (put_bmap ?q c (fsImpl fm))"
    using d l c(1) by (simp add: clear_dirty_def Let_def)
  then have "\<exists>chk'. clear_block b (chk, cl, fm) = Inr (chk', List.insert ?q cl, ?fm)"
    using s(1,3) l d by (simp add: clear_block_def Let_def)
  moreover have "same_sync fm ?fm" using s(2,3) c(2) by (auto simp: same_sync_def sync_ok_def put_bmap_def)
  moreover have "stable_used ?fm n = stable_used fm1 n" for n by (simp add: stable_used_def)
  moreover have "dirty_used ?fm n \<longleftrightarrow> n \<noteq> lba_of b \<and> dirty_used fm n" if n: "n < n_lbas" for n
  proof (cases "n div 32768 = lba_of b div 32768")
    case True
    then have "n = lba_of b \<longleftrightarrow> n mod 32768 = lba_of b mod 32768" by (metis div_mult_mod_eq)
    moreover have "bset c (n mod 32768) \<longleftrightarrow> n mod 32768 \<noteq> lba_of b mod 32768 \<and> bset (bmapBlocks (fsImpl fm) ?q) (n mod 32768)"
      by (rule c(3) [rule_format]) simp
    ultimately show ?thesis using True by (simp add: dirty_used_def put_bmap_def)
  next
    case False
    then show ?thesis
      using ucast_bmap_no_inj [OF n lt] by (auto simp: dirty_used_def put_bmap_def)
  qed
  ultimately show ?thesis using s(4) by auto
qed

lemma set_blocks_ok:
  assumes "sync_ok fm" "\<forall>b \<in> set bs. loaded fm b"
  shows "\<exists>chk' fm'. fold_res set_block bs (chk, cl, fm) = Inr (chk', cl, fm') \<and> same_sync fm fm' \<and> fsImpl fm' = fsImpl fm \<and>
    (\<forall>n < n_lbas. stable_used fm' n \<longleftrightarrow> n \<in> lba_of ` set bs \<or> stable_used fm n)"
  using assms
proof (induction bs arbitrary: chk fm)
  case Nil
  then show ?case by (simp add: same_sync_def)
next
  case (Cons b bs)
  then obtain chk1 fm1 where s: "set_block b (chk, cl, fm) = Inr (chk1, cl, fm1)" "same_sync fm fm1" "fsImpl fm1 = fsImpl fm"
    "\<forall>n < n_lbas. stable_used fm1 n \<longleftrightarrow> n = lba_of b \<or> stable_used fm n"
    using set_block_ok [of fm b chk cl] by auto
  have "sync_ok fm1" "\<forall>b \<in> set bs. loaded fm1 b"
    using Cons.prems s(2) same_sync_loaded [OF s(2)] by (simp_all add: same_sync_def)
  from Cons.IH [OF this, of chk1] obtain chk' fm' where
    "fold_res set_block bs (chk1, cl, fm1) = Inr (chk', cl, fm')" "same_sync fm1 fm'" "fsImpl fm' = fsImpl fm1"
    "\<forall>n < n_lbas. stable_used fm' n \<longleftrightarrow> n \<in> lba_of ` set bs \<or> stable_used fm1 n" by blast
  with s same_sync_trans [OF s(2)] show ?case by auto
qed

lemma clear_blocks_ok:
  assumes "sync_ok fm" "\<forall>b \<in> set bs. loaded fm b"
  shows "\<exists>chk' cl' fm'. fold_res clear_block bs (chk, cl, fm) = Inr (chk', cl', fm') \<and> same_sync fm fm' \<and>
    set cl' = (\<lambda>b. bmap_no (lba_of b div 32768)) ` set bs \<union> set cl \<and>
    (\<forall>n < n_lbas. (stable_used fm' n \<longleftrightarrow> n \<notin> lba_of ` set bs \<and> stable_used fm n) \<and>
                   (dirty_used fm' n \<longleftrightarrow> n \<notin> lba_of ` set bs \<and> dirty_used fm n))"
  using assms
proof (induction bs arbitrary: chk cl fm)
  case Nil
  then show ?case by (simp add: same_sync_def)
next
  case (Cons b bs)
  then obtain chk1 fm1 where s: "clear_block b (chk, cl, fm) = Inr (chk1, List.insert (bmap_no (lba_of b div 32768)) cl, fm1)"
    "same_sync fm fm1" "\<forall>n < n_lbas. (stable_used fm1 n \<longleftrightarrow> n \<noteq> lba_of b \<and> stable_used fm n) \<and>
       (dirty_used fm1 n \<longleftrightarrow> n \<noteq> lba_of b \<and> dirty_used fm n)"
    using clear_block_ok [of fm b chk cl] by auto
  have "sync_ok fm1" "\<forall>b \<in> set bs. loaded fm1 b"
    using Cons.prems s(2) same_sync_loaded [OF s(2)] by (simp_all add: same_sync_def)
  from Cons.IH [OF this, of chk1 "List.insert (bmap_no (lba_of b div 32768)) cl"] obtain chk' cl' fm' where
    "fold_res clear_block bs (chk1, List.insert (bmap_no (lba_of b div 32768)) cl, fm1) = Inr (chk', cl', fm')" "same_sync fm1 fm'"
    "set cl' = (\<lambda>b. bmap_no (lba_of b div 32768)) ` set bs \<union> set (List.insert (bmap_no (lba_of b div 32768)) cl)"
    "\<forall>n < n_lbas. (stable_used fm' n \<longleftrightarrow> n \<notin> lba_of ` set bs \<and> stable_used fm1 n) \<and>
       (dirty_used fm' n \<longleftrightarrow> n \<notin> lba_of ` set bs \<and> dirty_used fm1 n)" by blast
  with s same_sync_trans [OF s(2)] show ?case by auto
qed

lemma bmap_block_for_pba:
  assumes "lba_of b < n_lbas"
  shows "get_bmap_block_for_pba (ucast b) = bmap_no (lba_of b div 32768)"
proof -
  have "b = conv_pba_to_lba b + 10507793" by (simp add: conv_pba_to_lba_def)
  then have "unat b = lba_of b + 10507793"
    using assms unat_add_no_overflow [of "conv_pba_to_lba b" 10507793] by (simp add: lba_of_def n_lbas_def)
  then have "ucast (ucast b :: u32) = b"
    using assms by (simp add: word_unat_eq_iff unat_ucast_up unat_ucast_down n_lbas_def)
  then show ?thesis using lba_of_facts(1) [OF assms] by (simp add: get_bmap_block_for_pba_def)
qed

lemma all_stable_ok:
  assumes "\<forall>b \<in> set bs. loaded fm b" "set qs \<subseteq> (\<lambda>b. get_bmap_block_for_pba (ucast b)) ` set bs"
  shows "all_stable qs (jmgr fm) = Inr True"
  using assms(2)
proof (induction qs)
  case (Cons q qs)
  then obtain b where b: "b \<in> set bs" "q = get_bmap_block_for_pba (ucast b)" by auto
  then have l: "loaded fm b" using assms(1) by simp
  then have "lba_of b < n_lbas" by (simp add: loaded_def)
  with b l lba_of_facts(4) [OF this] have "\<exists>bm. GetStableDataBitmap (ucast q) (jmgr fm) = Some (Some bm)"
    by (auto simp: GetStableDataBitmap_def bmap_block_for_pba loaded_def)
  with Cons show ?case by auto
qed simp

lemma update_blocks_ok:
  assumes "sync_ok fm" "\<forall>b \<in> set ss \<union> set cs. loaded fm b"
  obtains cl fm' where "updateBlockBitmaps ss cs fm = Inr (cl, fm')" "same_sync fm fm'"
    "set cl = (\<lambda>b. bmap_no (lba_of b div 32768)) ` set cs"
    "\<forall>n < n_lbas. stable_used fm' n \<longleftrightarrow> n \<notin> lba_of ` set cs \<and> (n \<in> lba_of ` set ss \<or> stable_used fm n)"
    "\<forall>n < n_lbas. dirty_used fm' n \<longleftrightarrow> n \<notin> lba_of ` set cs \<and> dirty_used fm n"
proof -
  let ?chk = "bitmapsToCheckpoint (checkpointInput (jmgr fm))"
  obtain chk1 fm1 where s: "fold_res set_block ss (?chk, [], fm) = Inr (chk1, [], fm1)" "same_sync fm fm1" "fsImpl fm1 = fsImpl fm"
    "\<forall>n < n_lbas. stable_used fm1 n \<longleftrightarrow> n \<in> lba_of ` set ss \<or> stable_used fm n"
    using set_blocks_ok [OF assms(1), of ss ?chk "[]"] assms(2) by blast
  have "sync_ok fm1" "\<forall>b \<in> set cs. loaded fm1 b"
    using assms(2) s(2) same_sync_loaded [OF s(2)] by (simp_all add: same_sync_def)
  from clear_blocks_ok [OF this, of chk1 "[]"] obtain chk' cl fm' where
    c: "fold_res clear_block cs (chk1, [], fm1) = Inr (chk', cl, fm')" "same_sync fm1 fm'"
    "set cl = (\<lambda>b. bmap_no (lba_of b div 32768)) ` set cs"
    "\<forall>n < n_lbas. (stable_used fm' n \<longleftrightarrow> n \<notin> lba_of ` set cs \<and> stable_used fm1 n) \<and>
       (dirty_used fm' n \<longleftrightarrow> n \<notin> lba_of ` set cs \<and> dirty_used fm1 n)" by auto
  show thesis
  proof (rule that [OF _ same_sync_trans [OF s(2) c(2)] c(3)])
    show "updateBlockBitmaps ss cs fm = Inr (cl, fm')" using s(1) c(1) by (simp add: updateBlockBitmaps_def)
  qed (use s(3,4) c(4) in \<open>auto simp: dirty_used_def\<close>)
qed

lemma process_changes_ok:
  assumes "sync_ok fm" "\<forall>b \<in> set (blocksToSet c) \<union> set (blocksToClear c). loaded fm b" "inodeBitmapChanges c = []"
  shows "\<exists>fm'. processBitmapChanges c loc fm = Inr fm' \<and>
    (\<forall>n < n_lbas. stable_used fm' n \<longleftrightarrow>
       n \<notin> lba_of ` set (blocksToClear c) \<and> (n \<in> lba_of ` set (blocksToSet c) \<or> stable_used fm n)) \<and>
    (\<forall>n < n_lbas. dirty_used fm' n \<longleftrightarrow> n \<notin> lba_of ` set (blocksToClear c) \<and> dirty_used fm n) \<and>
    (\<forall>q. isBlockBitmapImmutable q (fsImpl fm') \<longleftrightarrow>
       isBlockBitmapImmutable q (fsImpl fm) \<or> \<not> loc \<and> q \<in> (\<lambda>b. bmap_no (lba_of b div 32768)) ` set (blocksToClear c))"
proof -
  have "allBitmapsInMemory c fm = Inr True"
    unfolding allBitmapsInMemory_def
    by (rule all_stable_ok [of "blocksToSet c @ blocksToClear c"]) (use assms(2) in auto)
  moreover have "processInodeBitmapChanges (inodeBitmapChanges c) fm = Inr fm"
    using assms(3) by (simp add: processInodeBitmapChanges_def)
  moreover obtain cl fm2 where u: "updateBlockBitmaps (blocksToSet c) (blocksToClear c) fm = Inr (cl, fm2)" "same_sync fm fm2"
    "set cl = (\<lambda>b. bmap_no (lba_of b div 32768)) ` set (blocksToClear c)"
    "\<forall>n < n_lbas. stable_used fm2 n \<longleftrightarrow> n \<notin> lba_of ` set (blocksToClear c) \<and> (n \<in> lba_of ` set (blocksToSet c) \<or> stable_used fm n)"
    "\<forall>n < n_lbas. dirty_used fm2 n \<longleftrightarrow> n \<notin> lba_of ` set (blocksToClear c) \<and> dirty_used fm n"
    by (rule update_blocks_ok [OF assms(1,2)])
  moreover define fm3 where "fm3 = (if loc \<or> cl = [] then fm2
    else (lockBitmaps cl fm2)\<lparr>jmgr := registerBitmapsWithDeallocations cl (jmgr (lockBitmaps cl fm2))\<rparr>)"
  ultimately have "processBitmapChanges c loc fm = Inr fm3" by (simp add: processBitmapChanges_def Let_def)
  moreover have "stableDataBitmaps (jmgr fm3) = stableDataBitmaps (jmgr fm2)" "bmapBlocks (fsImpl fm3) = bmapBlocks (fsImpl fm2)"
    by (simp_all add: fm3_def lockBitmaps_def registerBitmapsWithDeallocations_def)
  then have "stable_used fm3 n = stable_used fm2 n" "dirty_used fm3 n = dirty_used fm2 n" for n
    by (simp_all add: stable_used_def dirty_used_def)
  moreover have "set (immutableBitmaps (fsImpl fm3)) = set (immutableBitmaps (fsImpl fm)) \<union> (if loc then {} else set cl)"
    using u(2) by (auto simp: fm3_def lockBitmaps_def same_sync_def set_fold_insert)
  ultimately show ?thesis using u(3-5) by (intro exI [of _ fm3]) (auto simp: isBlockBitmapImmutable_def)
qed


text \<open>A worker with one bitmap block, in both copies.\<close>

definition demo_stable :: JMgr where
  "demo_stable = demo_mgr\<lparr>stableDataBitmaps := [(ucast (bmap_no 0), replicate blk_len 0)]\<rparr>"

definition demo_fm :: FileMng where
  "demo_fm = \<lparr>getWid = 0, fsImpl = demo_wk 0, jmgr = demo_stable\<rparr>"

lemma demo_lba: "lba_of 10507793 = 0" "lba_of 10507794 = 1"
  by (simp_all add: lba_of_def conv_pba_to_lba_def)

lemma demo_fm_ok: "sync_ok demo_fm" "loaded demo_fm 10507793" "loaded demo_fm 10507794"
proof -
  have "blk_ok (replicate blk_len 0)" by (simp add: blk_ok_def blk_len_def)
  then show "sync_ok demo_fm" by (auto simp: sync_ok_def demo_fm_def demo_wk_def demo_stable_def split: if_splits)
  show "loaded demo_fm 10507793" "loaded demo_fm 10507794"
    by (simp_all add: loaded_def demo_lba n_lbas_def owner_def demo_fm_def demo_wk_def demo_stable_def)
qed


subsection \<open>Deallocating a large extent\<close>

text \<open>Space of a large extent is never reused. An extent of 32768 blocks or more is allocated by
  setting every byte of its first bitmap block to 1, and found free by the first four bytes being
  0; its deallocation clears one bit, so the extent stays marked for every later search.\<close>

theorem large_extent_leaked:
  assumes "placed w e (unat b)" "2 \<le> e" "e < 7" "w < 10" "bmapInMem fs (bmap_no (unat b div 32768))"
    "bmapBlocks fs (bmap_no (unat b div 32768)) = replicate 4096 1"
  shows "\<exists>fs'. clear_dirty (ucast (b :: u64)) fs = Inr fs' \<and> marked (bmapBlocks fs') e (unat b)"
proof -
  let ?q = "bmap_no (unat b div 32768)"
  have z: "unat b mod 32768 = 0" using assms(1,2) by (auto simp: placed_def Let_def)
  note l = lba_of_extent [OF placed_block [OF assms(1,3,4)]]
  obtain v c where c: "block_clear_bit (of_nat 0) (replicate 4096 1) = Some (v, c)"
    "\<forall>j < 32768. bset c j \<longleftrightarrow> j \<noteq> 0 \<and> bset (replicate 4096 1) j"
    using clear_bit_ok [of "replicate 4096 1" 0] by (auto simp: blk_ok_def)
  have "bset c 8" using c(2) [rule_format, of 8] by (simp add: bset_def)
  have "take 4 c \<noteq> [0, 0, 0, 0]"
  proof
    assume "take 4 c = [0, 0, 0, 0]"
    then have "take 4 c ! 1 = 0" by simp
    then have "c ! 1 = 0" by simp
    with \<open>bset c 8\<close> show False by (simp add: bset_def)
  qed
  moreover have "clear_dirty (ucast b) fs = Inr (put_bmap ?q c fs)"
    using assms(5,6) l c(1) z by (simp add: clear_dirty_def Let_def)
  ultimately show ?thesis using assms(2) by (simp add: marked_def put_bmap_def)
qed

theorem large_extent_leaked_witness:
  "\<exists>fs'. clear_dirty 393216 ((demo_wk 0)\<lparr>bmapBlocks := (\<lambda>_. replicate 4096 1)\<rparr>) = Inr fs' \<and> marked (bmapBlocks fs') 2 393216"
proof -
  have "placed 0 2 393216" by (simp add: placed_def pstart_def plen_def stride_def)
  then show ?thesis
    using large_extent_leaked [of 0 2 393216 "(demo_wk 0)\<lparr>bmapBlocks := (\<lambda>_. replicate 4096 1)\<rparr>"] by (simp add: demo_wk_def)
qed

end
