(* ===== verification/Ufs_BitmapCheckpoint.thy ===== *)
theory Ufs_BitmapCheckpoint
  imports Ufs_BitmapProps
begin

text \<open>
  Which bitmaps reach a checkpoint. The functions that change the stable bitmaps mean to register
  each changed bitmap block in the checkpoint input, but register it in a copy; all operations of
  a worker and its journal manager together are shown to leave the bitmaps of the checkpoint
  input empty.
\<close>

subsection \<open>The journal manager\<close>

definition no_bitmaps :: "CheckpointInput \<Rightarrow> bool" where
  "no_bitmaps ci \<longleftrightarrow> bitmapsToCheckpoint ci = [] \<and> inodeBitmapsToCheckpoint ci = []"

abbreviation nb :: "JMgr \<Rightarrow> bool" where
  "nb m \<equiv> no_bitmaps (checkpointInput m)"

lemma journal_write_all_nb:
  "journal_write_all ps (ci, je) = Some (ps', ci', je') \<Longrightarrow> no_bitmaps ci \<Longrightarrow> no_bitmaps ci'"
proof (induction ps arbitrary: ps' ci je)
  case (Cons p ps)
  obtain e mi where p: "p = (e, mi)" by (cases p)
  from Cons show ?case
    by (fastforce simp: p on_successful_journal_write_def Let_def no_bitmaps_def split: bind_splits prod.splits)
qed auto

lemma ReleasePinnedMem_ci: "ReleasePinnedMem je m = Some (je', m') \<Longrightarrow> checkpointInput m' = checkpointInput m"
  by (auto simp: ReleasePinnedMem_def split: option.splits if_splits)

lemma AcquirePinnedMem_ci: "AcquirePinnedMem je m = Some (je', m') \<Longrightarrow> checkpointInput m' = checkpointInput m"
  by (auto simp: AcquirePinnedMem_def split: list.splits if_splits)

lemma submit_ci: "submit env cmd m = Some m' \<Longrightarrow> checkpointInput m' = checkpointInput m"
  by (auto simp: submit_def split: if_splits)

lemma WriteJSuper_ci: "WriteJSuper env m = Some m' \<Longrightarrow> checkpointInput m' = checkpointInput m"
  by (auto simp: WriteJSuper_def dest: submit_ci split: option.splits)

lemmas ci_frames = ReleasePinnedMem_ci AcquirePinnedMem_ci submit_ci WriteJSuper_ci

lemma processJournalEntry_nb:
  assumes "\<And>m m'. try m = Some m' \<Longrightarrow> nb m \<Longrightarrow> nb m'" "processJournalEntry env try je m = Some m'" "nb m"
  shows "nb m'"
proof (cases "je_state je")
  case SUCCESS
  with assms(2) obtain iles ci je1 je2 m1 where
    "journal_write_all (ile_vec je) (checkpointInput m, je) = Some (iles, ci, je1)"
    "ReleasePinnedMem (je1\<lparr>ile_vec := iles\<rparr>) (m\<lparr>checkpointInput := ci\<rparr>) = Some (je2, m1)" "try (callback je2 True m1) = Some m'"
    by (auto simp: processJournalEntry_def split: bind_splits)
  then show ?thesis using assms(1) [of "callback je2 True m1" m'] journal_write_all_nb assms(3) ReleasePinnedMem_ci
    by (fastforce simp: callback_def)
next
  case FAILURE
  with assms show ?thesis
    by (fastforce simp: processJournalEntry_def callback_def split: bind_splits dest!: ReleasePinnedMem_ci)
qed (use assms in \<open>auto simp: processJournalEntry_def submit_commit_def split: prod.splits if_splits dest!: submit_ci\<close>)

lemma attempt_nb:
  assumes "\<And>m m'. try m = Some m' \<Longrightarrow> nb m \<Longrightarrow> nb m'" "attempt_transaction env try m = Some m'" "nb m"
  shows "nb m'"
proof -
  have p: "nb m1 \<longrightarrow> nb m'" if "processJournalEntry env try je m1 = Some m'" for je m1
    using processJournalEntry_nb [OF assms(1) that] by simp
  from assms(2,3) show ?thesis unfolding attempt_transaction_def Let_def
    by (auto split: if_splits bind_splits dest!: p ci_frames)
qed

lemma tryNextTransaction_nb: "tryNextTransaction env m = Some m' \<Longrightarrow> nb m \<Longrightarrow> nb m'"
  by (rule tryNextTransaction.raw_induct [where P = "\<lambda>env m m'. nb m \<longrightarrow> nb m'", rule_format])
     (auto intro: attempt_nb)

lemma resume_loop_nb: "resume_loop env m = Some m' \<Longrightarrow> nb m \<Longrightarrow> nb m'"
  by (rule resume_loop.raw_induct [where P = "\<lambda>env m m'. nb m \<longrightarrow> nb m'", rule_format])
     (auto split: if_splits bind_splits dest: tryNextTransaction_nb)

lemma process_next_nb: "processJournalEntry env (tryNextTransaction env) je m = Some m' \<Longrightarrow> nb m \<Longrightarrow> nb m'"
  by (rule processJournalEntry_nb) (rule tryNextTransaction_nb)

lemma writeComplete_nb: "writeComplete env err je m = Some m' \<Longrightarrow> nb m \<Longrightarrow> nb m'"
  by (auto simp: writeComplete_def split: if_splits JournalEntryState.splits dest: process_next_nb)

lemma jsuper_write_complete_nb: "jsuper_write_complete env err old m = Some m' \<Longrightarrow> nb m \<Longrightarrow> nb m'"
  by (auto simp: jsuper_write_complete_def Let_def split: if_splits bind_splits dest!: resume_loop_nb WriteJSuper_ci)

lemma complete_cmd_nb: "complete_cmd env i err m = Some m' \<Longrightarrow> nb m \<Longrightarrow> nb m'"
  by (auto simp: complete_cmd_def Let_def split: if_splits dev_cmd.splits dest!: writeComplete_nb jsuper_write_complete_nb)

lemma submitJournalEntry_nb: "submitJournalEntry env je m = Some (b, m') \<Longrightarrow> nb m \<Longrightarrow> nb m'"
  by (auto simp: submitJournalEntry_def split: bind_splits dest!: tryNextTransaction_nb)

lemma copy_all_Nil: "copy_all f [] = Some xs \<longleftrightarrow> xs = []"
  by auto

lemma prepare_nb:
  assumes "prepareForCheckpointing a b wid minode_of m = Some (ci, m')" "nb m"
  shows "nb m'" "ci = Some c \<Longrightarrow> no_bitmaps c"
  using assms by (auto simp: prepareForCheckpointing_def populateCheckpointInput_def no_bitmaps_def CheckpointInput_new_def Let_def
      split: if_splits bind_splits)

lemma onCheckpointSuccess_nb: "onCheckpointSuccess env now src m = Some m' \<Longrightarrow> nb m \<Longrightarrow> nb m'"
  by (auto simp: onCheckpointSuccess_def split: bind_splits dest!: WriteJSuper_ci)

lemma onCheckpointFailure_nb: "onCheckpointFailure (Some src) m = Some m' \<Longrightarrow> nb m \<Longrightarrow> no_bitmaps src \<Longrightarrow> nb m'"
  by (auto simp: onCheckpointFailure_def no_bitmaps_def Let_def)

subsection \<open>The bitmap changes\<close>

lemma stable_bit_ci: "stable_bit f lba fm = Inr fm' \<Longrightarrow> checkpointInput (jmgr fm') = checkpointInput (jmgr fm)"
  by (auto simp: stable_bit_def Let_def res split: prod.splits)

lemma set_blocks_ci:
  "fold_res set_block bs (chk, cl, fm) = Inr (chk', cl', fm') \<Longrightarrow> checkpointInput (jmgr fm') = checkpointInput (jmgr fm)"
  by (induction bs arbitrary: chk cl fm)
     (force simp: set_block_def Let_def res split: if_splits dest!: stable_bit_ci)+

lemma clear_blocks_ci:
  "fold_res clear_block bs (chk, cl, fm) = Inr (chk', cl', fm') \<Longrightarrow> checkpointInput (jmgr fm') = checkpointInput (jmgr fm)"
  by (induction bs arbitrary: chk cl fm)
     (force simp: clear_block_def Let_def res split: if_splits dest!: stable_bit_ci)+

lemma updateBlockBitmaps_ci:
  "updateBlockBitmaps ss cs fm = Inr (cl, fm') \<Longrightarrow> checkpointInput (jmgr fm') = checkpointInput (jmgr fm)"
  by (auto simp: updateBlockBitmaps_def res dest!: set_blocks_ci clear_blocks_ci)

lemma inode_bits_ci:
  "fold_res inode_bit cs (chk, fm) = Inr (chk', fm') \<Longrightarrow> checkpointInput (jmgr fm') = checkpointInput (jmgr fm)"
proof (induction cs arbitrary: chk fm)
  case (Cons c cs)
  then obtain chk1 fm1 where s: "inode_bit c (chk, fm) = Inr (chk1, fm1)" "fold_res inode_bit cs (chk1, fm1) = Inr (chk', fm')"
    by (auto simp: res)
  from s(1) have "checkpointInput (jmgr fm1) = checkpointInput (jmgr fm)"
    by (auto simp: inode_bit_def Let_def res split: prod.splits if_splits)
  with Cons.IH [OF s(2)] show ?case by simp
qed simp

lemma processBitmapChanges_ci:
  "processBitmapChanges c loc fm = Inr fm' \<Longrightarrow> checkpointInput (jmgr fm') = checkpointInput (jmgr fm)"
  by (auto simp: processBitmapChanges_def processInodeBitmapChanges_def Let_def res lockBitmaps_def registerBitmapsWithDeallocations_def
      split: if_splits dest!: inode_bits_ci updateBlockBitmaps_ci)

lemma request_missing_ci:
  "request_missing bs fm = Inr (n, fm') \<Longrightarrow> checkpointInput (jmgr fm') = checkpointInput (jmgr fm)"
proof (induction bs arbitrary: fm n)
  case (Cons b bs)
  then show ?case by (force simp: res split: if_splits)
qed simp

lemma processRemoteBitmapChanges_ci:
  "processRemoteBitmapChanges c st fm = Inr (r, fm') \<Longrightarrow> checkpointInput (jmgr fm') = checkpointInput (jmgr fm)"
  by (cases st) (auto simp: processRemoteBitmapChanges_def res split: if_splits dest!: request_missing_ci processBitmapChanges_ci)

lemma journal_bitmaps_ci:
  "updateBitmapsOnJournalWriteComplete je fm = Inr (ms, fm') \<Longrightarrow> checkpointInput (jmgr fm') = checkpointInput (jmgr fm)"
  by (auto simp: updateBitmapsOnJournalWriteComplete_def Let_def res split: option.splits dest!: processBitmapChanges_ci)

lemma bmap_arrives_ci: "bmap_arrives b buf fm = Inr fm' \<Longrightarrow> checkpointInput (jmgr fm') = checkpointInput (jmgr fm)"
  by (auto simp: bmap_arrives_def res CopyBufToStableDataBitmap_def of_opt_def split: if_splits option.splits bind_splits)

subsection \<open>All operations of a worker\<close>

inductive sync_reach :: "FileMng \<Rightarrow> bool" where
  init: "JournalManager_new dj = Inr (jmgr fm) \<Longrightarrow> sync_reach fm"
| allocated: "sync_reach fm \<Longrightarrow> allocateDataBlocks n mi (fsImpl fm) = Some (Inr (r, mi', fs)) \<Longrightarrow> sync_reach (fm\<lparr>fsImpl := fs\<rparr>)"
| submitted: "sync_reach fm \<Longrightarrow> submitJournalEntry env je (jmgr fm) = Some (p, m) \<Longrightarrow> sync_reach (fm\<lparr>jmgr := m\<rparr>)"
| completed: "sync_reach fm \<Longrightarrow> complete_cmd env i err (jmgr fm) = Some m \<Longrightarrow> sync_reach (fm\<lparr>jmgr := m\<rparr>)"
| journalled: "sync_reach fm \<Longrightarrow> updateBitmapsOnJournalWriteComplete je fm = Inr (ms, fm') \<Longrightarrow> sync_reach fm'"
| remote: "sync_reach fm \<Longrightarrow> processRemoteBitmapChanges c st fm = Inr (st', fm') \<Longrightarrow> sync_reach fm'"
| arrived: "sync_reach fm \<Longrightarrow> bmap_arrives b buf fm = Inr fm' \<Longrightarrow> sync_reach fm'"
| prepared: "sync_reach fm \<Longrightarrow> prepareForCheckpointing ok1 ok2 wid minode_of (jmgr fm) = Some (ci, m) \<Longrightarrow> sync_reach (fm\<lparr>jmgr := m\<rparr>)"
| success: "sync_reach fm \<Longrightarrow> onCheckpointSuccess env now src (jmgr fm) = Some m \<Longrightarrow> sync_reach (fm\<lparr>jmgr := m\<rparr>)"
| failure: "sync_reach fm \<Longrightarrow> sync_reach fm0 \<Longrightarrow>
    prepareForCheckpointing ok1 ok2 wid minode_of (jmgr fm0) = Some (Some src, m0) \<Longrightarrow>
    onCheckpointFailure (Some src) (jmgr fm) = Some m \<Longrightarrow> sync_reach (fm\<lparr>jmgr := m\<rparr>)"

lemma sync_reach_nb: "sync_reach fm \<Longrightarrow> nb (jmgr fm)"
proof (induction rule: sync_reach.induct)
  case (init dj fm)
  then have "checkpointInput (jmgr fm) = CheckpointInput_new"
    by (cases "jmgr fm") (auto simp: JournalManager_new_def split: if_splits)
  then show ?case by (simp add: no_bitmaps_def CheckpointInput_new_def)
qed (auto dest: submitJournalEntry_nb complete_cmd_nb journal_bitmaps_ci processRemoteBitmapChanges_ci bmap_arrives_ci
      prepare_nb onCheckpointSuccess_nb onCheckpointFailure_nb)

text \<open>C30: Bitmaps are never checkpointed. From a new journal manager, through any sequence of
  allocations, journal writes, bitmap changes, messages and checkpoints, every checkpoint of a
  worker consists of inode sectors alone: no changed bitmap block is ever written by it, although
  a completed checkpoint releases the journal blocks that record the changes.\<close>

theorem bitmaps_never_checkpointed:
  assumes "sync_reach fm" "prepareForCheckpointing ok1 ok2 wid minode_of (jmgr fm) = Some (Some ci, m)"
  shows "checkpoint_sectors ci = map (\<lambda>(ino, _). ucast (calcSectorForInode ino)) (inodesToCheckpoint ci)"
  using prepare_nb(2) [OF assms(2) sync_reach_nb [OF assms(1)] refl] by (simp add: checkpoint_sectors_def no_bitmaps_def)

lemma demo_arrived: "sync_reach demo_fm"
proof -
  let ?fm = "\<lparr>getWid = 0, fsImpl = demo_wk 0, jmgr = demo_mgr\<rparr>"
  have "isBitmapBlock (ucast (bmap_no 0))" using lba_of_facts(4) [of 10507793] by (simp add: demo_lba n_lbas_def)
  then have "CopyBufToStableDataBitmap (ucast (bmap_no 0)) (replicate blk_len 0) demo_mgr = Some demo_stable"
    by (simp add: CopyBufToStableDataBitmap_def GetStableDataBitmap_def demo_stable_def demo_mgr_def)
       (simp add: blk_len_def BSIZE_def)
  then have "bmap_arrives (bmap_no 0) (replicate blk_len 0) ?fm = Inr demo_fm"
    using \<open>isBitmapBlock _\<close> by (simp add: bmap_arrives_def demo_fm_def demo_wk_def fun_eq_iff)
  moreover have "sync_reach ?fm" by (rule sync_reach.init [of demo_journal]) (simp add: demo_mgr_new)
  ultimately show ?thesis by (rule sync_reach.arrived [rotated])
qed

theorem bitmaps_never_checkpointed_witness:
  "\<exists>fm ci m. sync_reach fm \<and> stable_used fm 0 \<and>
     prepareForCheckpointing True True 0 (\<lambda>_. None) (jmgr fm) = Some (Some ci, m) \<and> checkpoint_sectors ci = []"
proof -
  let ?c = "\<lparr>blocksToSet = [10507793], blocksToClear = [], inodeBitmapChanges = []\<rparr>"
  let ?je = "(JournalEntry_new 1)\<lparr>blocks_for_bitmap_set := [10507793]\<rparr>"
  have "sort_changes ?je = [(0, ?c)]"
    by (simp add: sort_changes_def sort_blocks_def updateWidToBitmapChangeOps_def getOrCreateBitmapChangeOpsForWid_def
        BitmapChangeOps_new_def JournalEntry_new_def demo_owner)
  moreover have "\<forall>b \<in> set (blocksToSet ?c) \<union> set (blocksToClear ?c). loaded demo_fm b" using demo_fm_ok by simp
  then obtain fm where p: "processBitmapChanges ?c True demo_fm = Inr fm"
    "\<forall>n < n_lbas. stable_used fm n \<longleftrightarrow> n \<in> lba_of ` {10507793} \<or> stable_used demo_fm n"
    using process_changes_ok [OF demo_fm_ok(1), of ?c True] by auto
  ultimately have "updateBitmapsOnJournalWriteComplete ?je demo_fm = Inr ([], fm)"
    by (simp add: updateBitmapsOnJournalWriteComplete_def demo_fm_def Let_def)
  then have r: "sync_reach fm" by (rule sync_reach.journalled [OF demo_arrived])
  have "checkpointInput (jmgr fm) = CheckpointInput_new"
    using processBitmapChanges_ci [OF p(1)] by (simp add: demo_fm_def demo_stable_def demo_mgr_def)
  then obtain ci m where ci: "prepareForCheckpointing True True 0 (\<lambda>_. None) (jmgr fm) = Some (Some ci, m)" "inodesToCheckpoint ci = []"
    by (simp add: prepareForCheckpointing_def populateCheckpointInput_def CheckpointInput_new_def)
  have "stable_used fm 0" using p(2) by (auto simp: demo_lba n_lbas_def)
  moreover have "checkpoint_sectors ci = []" using bitmaps_never_checkpointed [OF r ci(1)] ci(2) by simp
  ultimately show ?thesis using r ci(1) by blast
qed

end
