(* ===== verification/Ufs_LogReplay.thy ===== *)
theory Ufs_LogReplay
  imports Ufs_LogEntry
begin

text \<open>
  Replaying the extent changes of a metadata log. \<open>applyChangesTo\<close> writes all added extents into
  the inode and then all deleted ones, ordering them by sequence number only where both maps
  have the same disk block. Compared with making the changes one after the other (\<open>do_ext\<close>),
  this is right when extent slots and disk blocks correspond one to one, and wrong when a slot
  gets a new disk block.
\<close>

subsection \<open>Extent slots\<close>

definition valid_off :: "u32 \<Rightarrow> bool" where
  "valid_off off \<longleftrightarrow> fst (getCurrentExtentArrIdx off) \<noteq> -1"

definition slot_of :: "u32 \<Rightarrow> nat" where
  "slot_of off = nat (fst (getCurrentExtentArrIdx off))"

lemma slot_of_bound: "valid_off off \<Longrightarrow> slot_of off < 7"
  using current_extent_correct [of off]
  by (auto simp: valid_off_def slot_of_def split: prod.splits if_splits)

lemma put_extent_valid:
  assumes "valid_off off" "length arr = 7"
  shows "put_extent off x arr = Some (arr[slot_of off := x])"
  using assms current_extent_correct [of off]
  by (auto simp: put_extent_def valid_off_def slot_of_def split: prod.splits if_splits)

definition add_slot :: "u64 \<Rightarrow> ExtMapVal \<Rightarrow> cfs_extent" where
  "add_slot b v = \<lparr>e_i_block_offset = i_block_offset v, e_num_blocks = num_blocks v,
     e_block_no = b - get_data_start_block\<rparr>"

definition del_slot :: "u64 \<Rightarrow> cfs_extent" where
  "del_slot b = \<lparr>e_i_block_offset = 0, e_num_blocks = 0, e_block_no = b - get_data_start_block\<rparr>"

text \<open>Writing, for each entry of a map, the extent it stands for (if any) into its slot.\<close>

fun write_slots ::
    "(u64 \<Rightarrow> ExtMapVal \<Rightarrow> cfs_extent option) \<Rightarrow> (u64, ExtMapVal) umap \<Rightarrow> cfs_extent list \<Rightarrow>
     cfs_extent list" where
  "write_slots f [] arr = arr"
| "write_slots f ((b, v) # m) arr =
     write_slots f m (case f b v of None \<Rightarrow> arr | Some x \<Rightarrow> arr[slot_of (i_block_offset v) := x])"

lemma length_write_slots [simp]: "length (write_slots f m arr) = length arr"
  by (induction m arbitrary: arr) (auto split: option.splits)

definition offs_valid :: "(u64, ExtMapVal) umap \<Rightarrow> bool" where
  "offs_valid m \<longleftrightarrow> (\<forall>(b, v) \<in> set m. valid_off (i_block_offset v))"

lemma offs_valid_simps [simp]:
  "offs_valid []" "offs_valid ((b, v) # m) \<longleftrightarrow> valid_off (i_block_offset v) \<and> offs_valid m"
  by (simp_all add: offs_valid_def)

lemma fold_apply_add:
  "offs_valid m \<Longrightarrow> length arr = 7 \<Longrightarrow>
   \<exists>bl'. fold_opt apply_add m (arr, ts, bl) =
     Some (write_slots (\<lambda>b v. Some (add_slot b v)) m arr,
           fold (\<lambda>(b, t). AList.update b t) (map (\<lambda>(b, v). (b, seq_no v)) m) ts, bl')"
  by (induction m arbitrary: arr ts bl)
     (auto simp: apply_add_def put_extent_valid add_slot_def)

definition del_wins :: "(u64, u32) umap \<Rightarrow> u64 \<Rightarrow> ExtMapVal \<Rightarrow> cfs_extent option" where
  "del_wins ts b v =
     (if map_of ts b = None \<or> seq_no v > the (map_of ts b) then Some (del_slot b) else None)"

lemma fold_apply_del:
  "offs_valid m \<Longrightarrow> length arr = 7 \<Longrightarrow>
   \<exists>bl'. fold_opt apply_del m (arr, ts, bl) = Some (write_slots (del_wins ts) m arr, ts, bl')"
  by (induction m arbitrary: arr bl)
     (auto simp: apply_del_def put_extent_valid del_slot_def del_wins_def)

lemma map_of_map_snd: "map_of (map (\<lambda>(b, v). (b, f v)) m) b = map_option f (map_of m b)"
  by (induction m) auto

lemma apply_extents:
  assumes "offs_valid (ext_add e)" "offs_valid (ext_del e)" "wf_umap (ext_add e)"
    "length (d_ext_array d) = 7"
  shows "\<exists>bl'. applyChangesTo e d bl = Some ((apply_attrs e d)\<lparr>d_ext_array :=
     write_slots (del_wins (map (\<lambda>(b, v). (b, seq_no v)) (ext_add e))) (ext_del e)
       (write_slots (\<lambda>b v. Some (add_slot b v)) (ext_add e) (d_ext_array d))\<rparr>, bl')"
proof -
  let ?ts = "map (\<lambda>(b, v). (b, seq_no v)) (ext_add e)"
  have "wf_umap ?ts" using assms(3) by (simp add: wf_umap_def comp_def case_prod_unfold)
  then have ts: "fold (\<lambda>(b, t). AList.update b t) ?ts [] = ?ts" by (rule fold_update_rebuild)
  obtain bl1 where "fold_opt apply_add (ext_add e) (d_ext_array d, [], bl) =
      Some (write_slots (\<lambda>b v. Some (add_slot b v)) (ext_add e) (d_ext_array d), ?ts, bl1)"
    using fold_apply_add [OF assms(1,4), of "[]" bl] by (auto simp: ts)
  moreover obtain bl2 where "fold_opt apply_del (ext_del e)
      (write_slots (\<lambda>b v. Some (add_slot b v)) (ext_add e) (d_ext_array d), ?ts, bl1) =
      Some (write_slots (del_wins ?ts) (ext_del e)
        (write_slots (\<lambda>b v. Some (add_slot b v)) (ext_add e) (d_ext_array d)), ?ts, bl2)"
    using fold_apply_del [OF assms(2), of _ ?ts bl1] assms(4) by fastforce
  ultimately show ?thesis by (simp add: applyChangesTo_def)
qed

text \<open>
  \<open>slots_agree \<sigma> B m\<close>: every entry of the map has its block in \<open>B\<close> and its file offset in the
  extent slot \<open>\<sigma>\<close> assigns to the block.
\<close>

definition slots_agree :: "(u64 \<Rightarrow> nat) \<Rightarrow> u64 set \<Rightarrow> (u64, ExtMapVal) umap \<Rightarrow> bool" where
  "slots_agree \<sigma> B m \<longleftrightarrow> (\<forall>(b, v) \<in> set m. b \<in> B \<and> slot_of (i_block_offset v) = \<sigma> b)"

lemma slots_agree_simps [simp]:
  "slots_agree \<sigma> B []"
  "slots_agree \<sigma> B ((b, v) # m) \<longleftrightarrow> b \<in> B \<and> slot_of (i_block_offset v) = \<sigma> b \<and> slots_agree \<sigma> B m"
  by (auto simp: slots_agree_def)

lemma write_slots_nth:
  assumes "slots_agree \<sigma> B m" "wf_umap m" "inj_on \<sigma> B" "\<forall>b \<in> B. \<sigma> b < length arr"
  shows "b \<in> B \<Longrightarrow> write_slots f m arr ! \<sigma> b =
           (case map_of m b of None \<Rightarrow> arr ! \<sigma> b
            | Some v \<Rightarrow> (case f b v of None \<Rightarrow> arr ! \<sigma> b | Some x \<Rightarrow> x))"
    "i \<notin> \<sigma> ` B \<Longrightarrow> write_slots f m arr ! i = arr ! i"
  using assms
proof (induction m arbitrary: arr)
  case Nil
  { case 1 then show ?case by simp }
  { case 2 then show ?case by simp }
next
  case (Cons p m)
  obtain c v where p: "p = (c, v)" by (cases p)
  { case 1
    let ?arr = "case f c v of None \<Rightarrow> arr | Some x \<Rightarrow> arr[slot_of (i_block_offset v) := x]"
    have len: "length ?arr = length arr" by (auto split: option.splits)
    from 1 have c: "c \<in> B" "slot_of (i_block_offset v) = \<sigma> c" "slots_agree \<sigma> B m" "wf_umap m"
      "map_of m c = None"
      by (auto simp: p wf_umap_def map_of_eq_None_iff)
    have "\<sigma> b = \<sigma> c \<longleftrightarrow> b = c" using 1 c(1) by (auto dest: inj_onD)
    moreover have "write_slots f m ?arr ! \<sigma> b =
        (case map_of m b of None \<Rightarrow> ?arr ! \<sigma> b
         | Some v \<Rightarrow> (case f b v of None \<Rightarrow> ?arr ! \<sigma> b | Some x \<Rightarrow> x))"
      using 1 c by (intro Cons.IH(1)) (auto simp: len)
    moreover have "\<sigma> c < length arr" using 1 c(1) by blast
    ultimately show ?case
      using c(2,5) by (auto simp: p nth_list_update split: option.splits) }
  { case 2
    let ?arr = "case f c v of None \<Rightarrow> arr | Some x \<Rightarrow> arr[slot_of (i_block_offset v) := x]"
    have len: "length ?arr = length arr" by (auto split: option.splits)
    from 2 have "slot_of (i_block_offset v) \<noteq> i" "slots_agree \<sigma> B m" "wf_umap m"
      by (auto simp: p wf_umap_def)
    moreover from this 2 have "write_slots f m ?arr ! i = ?arr ! i"
      by (intro Cons.IH(2)) (auto simp: len)
    ultimately show ?case by (auto simp: p split: option.splits) }
qed

type_synonym ext_op = "cfs_extent \<times> bool \<times> bool"

definition log_ext :: "ext_op \<Rightarrow> InodeLogEntry \<Rightarrow> InodeLogEntry" where
  "log_ext p = (case p of (x, add, bm) \<Rightarrow> update_extent x add bm)"

definition do_ext :: "ext_op \<Rightarrow> cfs_extent list \<Rightarrow> cfs_extent list" where
  "do_ext p arr = (case p of (x, add, bm) \<Rightarrow>
     arr[slot_of (e_i_block_offset x) :=
       if add then x else \<lparr>e_i_block_offset = 0, e_num_blocks = 0, e_block_no = e_block_no x\<rparr>])"

definition op_block :: "ext_op \<Rightarrow> u64" where
  "op_block p = conv_lba_to_pba (e_block_no (fst p))"

definition op_off :: "ext_op \<Rightarrow> u32" where
  "op_off p = e_i_block_offset (fst p)"

lemma ext_record_entries:
  assumes "\<forall>(c, w) \<in> set m. P c w" "\<And>x. P b (v\<lparr>bmap_modified := x\<rparr>)"
  shows "\<forall>(c, w) \<in> set (ext_record b v m). P c w"
proof -
  have "P b v" using assms(2) [of "bmap_modified v"] by simp
  have upd: "\<forall>(c, w) \<in> set (AList.update b u m). P c w" if "P b u" for u
    using assms(1) that by (induction m) auto
  show ?thesis
    using upd [OF \<open>P b v\<close>] upd [OF assms(2)] by (simp add: ext_record_def split: option.splits)
qed

lemma map_of_ext_record:
  "\<exists>x. map_of (ext_record b v m) = (map_of m)(b \<mapsto> v\<lparr>bmap_modified := x\<rparr>)"
proof (cases "map_of m b")
  case None
  then show ?thesis by (intro exI [of _ "bmap_modified v"]) (simp add: ext_record_def update_conv')
next
  case (Some w)
  then show ?thesis
    by (intro exI [of _ "bmap_modified w \<or> bmap_modified v"]) (simp add: ext_record_def update_conv')
qed

lemma wf_ext_record [simp]: "wf_umap m \<Longrightarrow> wf_umap (ext_record b v m)"
  by (simp add: ext_record_def split: option.splits)

text \<open>
  \<open>log_inv\<close>: what recording \<open>n\<close> operations on blocks \<open>B\<close> with extent slots \<open>\<sigma>\<close> keeps of the
  log; every recorded sequence number is below \<open>n\<close>.
\<close>

definition entry_ok :: "(u64 \<Rightarrow> nat) \<Rightarrow> u64 set \<Rightarrow> nat \<Rightarrow> u64 \<Rightarrow> ExtMapVal \<Rightarrow> bool" where
  "entry_ok \<sigma> B n b v \<longleftrightarrow> b \<in> B \<and> valid_off (i_block_offset v) \<and>
     slot_of (i_block_offset v) = \<sigma> b \<and> unat (seq_no v) < n"

definition log_inv :: "(u64 \<Rightarrow> nat) \<Rightarrow> u64 set \<Rightarrow> nat \<Rightarrow> InodeLogEntry \<Rightarrow> bool" where
  "log_inv \<sigma> B n e \<longleftrightarrow>
     wf_umap (ext_add e) \<and> wf_umap (ext_del e) \<and> unat (extent_seq_no e) = n \<and>
     (\<forall>(b, v) \<in> set (ext_add e). entry_ok \<sigma> B n b v) \<and>
     (\<forall>(b, v) \<in> set (ext_del e). entry_ok \<sigma> B n b v)"

definition op_ok :: "(u64 \<Rightarrow> nat) \<Rightarrow> u64 set \<Rightarrow> ext_op \<Rightarrow> bool" where
  "op_ok \<sigma> B p \<longleftrightarrow> op_block p \<in> B \<and> valid_off (op_off p) \<and> slot_of (op_off p) = \<sigma> (op_block p)"

lemma log_inv_maps:
  assumes "log_inv \<sigma> B n e"
  shows "offs_valid (ext_add e)" "offs_valid (ext_del e)" "slots_agree \<sigma> B (ext_add e)"
    "slots_agree \<sigma> B (ext_del e)" "wf_umap (ext_add e)" "wf_umap (ext_del e)"
    "map_of (ext_add e) b = Some v \<Longrightarrow> unat (seq_no v) < n"
    "map_of (ext_del e) b = Some v \<Longrightarrow> unat (seq_no v) < n"
  using assms
  by (auto simp: log_inv_def entry_ok_def offs_valid_def slots_agree_def dest: map_of_SomeD)

lemma entries_weaken:
  "\<forall>(b, v) \<in> set m. entry_ok \<sigma> B n b v \<Longrightarrow> \<forall>(b, v) \<in> set m. entry_ok \<sigma> B (Suc n) b v"
  by (auto simp: entry_ok_def)

lemma log_inv_step:
  assumes "log_inv \<sigma> B n e" "op_ok \<sigma> B p" "Suc n < 2 ^ 32"
  shows "log_inv \<sigma> B (Suc n) (log_ext p e)"
proof -
  obtain x add bm where p: "p = (x, add, bm)" by (cases p)
  let ?v = "\<lparr>seq_no = extent_seq_no e, i_block_offset = e_i_block_offset x,
             num_blocks = e_num_blocks x, bmap_modified = bm\<rparr>"
  have n: "unat (extent_seq_no e) = n" using assms(1) by (simp add: log_inv_def)
  have n': "unat (extent_seq_no e + 1) = Suc n" using n assms(3) by (simp add: unat_add_no_overflow)
  have rec: "\<forall>(c, w) \<in> set (ext_record (op_block p) ?v m). entry_ok \<sigma> B (Suc n) c w"
    if "\<forall>(c, w) \<in> set m. entry_ok \<sigma> B n c w" for m
    using entries_weaken [OF that] assms(2) n
    by (intro ext_record_entries) (auto simp: entry_ok_def op_ok_def op_off_def p)
  show ?thesis
    using assms(1) rec [of "ext_add e"] rec [of "ext_del e"] n'
      entries_weaken [of "ext_add e" \<sigma> B n] entries_weaken [of "ext_del e" \<sigma> B n]
    by (simp add: log_inv_def log_ext_def update_extent_def Let_def p op_block_def)
qed

text \<open>The array the log produces, read off the two maps.\<close>

definition ext_result :: "InodeLogEntry \<Rightarrow> cfs_extent list \<Rightarrow> cfs_extent list" where
  "ext_result e arr =
     write_slots (del_wins (map (\<lambda>(b, v). (b, seq_no v)) (ext_add e))) (ext_del e)
       (write_slots (\<lambda>b v. Some (add_slot b v)) (ext_add e) arr)"

definition slot_val :: "InodeLogEntry \<Rightarrow> u64 \<Rightarrow> cfs_extent \<Rightarrow> cfs_extent" where
  "slot_val e b x =
     (case (map_of (ext_add e) b, map_of (ext_del e) b) of
        (None, None) \<Rightarrow> x
      | (Some a, None) \<Rightarrow> add_slot b a
      | (None, Some d) \<Rightarrow> del_slot b
      | (Some a, Some d) \<Rightarrow> if seq_no d > seq_no a then del_slot b else add_slot b a)"

lemma ext_result_nth:
  assumes "log_inv \<sigma> B n e" "inj_on \<sigma> B" "\<forall>b \<in> B. \<sigma> b < length arr"
  shows "b \<in> B \<Longrightarrow> ext_result e arr ! \<sigma> b = slot_val e b (arr ! \<sigma> b)"
    "i \<notin> \<sigma> ` B \<Longrightarrow> ext_result e arr ! i = arr ! i"
proof -
  note m = log_inv_maps [OF assms(1)]
  let ?arr = "write_slots (\<lambda>b v. Some (add_slot b v)) (ext_add e) arr"
  have len: "\<forall>b \<in> B. \<sigma> b < length ?arr" using assms(3) by simp
  note w1 = write_slots_nth [OF m(3,5) assms(2,3)] and w2 = write_slots_nth [OF m(4,6) assms(2) len]
  show "ext_result e arr ! \<sigma> b = slot_val e b (arr ! \<sigma> b)" if "b \<in> B"
    unfolding ext_result_def w2(1) [OF that] w1(1) [OF that] slot_val_def
    by (auto simp: del_wins_def map_of_map_snd split: option.splits)
  show "ext_result e arr ! i = arr ! i" if "i \<notin> \<sigma> ` B"
    unfolding ext_result_def w2(2) [OF that] w1(2) [OF that] by simp
qed

lemma slot_val_log_ext:
  assumes "log_inv \<sigma> B n e"
  shows "slot_val (log_ext (x, add, bm) e) b y =
           (if b = op_block (x, add, bm)
            then if add then x else \<lparr>e_i_block_offset = 0, e_num_blocks = 0, e_block_no = e_block_no x\<rparr>
            else slot_val e b y)"
proof -
  define c where "c = conv_lba_to_pba (e_block_no x)"
  define v where "v = \<lparr>seq_no = extent_seq_no e, i_block_offset = e_i_block_offset x,
             num_blocks = e_num_blocks x, bmap_modified = bm\<rparr>"
  have n: "unat (extent_seq_no e) = n" using assms(1) by (simp add: log_inv_def)
  have lt: "map_of (ext_add e) c = Some w \<Longrightarrow> seq_no w < extent_seq_no e"
    "map_of (ext_del e) c = Some w \<Longrightarrow> \<not> extent_seq_no e < seq_no w" for w
    using log_inv_maps(7,8) [OF assms(1)] n by (auto simp: word_less_nat_alt dest: less_asym)
  have slots: "add_slot c (v\<lparr>bmap_modified := z\<rparr>) = x"
    "del_slot c = \<lparr>e_i_block_offset = 0, e_num_blocks = 0, e_block_no = e_block_no x\<rparr>" for z
    by (simp_all add: add_slot_def del_slot_def c_def v_def conv_lba_to_pba_def)
  have c: "op_block (x, a, bm) = c" for a by (simp add: op_block_def c_def)
  have sq: "seq_no (v\<lparr>bmap_modified := z\<rparr>) = extent_seq_no e" for z by (simp add: v_def)
  show ?thesis
  proof (cases add)
    case True
    obtain z where "map_of (ext_record c v (ext_add e)) = (map_of (ext_add e))(c \<mapsto> v\<lparr>bmap_modified := z\<rparr>)"
      using map_of_ext_record by blast
    moreover have "log_ext (x, add, bm) e
        = e\<lparr>extent_seq_no := extent_seq_no e + 1, ext_add := ext_record c v (ext_add e)\<rparr>"
      using True by (simp add: log_ext_def update_extent_def Let_def c_def v_def)
    ultimately show ?thesis
      using True lt(2) by (simp add: slot_val_def c slots sq split: option.split)
  next
    case False
    obtain z where "map_of (ext_record c v (ext_del e)) = (map_of (ext_del e))(c \<mapsto> v\<lparr>bmap_modified := z\<rparr>)"
      using map_of_ext_record by blast
    moreover have "log_ext (x, add, bm) e
        = e\<lparr>extent_seq_no := extent_seq_no e + 1, ext_del := ext_record c v (ext_del e)\<rparr>"
      using False by (simp add: log_ext_def update_extent_def Let_def c_def v_def)
    ultimately show ?thesis
      using False lt(1) by (simp add: slot_val_def c slots sq split: option.split)
  qed
qed

lemma log_inv_fold:
  assumes "\<forall>p \<in> set ops. op_ok \<sigma> B p" "length ops < 2 ^ 32"
  shows "log_inv \<sigma> B (length ops) (fold log_ext ops (InodeLogEntry_new ino sid junk))"
  using assms
proof (induction ops rule: rev_induct)
  case Nil
  then show ?case by (simp add: log_inv_def InodeLogEntry_new_def)
next
  case (snoc p ops)
  then show ?case by (simp add: log_inv_step)
qed

lemma do_ext_length [simp]: "length (fold do_ext ops arr) = length arr"
  by (induction ops arbitrary: arr) (simp_all add: do_ext_def split: prod.splits)

lemma ext_result_length [simp]: "length (ext_result e arr) = length arr"
  by (simp add: ext_result_def)

lemma ext_result_replay:
  assumes "\<forall>p \<in> set ops. op_ok \<sigma> B p" "inj_on \<sigma> B" "length ops < 2 ^ 32"
    "\<forall>b \<in> B. \<sigma> b < length arr"
  shows "ext_result (fold log_ext ops (InodeLogEntry_new ino sid junk)) arr = fold do_ext ops arr"
  using assms(1,3)
proof (induction ops rule: rev_induct)
  case Nil
  then show ?case by (simp add: ext_result_def InodeLogEntry_new_def)
next
  case (snoc p ops)
  let ?e = "fold log_ext ops (InodeLogEntry_new ino sid junk)"
  obtain x add bm where p: "p = (x, add, bm)" by (cases p)
  have IH: "ext_result ?e arr = fold do_ext ops arr" using snoc by simp
  have inv: "log_inv \<sigma> B (length ops) ?e" using snoc.prems by (intro log_inv_fold) auto
  have inv': "log_inv \<sigma> B (length (ops @ [p])) (log_ext p ?e)"
    using log_inv_fold [OF snoc.prems, of ino sid junk] by simp
  have ok: "op_block p \<in> B" "slot_of (e_i_block_offset x) = \<sigma> (op_block p)"
    using snoc.prems(1) by (auto simp: op_ok_def op_off_def p)
  have "ext_result (log_ext p ?e) arr ! i = do_ext p (ext_result ?e arr) ! i" if "i < length arr" for i
  proof (cases "i \<in> \<sigma> ` B")
    case False
    with ok have "i \<noteq> slot_of (e_i_block_offset x)" by auto
    with False ext_result_nth(2) [OF inv assms(2,4)] ext_result_nth(2) [OF inv' assms(2,4)]
    show ?thesis by (simp add: do_ext_def p)
  next
    case True
    then obtain b where b: "b \<in> B" "i = \<sigma> b" by blast
    have "\<sigma> b = \<sigma> (op_block p) \<longleftrightarrow> b = op_block p"
      using b(1) ok(1) assms(2) by (auto dest: inj_onD)
    with b ok that ext_result_nth(1) [OF inv assms(2,4) b(1)]
      ext_result_nth(1) [OF inv' assms(2,4) b(1)] slot_val_log_ext [OF inv, of x add bm b "arr ! i"]
    show ?thesis by (auto simp: do_ext_def p nth_list_update)
  qed
  moreover have "length (do_ext p (ext_result ?e arr)) = length arr" by (simp add: do_ext_def p)
  ultimately have "ext_result (log_ext p ?e) arr = do_ext p (ext_result ?e arr)"
    by (intro nth_equalityI) simp_all
  then show ?case by (simp add: IH)
qed

lemma apply_new_extents:
  assumes "\<forall>p \<in> set ops. op_ok \<sigma> B p" "length ops < 2 ^ 32" "length (d_ext_array d) = 7"
  shows "\<exists>d' bl'. applyChangesTo (fold log_ext ops (InodeLogEntry_new ino sid junk)) d bl = Some (d', bl') \<and>
           d_ext_array d' =
             ext_result (fold log_ext ops (InodeLogEntry_new ino sid junk)) (d_ext_array d)"
proof -
  let ?e = "fold log_ext ops (InodeLogEntry_new ino sid junk)"
  have "log_inv \<sigma> B (length ops) ?e" using assms(1,2) by (rule log_inv_fold)
  from apply_extents [OF log_inv_maps(1,2,5) [OF this] assms(3), of bl]
  show ?thesis by (auto simp: ext_result_def)
qed


definition demo_extent :: "u64 \<Rightarrow> cfs_extent" where
  "demo_extent b = \<lparr>e_i_block_offset = 0, e_num_blocks = 1, e_block_no = b\<rparr>"

lemma demo_extent_slot: "valid_off (op_off (demo_extent b, a, m))" "slot_of (op_off (demo_extent b, a, m)) = 0"
  by (simp_all add: valid_off_def slot_of_def op_off_def demo_extent_def current_extent_cases)


text \<open>A replaced extent is lost. When an extent is deleted and then another disk block is
  added in the same extent slot before the log is written (truncate and write again), applying
  the log leaves the slot with zero blocks and the deleted block number, while the inode in
  memory has the new block there: deletions are applied after all additions, and the sequence
  numbers are compared only between operations on the same disk block.\<close>

theorem replaced_extent_lost:
  assumes "e_block_no x \<noteq> e_block_no y" "valid_off (e_i_block_offset x)"
    "slot_of (e_i_block_offset y) = slot_of (e_i_block_offset x)" "valid_off (e_i_block_offset y)"
    "length (d_ext_array d) = 7"
  shows "\<exists>d' bl'. applyChangesTo (fold log_ext [(x, False, True), (y, True, True)]
             (InodeLogEntry_new ino sid junk)) d bl = Some (d', bl') \<and>
           d_ext_array d' ! slot_of (e_i_block_offset x)
             = \<lparr>e_i_block_offset = 0, e_num_blocks = 0, e_block_no = e_block_no x\<rparr> \<and>
           fold do_ext [(x, False, True), (y, True, True)] (d_ext_array d) ! slot_of (e_i_block_offset x) = y"
proof -
  let ?ops = "[(x, False, True), (y, True, True)]"
  let ?e = "fold log_ext ?ops (InodeLogEntry_new ino sid junk)"
  let ?bx = "conv_lba_to_pba (e_block_no x)" and ?by = "conv_lba_to_pba (e_block_no y)"
  have ne: "?bx \<noteq> ?by" using assms(1) by (simp add: conv_lba_to_pba_def)
  have lt: "slot_of (e_i_block_offset x) < 7" using assms(2) by (rule slot_of_bound)
  have ok: "\<forall>p \<in> set ?ops. op_ok (\<lambda>_. slot_of (e_i_block_offset x)) UNIV p"
    using assms by (simp add: op_ok_def op_off_def)
  have "ext_result ?e (d_ext_array d) ! slot_of (e_i_block_offset x) = del_slot ?bx"
    using ne lt assms(3,5)
    by (simp add: ext_result_def log_ext_def update_extent_def Let_def InodeLogEntry_new_def
        ext_record_def del_wins_def)
  moreover have "del_slot ?bx = \<lparr>e_i_block_offset = 0, e_num_blocks = 0, e_block_no = e_block_no x\<rparr>"
    by (simp add: del_slot_def conv_lba_to_pba_def)
  moreover have "fold do_ext ?ops (d_ext_array d) ! slot_of (e_i_block_offset x) = y"
    using lt assms(3,5) by (simp add: do_ext_def)
  ultimately show ?thesis
    using apply_new_extents [OF ok _ assms(5), of ino sid junk bl] by auto
qed

theorem replaced_extent_lost_witness:
  "\<exists>d' bl'. applyChangesTo (fold log_ext [(demo_extent 5, False, True), (demo_extent 6, True, True)]
       (InodeLogEntry_new 7 2 demo_ile)) demo_dinode [] = Some (d', bl') \<and>
     e_num_blocks (d_ext_array d' ! 0) = 0"
proof -
  have "e_block_no (demo_extent 5) \<noteq> e_block_no (demo_extent 6)" "length (d_ext_array demo_dinode) = 7"
    by (simp_all add: demo_extent_def demo_dinode_def)
  from replaced_extent_lost [OF this(1) _ _ _ this(2), of 7 2 demo_ile "[]"]
    demo_extent_slot [unfolded op_off_def fst_conv, of 5]
    demo_extent_slot [unfolded op_off_def fst_conv, of 6]
  obtain d' bl' where
    "applyChangesTo (fold log_ext [(demo_extent 5, False, True), (demo_extent 6, True, True)]
       (InodeLogEntry_new 7 2 demo_ile)) demo_dinode [] = Some (d', bl')"
    "e_num_blocks (d_ext_array d' ! 0) = 0" by (auto simp: cfs_extent.defs)
  then show ?thesis by blast
qed

end
