(* ===== verification/Ufs_JournalOrder.thy ===== *)
theory Ufs_JournalOrder
  imports Ufs_JournalProps "HOL-Library.Multiset"
begin

text \<open>
  The order of the journal manager's device commands. A journal is only worth something if a
  commit block is sent after the body (and the flush, where the device has one) has completed,
  and an entry is acknowledged after its commit block has completed. The theory states this over
  the event history of a manager, for every manager that any sequence of submissions,
  completions (in any order, failing or not) and checkpoint steps can reach, together with the
  accounting of the pinned buffers that entries in flight use.
\<close>

subsection \<open>Well-ordered histories\<close>

text \<open>The command whose successful completion is the last event.\<close>

definition ok_before :: "event list \<Rightarrow> dev_cmd option" where
  "ok_before past =
     (if past = [] then None
      else case last past of Completed c err \<Rightarrow> if err then None else Some c | _ \<Rightarrow> None)"

fun submitted :: "event list \<Rightarrow> dev_cmd list" where
  "submitted [] = []"
| "submitted (Submitted c # h) = c # submitted h"
| "submitted (_ # h) = submitted h"

fun completed :: "event list \<Rightarrow> dev_cmd list" where
  "completed [] = []"
| "completed (Completed c e # h) = c # completed h"
| "completed (_ # h) = completed h"

text \<open>What must have happened for an event to be allowed.\<close>

fun justified :: "Env \<Rightarrow> event list \<Rightarrow> event \<Rightarrow> bool" where
  "justified env past (Submitted (BodyWrite je body)) \<longleftrightarrow>
     je_state je = WRITE_BODY \<and> body = fst (serializeBody (pad_of env) (ustime_serialized je) je)"
| "justified env past (Submitted (FlushCmd je)) \<longleftrightarrow>
     (case ok_before past of
        Some (BodyWrite je0 body) \<Rightarrow> flush_supported env \<and> je = je0\<lparr>je_state := FLUSH\<rparr>
      | _ \<Rightarrow> False)"
| "justified env past (Submitted (CommitWrite je blk)) \<longleftrightarrow> blk = serializeCommit je \<and>
     (case ok_before past of
        Some (FlushCmd je0) \<Rightarrow> je = je0\<lparr>je_state := WRITE_COMMIT\<rparr>
      | Some (BodyWrite je0 body) \<Rightarrow> \<not> flush_supported env \<and> je = je0\<lparr>je_state := WRITE_COMMIT\<rparr>
      | _ \<Rightarrow> False)"
| "justified env past (Submitted (SuperWrite dj old)) \<longleftrightarrow> True"
| "justified env past (Completed c err) \<longleftrightarrow>
     count_list (completed past) c < count_list (submitted past) c"
| "justified env past (Notified je ok) \<longleftrightarrow> (ok \<longrightarrow>
     (case ok_before past of
        Some (CommitWrite je0 blk) \<Rightarrow>
          je_id je = je_id je0 \<and> start_block je = start_block je0 \<and> nblocks je = nblocks je0
      | _ \<Rightarrow> False))"

definition history_ok :: "Env \<Rightarrow> event list \<Rightarrow> bool" where
  "history_ok env h \<longleftrightarrow> (\<forall>i < length h. justified env (take i h) (h ! i))"

lemma history_ok_append [simp]:
  "history_ok env (h @ [e]) \<longleftrightarrow> history_ok env h \<and> justified env h e"
  by (auto simp: history_ok_def nth_append less_Suc_eq)

lemma history_ok_Nil [simp]: "history_ok env []"
  by (simp add: history_ok_def)

lemma submitted_append [simp]: "submitted (h @ h') = submitted h @ submitted h'"
  by (induction h rule: submitted.induct) simp_all

lemma completed_append [simp]: "completed (h @ h') = completed h @ completed h'"
  by (induction h rule: completed.induct) simp_all

lemma ok_before_Completed [simp]: "ok_before (h @ [Completed c err]) = (if err then None else Some c)"
  by (simp add: ok_before_def)

subsection \<open>The invariant\<close>

fun cmd_entry :: "dev_cmd \<Rightarrow> JournalEntry option" where
  "cmd_entry (BodyWrite je body) = Some je"
| "cmd_entry (FlushCmd je) = Some je"
| "cmd_entry (CommitWrite je blk) = Some je"
| "cmd_entry (SuperWrite dj old) = None"

definition entry_pins :: "JournalEntry \<Rightarrow> nat list" where
  "entry_pins je = (case pinned_mem je of None \<Rightarrow> [] | Some p \<Rightarrow> [p])"

definition cmd_pins :: "dev_cmd \<Rightarrow> nat list" where
  "cmd_pins c = (case cmd_entry c of None \<Rightarrow> [] | Some je \<Rightarrow> entry_pins je)"

definition flight_pins :: "JMgr \<Rightarrow> nat list" where
  "flight_pins m = concat (map cmd_pins (in_flight_cmds m))"

text \<open>\<open>held\<close> are the buffers of the entry that a handler is just working on.\<close>

definition minv :: "Env \<Rightarrow> nat list \<Rightarrow> JMgr \<Rightarrow> bool" where
  "minv env held m \<longleftrightarrow> history_ok env (history m) \<and>
     mset (submitted (history m)) = mset (completed (history m)) + mset (in_flight_cmds m) \<and>
     mset (pinned_mem_queue m) + mset (flight_pins m) + mset held = mset [0..<kMaxInFlight] \<and>
     (\<forall>je \<in> set (je_queue m). pinned_mem je = None) \<and>
     (\<forall>c \<in> set (in_flight_cmds m). \<forall>je. cmd_entry c = Some je \<longrightarrow> pinned_mem je \<noteq> None)"

lemma minv_cong:
  "minv env held m \<Longrightarrow> history m' = history m \<Longrightarrow> in_flight_cmds m' = in_flight_cmds m \<Longrightarrow>
   pinned_mem_queue m' = pinned_mem_queue m \<Longrightarrow> set (je_queue m') \<subseteq> set (je_queue m) \<Longrightarrow> minv env held m'"
  by (auto simp: minv_def flight_pins_def)

lemma minv_submit:
  assumes "minv env (cmd_pins c) m" "justified env (history m) (Submitted c)"
    "\<And>je. cmd_entry c = Some je \<Longrightarrow> pinned_mem je \<noteq> None" "submit env c m = Some m'"
  shows "minv env [] m'"
  using assms by (auto simp: minv_def submit_def flight_pins_def ac_simps split: if_splits)

lemma minv_callback:
  "minv env [] m \<Longrightarrow> justified env (history m) (Notified je ok) \<Longrightarrow> minv env [] (callback je ok m)"
  by (auto simp: minv_def callback_def flight_pins_def)

lemma minv_release:
  assumes "minv env (entry_pins je) m" "ReleasePinnedMem je m = Some (je', m')"
  shows "minv env [] m'" "history m' = history m" "je' = je\<lparr>pinned_mem := None\<rparr>"
  using assms
  by (auto simp: minv_def ReleasePinnedMem_def entry_pins_def flight_pins_def ac_simps
      split: option.splits if_splits)

lemma minv_acquire:
  assumes "minv env [] m" "AcquirePinnedMem je m = Some (je', m')"
  shows "minv env (entry_pins je') m'" "history m' = history m" "\<exists>p. je' = je\<lparr>pinned_mem := Some p\<rparr>"
  using assms
  by (auto simp: minv_def AcquirePinnedMem_def entry_pins_def flight_pins_def
      split: list.splits if_splits)

lemma minv_WriteJSuper:
  assumes "minv env [] m" "WriteJSuper env m = Some m'"
  shows "minv env [] m'"
proof (cases "TrySetWriteInProgress (jsuper m)")
  case None
  with assms show ?thesis by (simp add: WriteJSuper_def)
next
  case (Some r)
  obtain dj old js where r: "r = ((dj, old), js)" by (cases r) auto
  have "minv env (cmd_pins (SuperWrite dj old)) (m\<lparr>jsuper := js\<rparr>)"
    using assms(1) by (auto simp: cmd_pins_def intro: minv_cong)
  then show ?thesis
    by (rule minv_submit) (use assms(2) Some r in \<open>auto simp: WriteJSuper_def\<close>)
qed

subsection \<open>The handlers keep the invariant\<close>

text \<open>What the state of an entry says about the event just before.\<close>

definition entered :: "Env \<Rightarrow> event list \<Rightarrow> JournalEntry \<Rightarrow> bool" where
  "entered env h je \<longleftrightarrow> (je_state je \<noteq> FAILURE \<longrightarrow> pinned_mem je \<noteq> None) \<and>
     (case je_state je of
        FLUSH \<Rightarrow> (case ok_before h of Some (BodyWrite je0 _) \<Rightarrow> je = je0\<lparr>je_state := FLUSH\<rparr> | _ \<Rightarrow> False)
      | WRITE_COMMIT \<Rightarrow> (case ok_before h of Some (FlushCmd je0) \<Rightarrow> je = je0\<lparr>je_state := WRITE_COMMIT\<rparr> | _ \<Rightarrow> False)
      | SUCCESS \<Rightarrow> (case ok_before h of Some (CommitWrite je0 _) \<Rightarrow> je = je0\<lparr>je_state := SUCCESS\<rparr> | _ \<Rightarrow> False)
      | _ \<Rightarrow> True)"

definition same_place :: "JournalEntry \<Rightarrow> JournalEntry \<Rightarrow> bool" where
  "same_place a b \<longleftrightarrow> je_id a = je_id b \<and> start_block a = start_block b \<and> nblocks a = nblocks b \<and>
     pinned_mem a = pinned_mem b"

lemma split_blocks_place: "same_place (split_blocks bs je) je"
  unfolding split_blocks_def
  by (induction bs arbitrary: je) (auto simp: same_place_def split: prod.splits)

lemma on_success_place:
  "on_successful_journal_write p (ci, je) = Some (p', ci', je') \<Longrightarrow> same_place je' je"
  using split_blocks_place [of _ je]
  by (auto simp: on_successful_journal_write_def same_place_def Let_def split: prod.splits bind_splits)

lemma journal_write_all_place:
  "journal_write_all ps (ci, je) = Some (ps', ci', je') \<Longrightarrow> same_place je' je"
proof (induction ps arbitrary: ci je ps')
  case (Cons p ps)
  obtain p' ci1 je1 where a: "on_successful_journal_write p (ci, je) = Some (p', ci1, je1)"
    using Cons.prems by (cases "on_successful_journal_write p (ci, je)") auto
  obtain ps1 where b: "journal_write_all ps (ci1, je1) = Some (ps1, ci', je')"
    using Cons.prems a by (cases "journal_write_all ps (ci1, je1)") auto
  from on_success_place [OF a] Cons.IH [OF b] show ?case by (simp add: same_place_def)
qed (simp add: same_place_def)

lemma serializeBody_again:
  "serializeBody pad now je = (body, je') \<Longrightarrow>
     je' = je\<lparr>ustime_serialized := now\<rparr> \<and> body = fst (serializeBody pad now je')"
  by (auto simp: serializeBody_def Let_def)

lemma guard_eq_Some: "(if b then None else x) = Some y \<longleftrightarrow> \<not> b \<and> x = Some y"
  by simp

text \<open>
  Processing an entry relies on the attempt to start the next one only through this contract.
\<close>

locale next_attempt =
  fixes env :: Env and attempt :: "JMgr \<Rightarrow> JMgr option"
  assumes keeps: "attempt m = Some m' \<Longrightarrow> minv env [] m \<Longrightarrow> minv env [] m'"
begin

lemma process_failure_minv:
  assumes "processJournalEntry env attempt je m = Some m'" "minv env (entry_pins je) m" "je_state je = FAILURE"
  shows "minv env [] m'"
proof -
  obtain je1 m1 where r: "ReleasePinnedMem je m = Some (je1, m1)" "attempt (callback je1 False m1) = Some m'"
    using assms(1,3) by (auto simp: processJournalEntry_def split: bind_splits)
  from minv_callback [OF minv_release(1) [OF assms(2) r(1)], of je1 False] show ?thesis
    by (intro keeps [OF r(2)]) simp
qed

lemma process_success_minv:
  assumes "processJournalEntry env attempt je m = Some m'" "minv env (entry_pins je) m" "je_state je = SUCCESS"
    "entered env (history m) je"
  shows "minv env [] m'"
proof -
  obtain iles ci je1 je2 m1 where w: "journal_write_all (ile_vec je) (checkpointInput m, je) = Some (iles, ci, je1)"
    and r: "ReleasePinnedMem (je1\<lparr>ile_vec := iles\<rparr>) (m\<lparr>checkpointInput := ci\<rparr>) = Some (je2, m1)"
      "attempt (callback je2 True m1) = Some m'"
    using assms(1,3) by (auto simp: processJournalEntry_def split: bind_splits prod.splits)
  have pl: "same_place je1 je" by (rule journal_write_all_place [OF w])
  then have "minv env (entry_pins (je1\<lparr>ile_vec := iles\<rparr>)) (m\<lparr>checkpointInput := ci\<rparr>)"
    using assms(2) by (auto simp: same_place_def entry_pins_def intro: minv_cong)
  note rel = minv_release [OF this r(1)]
  have "justified env (history m1) (Notified je2 True)"
    using pl assms(3,4) by (auto simp: rel(2,3) entered_def same_place_def split: option.splits dev_cmd.splits)
  from keeps [OF r(2) minv_callback [OF rel(1) this]] show ?thesis .
qed

lemma process_write_minv:
  assumes "processJournalEntry env attempt je m = Some m'" "minv env (entry_pins je) m"
    "entered env (history m) je" "je_state je \<in> {WRITE_BODY, FLUSH, WRITE_COMMIT}"
  shows "minv env [] m'"
proof -
  note submit = minv_submit [rotated 3]
  consider "je_state je = WRITE_BODY" | "je_state je = FLUSH" "flush_supported env"
    | "je_state je = FLUSH" "\<not> flush_supported env" | "je_state je = WRITE_COMMIT"
    using assms(4) by auto
  then show ?thesis
  proof cases
    case 1
    obtain body je' where b: "serializeBody (pad_of env) (clock env (ticks m)) je = (body, je')" by force
    note b' = serializeBody_again [OF b]
    have s: "submit env (BodyWrite je' body) (m\<lparr>ticks := ticks m + 1\<rparr>) = Some m'" "pinned_mem je \<noteq> None"
      using assms(1) 1 by (auto simp: processJournalEntry_def b split: if_splits)
    show ?thesis
      by (rule submit [OF s(1)])
         (use assms(2) 1 s(2) b' in \<open>auto simp: cmd_pins_def entry_pins_def intro: minv_cong\<close>)
  next
    case 2
    then have s: "submit env (FlushCmd je) m = Some m'"
      using assms(1) by (auto simp: processJournalEntry_def)
    show ?thesis
      by (rule submit [OF s])
         (use assms(2,3) 2 in \<open>auto simp: cmd_pins_def entered_def split: option.splits dev_cmd.splits\<close>)
  next
    case 3
    then have s: "submit env (CommitWrite (je\<lparr>je_state := WRITE_COMMIT\<rparr>)
        (serializeCommit (je\<lparr>je_state := WRITE_COMMIT\<rparr>))) m = Some m'"
      using assms(1) by (auto simp: processJournalEntry_def submit_commit_def split: if_splits)
    show ?thesis
      by (rule submit [OF s])
         (use assms(2,3) 3 in \<open>auto simp: cmd_pins_def entry_pins_def entered_def
            split: option.splits dev_cmd.splits\<close>)
  next
    case 4
    then have s: "submit env (CommitWrite je (serializeCommit je)) m = Some m'"
      using assms(1) by (auto simp: processJournalEntry_def submit_commit_def split: if_splits)
    show ?thesis
      by (rule submit [OF s])
         (use assms(2,3) 4 in \<open>auto simp: cmd_pins_def entered_def split: option.splits dev_cmd.splits\<close>)
  qed
qed

lemma process_minv:
  assumes "processJournalEntry env attempt je m = Some m'" "minv env (entry_pins je) m"
    "entered env (history m) je"
  shows "minv env [] m'"
proof (cases "je_state je \<in> {WRITE_BODY, FLUSH, WRITE_COMMIT}")
  case True
  with process_write_minv assms show ?thesis by blast
next
  case False
  then have "je_state je = FAILURE \<or> je_state je = SUCCESS"
    using assms(1) by (auto simp: processJournalEntry_def split: JournalEntryState.splits)
  with process_failure_minv process_success_minv assms show ?thesis by blast
qed

lemma attempt_minv:
  assumes "attempt_transaction env attempt m = Some m'" "minv env [] m"
  shows "minv env [] m'"
proof (cases "ready m")
  case False
  with assms show ?thesis by (simp add: attempt_transaction_def ready_def)
next
  case r: True
  let ?je = "front m"
  have none: "pinned_mem ?je = None" "\<And>x. x \<in> set (tl (je_queue m)) \<Longrightarrow> pinned_mem x = None"
    using assms(2) r by (auto simp: minv_def ready_def front_def dest: list.set_sel)
  have pop: "minv env [] (popped js m)" for js
    by (rule minv_cong [OF assms(2)]) (use r in \<open>auto simp: popped_def ready_def dest: list.set_sel\<close>)
  have fail: "minv env [] m'"
    if "processJournalEntry env attempt (?je\<lparr>je_state := FAILURE\<rparr>) (popped js m) = Some m'" for js
    using process_failure_minv [OF that] pop none(1) by (simp add: entry_pins_def)
  show ?thesis
  proof (cases "jblocks_required ?je > max_blocks")
    case True
    then show ?thesis
      using assms(1) r fail [of "jsuper m"]
      by (simp add: attempt_transaction_def ready_def front_def popped_same Let_def)
  next
    case False
    obtain slot js where a: "AcquireNextNSlots (jblocks_required ?je) (jsuper m) = Some (slot, js)"
      using assms(1) r False
      by (cases "AcquireNextNSlots (jblocks_required ?je) (jsuper m)")
         (auto simp: attempt_transaction_def ready_def front_def Let_def)
    consider "no_space slot" | "\<not> no_space slot" "retry_after_jsuper_written slot"
      | "\<not> no_space slot" "\<not> retry_after_jsuper_written slot" by blast
    then show ?thesis
    proof cases
      case 1
      then show ?thesis
        using assms(1) r False a fail [of js]
        by (simp add: attempt_transaction_def ready_def front_def popped_def Let_def)
    next
      case 2
      then have "m' = m\<lparr>jsuper := js, je_queue := ?je # tl (je_queue m)\<rparr>"
        using assms(1) r False a by (simp add: attempt_transaction_def ready_def front_def Let_def)
      with assms(2) none show ?thesis by (auto simp: minv_def flight_pins_def)
    next
      case 3
      then obtain w b m1 je' m2 where
        m1: "(if w then WriteJSuper env (popped js m) else Some (popped js m)) = Some m1"
        and acq: "AcquirePinnedMem (started b (jblocks_required ?je) ?je) m1 = Some (je', m2)"
        and p: "processJournalEntry env attempt je' m2 = Some m'"
        using assms(1) r False a unfolding popped_def
        by (auto simp: attempt_transaction_def ready_def front_def started_def Let_def
            bind_eq_Some_conv guard_eq_Some split del: if_split)
      have "minv env [] m1" using m1 pop minv_WriteJSuper by (auto split: if_splits)
      note q = minv_acquire [OF this acq]
      have "entered env (history m2) je'" using q(3) by (auto simp: entered_def started_def)
      with process_minv [OF p q(1)] show ?thesis .
    qed
  qed
qed

end

lemma tryNextTransaction_minv:
  assumes "tryNextTransaction env m = Some m'" "minv env [] m"
  shows "minv env [] m'"
proof -
  have "e = env \<longrightarrow> minv env [] m \<longrightarrow> minv env [] m'" if "tryNextTransaction e m = Some m'" for e m m'
    using _ that
  proof (rule tryNextTransaction.raw_induct [where P = "\<lambda>e m m'. e = env \<longrightarrow> minv env [] m \<longrightarrow> minv env [] m'"])
    fix f e m m'
    assume IH: "\<And>e m m'. f e m = Some m' \<Longrightarrow> e = env \<longrightarrow> minv env [] m \<longrightarrow> minv env [] m'"
      and step: "attempt_transaction e (f e) m = Some m'"
    have "next_attempt env (f env)" by unfold_locales (use IH in blast)
    with step show "e = env \<longrightarrow> minv env [] m \<longrightarrow> minv env [] m'"
      using next_attempt.attempt_minv by blast
  qed
  with assms show ?thesis by blast
qed

interpretation attempt: next_attempt env "tryNextTransaction env" for env
  by unfold_locales (rule tryNextTransaction_minv)

lemma resume_loop_minv:
  assumes "resume_loop env m = Some m'" "minv env [] m"
  shows "minv env [] m'"
proof -
  have "e = env \<longrightarrow> minv env [] m \<longrightarrow> minv env [] m'" if "resume_loop e m = Some m'" for e m m'
    using _ that
    by (rule resume_loop.raw_induct [where P = "\<lambda>e m m'. e = env \<longrightarrow> minv env [] m \<longrightarrow> minv env [] m'"])
       ((auto split: if_splits bind_splits), use tryNextTransaction_minv in blast)
  with assms show ?thesis by blast
qed

lemma jsuper_write_complete_minv:
  assumes "jsuper_write_complete env err old m = Some m'" "minv env [] m"
  shows "minv env [] m'"
proof -
  obtain js m2 where o: "\<not> err" "OnWriteComplete old (jsuper m) = Some js"
    "resume_loop env (m\<lparr>jsuper := js\<rparr>) = Some m2" "m2 = m' \<or> WriteJSuper env m2 = Some m'"
    using assms(1) by (auto simp: jsuper_write_complete_def Let_def split: if_splits bind_splits)
  have "minv env [] (m\<lparr>jsuper := js\<rparr>)" by (rule minv_cong [OF assms(2)]) simp_all
  from resume_loop_minv [OF o(3) this] o(4) minv_WriteJSuper show ?thesis by blast
qed

lemma writeComplete_minv:
  assumes "writeComplete env err je m = Some m'" "minv env (entry_pins je) m"
    "last (history m) = Completed c err" "history m \<noteq> []" "cmd_entry c = Some je" "pinned_mem je \<noteq> None"
    "je_state je = (case c of BodyWrite _ _ \<Rightarrow> WRITE_BODY | FlushCmd _ \<Rightarrow> FLUSH | _ \<Rightarrow> WRITE_COMMIT)"
  shows "minv env [] m'"
proof -
  obtain st where p: "processJournalEntry env (tryNextTransaction env) (je\<lparr>je_state := st\<rparr>) m = Some m'"
    and e: "entered env (history m) (je\<lparr>je_state := st\<rparr>)"
  proof (cases err)
    case True
    with assms that [of FAILURE] show ?thesis by (simp add: writeComplete_def entered_def)
  next
    case False
    with assms that [of "case c of BodyWrite _ _ \<Rightarrow> FLUSH | FlushCmd _ \<Rightarrow> WRITE_COMMIT | _ \<Rightarrow> SUCCESS"]
    show ?thesis by (cases c) (simp_all add: writeComplete_def entered_def ok_before_def)
  qed
  show ?thesis by (rule attempt.process_minv [OF p _ e]) (use assms(2) in \<open>simp add: entry_pins_def\<close>)
qed

text \<open>A command in flight was submitted, so its entry is in the state of that command.\<close>

lemma submitted_state:
  "history_ok env h \<Longrightarrow> c \<in> set (submitted h) \<Longrightarrow> cmd_entry c = Some je \<Longrightarrow>
   je_state je = (case c of BodyWrite _ _ \<Rightarrow> WRITE_BODY | FlushCmd _ \<Rightarrow> FLUSH | _ \<Rightarrow> WRITE_COMMIT)"
proof (induction h rule: rev_induct)
  case (snoc e h)
  show ?case
  proof (cases "c \<in> set (submitted h)")
    case True
    with snoc show ?thesis by simp
  next
    case False
    with snoc.prems have "e = Submitted c" by (cases e) auto
    with snoc.prems show ?thesis by (cases c) (auto split: option.splits dev_cmd.splits)
  qed
qed simp

lemma mset_remove_nth:
  "i < length xs \<Longrightarrow> mset xs = add_mset (xs ! i) (mset (take i xs @ drop (Suc i) xs))"
  by (metis add_mset_add_single id_take_nth_drop mset.simps(2) mset_append union_mset_add_mset_right)

lemma complete_cmd_minv:
  assumes "complete_cmd env i err m = Some m'" "minv env [] m"
  shows "minv env [] m'"
proof -
  let ?c = "in_flight_cmds m ! i"
  let ?rest = "take i (in_flight_cmds m) @ drop (Suc i) (in_flight_cmds m)"
  let ?m = "m\<lparr>in_flight_cmds := ?rest, history := history m @ [Completed ?c err]\<rparr>"
  have i: "i < length (in_flight_cmds m)" using assms(1) by (auto simp: complete_cmd_def split: if_splits)
  note rm = mset_remove_nth [OF i]
  have mem: "?c \<in> set (in_flight_cmds m)" using i by simp
  then have sub: "?c \<in> set (submitted (history m))"
    using assms(2) by (auto simp: minv_def dest: arg_cong [where f = set_mset])
  have cnt: "count_list (completed (history m)) ?c < count_list (submitted (history m)) ?c"
    using assms(2) mem unfolding minv_def count_mset [symmetric] by (auto simp: not_in_iff)
  have pins: "mset (flight_pins m) = mset (flight_pins ?m) + mset (cmd_pins ?c)"
    using arg_cong [OF rm, of "\<lambda>M. \<Sum>\<^sub># (image_mset (mset \<circ> cmd_pins) M)"]
    by (simp add: flight_pins_def mset_concat comp_def ac_simps flip: sum_mset_sum_list)
  have rest: "set ?rest \<subseteq> set (in_flight_cmds m)"
    by (auto dest: in_set_takeD in_set_dropD)
  have inv: "minv env (cmd_pins ?c) ?m"
    using assms(2) cnt pins rm rest unfolding minv_def by (auto simp: ac_simps)
  have st: "je_state je = (case ?c of BodyWrite _ _ \<Rightarrow> WRITE_BODY | FlushCmd _ \<Rightarrow> FLUSH | _ \<Rightarrow> WRITE_COMMIT)"
    "pinned_mem je \<noteq> None" "cmd_pins ?c = entry_pins je" if "cmd_entry ?c = Some je" for je
    using submitted_state [OF _ sub that] assms(2) mem that by (auto simp: minv_def cmd_pins_def)
  show ?thesis
  proof (cases "cmd_entry ?c")
    case None
    then show ?thesis
      using assms(1) i inv by (cases ?c) (auto simp: complete_cmd_def cmd_pins_def intro: jsuper_write_complete_minv)
  next
    case (Some je)
    then have "writeComplete env err je ?m = Some m'"
      using assms(1) i by (cases ?c) (auto simp: complete_cmd_def)
    then show ?thesis
      by (rule writeComplete_minv [where c = ?c]) (use inv Some st [OF Some] in simp_all)
  qed
qed

subsection \<open>Reachable managers\<close>

inductive mreach :: "Env \<Rightarrow> JMgr \<Rightarrow> bool" for env :: Env where
  boot: "JournalManager_new dj = Inr m \<Longrightarrow> mreach env m"
| submit_entry: "mreach env m \<Longrightarrow> pinned_mem je = None \<Longrightarrow>
    submitJournalEntry env je m = Some (propose, m') \<Longrightarrow> mreach env m'"
| complete: "mreach env m \<Longrightarrow> complete_cmd env i err m = Some m' \<Longrightarrow> mreach env m'"
| prepare: "mreach env m \<Longrightarrow> prepareForCheckpointing a b wid minode_of m = Some (ci, m') \<Longrightarrow> mreach env m'"
| checkpointed: "mreach env m \<Longrightarrow> onCheckpointSuccess env now src m = Some m' \<Longrightarrow> mreach env m'"
| not_checkpointed: "mreach env m \<Longrightarrow> onCheckpointFailure ci m = Some m' \<Longrightarrow> mreach env m'"
| register_bitmaps: "mreach env m \<Longrightarrow> mreach env (registerBitmapsWithDeallocations bmaps m)"
| copy_data_bitmap: "mreach env m \<Longrightarrow> CopyBufToStableDataBitmap bno buf m = Some m' \<Longrightarrow> mreach env m'"
| copy_inode_bitmap: "mreach env m \<Longrightarrow> CopyBufToStableInodeBitmap bno buf m = Some m' \<Longrightarrow> mreach env m'"

lemma boot_minv: "JournalManager_new dj = Inr m \<Longrightarrow> minv env [] m"
  by (auto simp: JournalManager_new_def minv_def flight_pins_def split: if_splits)

lemma submitJournalEntry_minv:
  assumes "submitJournalEntry env je m = Some (propose, m')" "minv env [] m" "pinned_mem je = None"
  shows "minv env [] m'"
proof -
  have "minv env [] (m\<lparr>je_queue := je_queue m @ [je]\<rparr>)"
    using assms(2,3) by (auto simp: minv_def flight_pins_def)
  moreover have "tryNextTransaction env (m\<lparr>je_queue := je_queue m @ [je]\<rparr>) = Some m'"
    using assms(1) by (auto simp: submitJournalEntry_def split: bind_splits)
  ultimately show ?thesis by (rule tryNextTransaction_minv [rotated])
qed

lemma checkpoint_success_minv:
  assumes "onCheckpointSuccess env now src m = Some m'" "minv env [] m"
  shows "minv env [] m'"
proof -
  obtain js m1 where "WriteJSuper env (m\<lparr>jsuper := js\<rparr>) = Some m1"
    and m': "m' = m1\<lparr>checkpointInProgress := False,
      immutableBlockBitmaps := bmapsToLockAfterCheckpointCompletes m1,
      bmapsToLockAfterCheckpointCompletes := []\<rparr>"
    using assms(1) by (auto simp: onCheckpointSuccess_def split: bind_splits)
  moreover have "minv env [] (m\<lparr>jsuper := js\<rparr>)" by (rule minv_cong [OF assms(2)]) simp_all
  ultimately have "minv env [] m1" using minv_WriteJSuper by blast
  then show ?thesis by (rule minv_cong) (simp_all add: m')
qed

lemma bookkeeping_minv:
  "minv env [] m \<Longrightarrow> prepareForCheckpointing a b wid minode_of m = Some (ci, m') \<Longrightarrow> minv env [] m'"
  "minv env [] m \<Longrightarrow> onCheckpointFailure ci m = Some m' \<Longrightarrow> minv env [] m'"
  "minv env [] m \<Longrightarrow> minv env [] (registerBitmapsWithDeallocations bmaps m)"
  "minv env [] m \<Longrightarrow> CopyBufToStableDataBitmap bno buf m = Some m' \<Longrightarrow> minv env [] m'"
  "minv env [] m \<Longrightarrow> CopyBufToStableInodeBitmap bno buf m = Some m' \<Longrightarrow> minv env [] m'"
  by (erule minv_cong;
      auto simp: prepareForCheckpointing_def onCheckpointFailure_def registerBitmapsWithDeallocations_def
        CopyBufToStableDataBitmap_def CopyBufToStableInodeBitmap_def Let_def
        split: if_splits bind_splits)+

lemma mreach_minv: "mreach env m \<Longrightarrow> minv env [] m"
  by (induction rule: mreach.induct)
     (auto intro: boot_minv submitJournalEntry_minv complete_cmd_minv checkpoint_success_minv bookkeeping_minv)

text \<open>C1: Write ordering of the journal. In every state a journal manager can reach, with
  completions in any order and failing at any point, the history of device commands is well
  ordered: the commit block of an entry is submitted only as the direct reaction to the
  successful completion of that entry's flush (of its body, where the device has no flush), the
  flush only as the reaction to the successful write of the body, and the submitter is told of
  success only as the reaction to the successful completion of the commit block. Every
  completion answers one submission, and the commands submitted and not completed are those in
  flight.\<close>

theorem journal_write_ordering:
  assumes "mreach env m"
  shows "history_ok env (history m) \<and>
    mset (submitted (history m)) = mset (completed (history m)) + mset (in_flight_cmds m)"
  using mreach_minv [OF assms] by (simp add: minv_def)

text \<open>C8: Pinned buffers are never shared and never lost. In every reachable state the free
  buffers and the buffers of the entries in flight are together exactly the buffers the manager
  was created with, each once; so two transactions in flight never write from the same memory.\<close>

theorem pinned_buffers_exclusive:
  assumes "mreach env m"
  shows "distinct (pinned_mem_queue m @ flight_pins m) \<and>
    set (pinned_mem_queue m @ flight_pins m) = {0..<kMaxInFlight} \<and>
    length (pinned_mem_queue m) + length (flight_pins m) = kMaxInFlight"
proof -
  have eq: "mset (pinned_mem_queue m @ flight_pins m) = mset [0..<kMaxInFlight]"
    using mreach_minv [OF assms] by (simp add: minv_def)
  from mset_eq_setD [OF eq] mset_eq_length [OF eq] mset_eq_imp_distinct_iff [OF eq] show ?thesis
    by simp
qed

subsection \<open>A manager with an entry in flight\<close>

definition demo_started :: JournalEntry where
  "demo_started = demo_entry\<lparr>start_block := 1000, nblocks := 2, je_state := WRITE_BODY,
     pinned_mem := Some 0, ustime_serialized := 1000\<rparr>"

definition demo_body :: bytes where
  "demo_body = fst (serializeBody (\<lambda>_. (0, 0, 0)) 1000 demo_started)"

lemma demo_submit:
  "\<exists>m. submitJournalEntry demo_env demo_entry demo_mgr = Some (False, m) \<and>
     history m = [Submitted (BodyWrite demo_started demo_body)] \<and>
     in_flight_cmds m = [BodyWrite demo_started demo_body] \<and> pinned_mem_queue m = [1..<kMaxInFlight]"
proof -
  let ?m = "demo_mgr\<lparr>je_queue := [demo_entry]\<rparr>"
  have req: "jblocks_required (front ?m) = 2"
    by (simp add: jblocks_required_def front_def demo_entry_size BSIZE_def)
  have len: "length demo_body = 219"
    by (simp add: demo_body_def serializeBody_length demo_started_def demo_entry_size)
  have pins: "[0..<kMaxInFlight] = 0 # [1..<kMaxInFlight]" by (simp add: kMaxInFlight_def upt_conv_Cons)
  note acq = AcquireNextNSlots_def UnsafeCanAllocateNSlots_def JSuper_of_def
    demo_journal_def UnsafeShouldWaitTillJSuperWritten_def UnsafeNItemsEnqueued_def
    UnsafeEnsureNextContiguousRegion_def IdxToBlockNo_def
  have "\<exists>slot js. AcquireNextNSlots 2 (jsuper ?m) = Some (slot, js) \<and> \<not> no_space slot \<and>
    \<not> retry_after_jsuper_written slot \<and> start_idx slot = Some 0 \<and> write_jsuper slot = Some False \<and>
    djsuper js = demo_journal\<lparr>n_used := 2, head := 2\<rparr>"
    by (simp add: acq demo_mgr_def Let_def UnsafeShouldWriteJSuper_def)
  then obtain slot js where a: "AcquireNextNSlots 2 (jsuper ?m) = Some (slot, js)" "\<not> no_space slot"
    "\<not> retry_after_jsuper_written slot" "start_idx slot = Some 0" "write_jsuper slot = Some False"
    and js: "djsuper js = demo_journal\<lparr>n_used := 2, head := 2\<rparr>"
    by blast
  have "tryNextTransaction demo_env ?m = do {
      (je', m2) \<leftarrow> AcquirePinnedMem (started 1000 2 (front ?m)) (popped js ?m);
      processJournalEntry demo_env (tryNextTransaction demo_env) je' m2 }"
    using try_go [of ?m slot js 0 False demo_env "popped js ?m" 1000] a req pins js
    by (simp add: ready_def demo_mgr_def popped_def NoLoopArounds_def IdxToBlockNo_def demo_journal_def)
  moreover have "serializeBody (\<lambda>_. (0, 0, 0)) 1000
      (started 1000 2 (front ?m)\<lparr>pinned_mem := Some 0\<rparr>) = (demo_body, demo_started)"
    by (simp add: demo_body_def demo_started_def started_def front_def serializeBody_def Let_def)
  ultimately show ?thesis
    using pins len
    by (simp add: submitJournalEntry_def AcquirePinnedMem_def popped_def demo_mgr_def started_def front_def
        processJournalEntry_def demo_env_def submit_def Let_def Size_def Capacity_def js demo_journal_def
        kMaxJournalBodySize_def MAX_JOURNAL_ENTRY_SIZE_def BSIZE_def)
       (simp add: demo_entry_def JournalEntry_new_def)
qed

lemma demo_reach: "mreach demo_env demo_mgr"
  by (rule mreach.boot [OF demo_mgr_new])

theorem journal_write_ordering_witness:
  "\<exists>m :: JMgr. history m = [Submitted (BodyWrite demo_started demo_body)] \<and>
     history_ok demo_env (history m) \<and>
     mset (submitted (history m)) = mset (completed (history m)) + mset (in_flight_cmds m)"
proof -
  obtain m where m: "submitJournalEntry demo_env demo_entry demo_mgr = Some (False, m)"
    "history m = [Submitted (BodyWrite demo_started demo_body)]" using demo_submit by blast
  have "mreach demo_env m"
    by (rule mreach.submit_entry [OF demo_reach _ m(1)]) (simp add: demo_entry_def JournalEntry_new_def)
  from journal_write_ordering [OF this] m(2) show ?thesis by blast
qed

theorem pinned_buffers_exclusive_witness:
  "\<exists>m :: JMgr. in_flight_cmds m = [BodyWrite demo_started demo_body] \<and>
     distinct (pinned_mem_queue m @ flight_pins m) \<and>
     set (pinned_mem_queue m @ flight_pins m) = {0..<kMaxInFlight} \<and>
     length (pinned_mem_queue m) + length (flight_pins m) = kMaxInFlight"
proof -
  obtain m where m: "submitJournalEntry demo_env demo_entry demo_mgr = Some (False, m)"
    "in_flight_cmds m = [BodyWrite demo_started demo_body]" using demo_submit by blast
  have "mreach demo_env m"
    by (rule mreach.submit_entry [OF demo_reach _ m(1)]) (simp add: demo_entry_def JournalEntry_new_def)
  from pinned_buffers_exclusive [OF this] m(2) show ?thesis by blast
qed

subsection \<open>An entry in flight during a checkpoint\<close>

text \<open>
  A worker whose only entry in flight is waiting for its commit block, and what the completion
  of that write does.
\<close>

definition committing :: "JournalEntry \<Rightarrow> bytes \<Rightarrow> JMgr \<Rightarrow> bool" where
  "committing je blk m \<longleftrightarrow> in_flight_cmds m = [CommitWrite je blk] \<and> je_state je = WRITE_COMMIT \<and>
     je_queue m = [] \<and> length (pinned_mem_queue m) < kMaxInFlight"

lemma commit_completes:
  assumes "committing je blk m"
    "journal_write_all (ile_vec je) (checkpointInput m, je\<lparr>je_state := SUCCESS\<rparr>) = Some (iles, ci, je1)"
  shows "\<exists>m' je'. complete_cmd env 0 False m = Some m' \<and> last (history m') = Notified je' True \<and>
    je_id je' = je_id je \<and> start_block je' = start_block je \<and> jsuper m' = jsuper m"
proof -
  let ?m = "m\<lparr>in_flight_cmds := [], history := history m @ [Completed (CommitWrite je blk) False]\<rparr>"
  have pl: "same_place je1 (je\<lparr>je_state := SUCCESS\<rparr>)" by (rule journal_write_all_place [OF assms(2)])
  have "\<exists>je2 m2. ReleasePinnedMem (je1\<lparr>ile_vec := iles\<rparr>) (?m\<lparr>checkpointInput := ci\<rparr>) = Some (je2, m2) \<and>
      je_id je2 = je_id je1 \<and> start_block je2 = start_block je1 \<and> jsuper m2 = jsuper m \<and> je_queue m2 = []"
    using assms(1) by (auto simp: committing_def ReleasePinnedMem_def split: option.splits)
  then obtain je2 m2 where r: "ReleasePinnedMem (je1\<lparr>ile_vec := iles\<rparr>) (?m\<lparr>checkpointInput := ci\<rparr>) = Some (je2, m2)"
    "je_id je2 = je_id je1" "start_block je2 = start_block je1" "jsuper m2 = jsuper m" "je_queue m2 = []"
    by blast
  have "complete_cmd env 0 False m = Some (callback je2 True m2)"
    using assms r(1,5)
    by (simp add: committing_def complete_cmd_def writeComplete_def processJournalEntry_def try_idle ready_def)
  with r pl show ?thesis by (auto simp: callback_def same_place_def)
qed

lemma success_returns:
  assumes "ReleaseFirstNSlots (ci_n_used src) (jsuper m) = Some js" "\<forall>n. accepts env n"
  shows "\<exists>m'. onCheckpointSuccess env now src m = Some m' \<and> n_used (djsuper (jsuper m')) = n_used (djsuper js)"
  using assms(1) WriteJSuper_returns [OF assms(2), of "m\<lparr>jsuper := SetLastCheckpoint now js\<rparr>"]
  by (auto simp: onCheckpointSuccess_def SetLastCheckpoint_def)

text \<open>C16: A checkpoint drops an acknowledged entry from the journal. Take a worker that has
  nothing to checkpoint and one entry waiting for its commit block when the checkpoint is
  prepared. The prepared input names no inode, but its count of journal blocks is the size of the
  whole ring, the blocks of that entry included. The entry then completes and its submitter is
  told of success; when the checkpoint completes, the ring is empty, so the acknowledged entry
  is neither in the journal nor written in place.\<close>

theorem checkpoint_drops_acknowledged:
  assumes "committing je blk m" "checkpointInput m = CheckpointInput_new" "wf_disk (djsuper (jsuper m))"
    "journal_write_all (ile_vec je) (CheckpointInput_new, je\<lparr>je_state := SUCCESS\<rparr>) \<noteq> None"
    "\<forall>n. accepts env n"
  shows "\<exists>ci m1 m2 m3 je'. prepareForCheckpointing ok1 ok2 wid minode_of m = Some (Some ci, m1) \<and>
    checkpoint_sectors ci = [] \<and> complete_cmd env 0 False m1 = Some m2 \<and>
    last (history m2) = Notified je' True \<and> je_id je' = je_id je \<and>
    onCheckpointSuccess env now ci m2 = Some m3 \<and> used_slots (djsuper (jsuper m3)) = []"
proof -
  let ?ci = "CheckpointInput_new\<lparr>ci_n_used := Size (jsuper m)\<rparr>"
  let ?m1 = "m\<lparr>checkpointInput := CheckpointInput_new, checkpointInProgress := True\<rparr>"
  have prep: "prepareForCheckpointing ok1 ok2 wid minode_of m = Some (Some ?ci, ?m1)"
    using assms(2) by (simp add: prepareForCheckpointing_def populateCheckpointInput_def CheckpointInput_new_def Let_def)
  have "committing je blk ?m1" using assms(1) by (simp add: committing_def)
  with assms(4) obtain m2 je' where m2: "complete_cmd env 0 False ?m1 = Some m2"
    "last (history m2) = Notified je' True" "je_id je' = je_id je" "jsuper m2 = jsuper m"
    using commit_completes [of je blk ?m1] by fastforce
  obtain d' where d': "UnsafeNItemsDequeued (Size (jsuper m)) (djsuper (jsuper m)) = Some d'" "unat (n_used d') = 0"
    using dequeued_wf [OF assms(3), of "Size (jsuper m)"] by auto
  then have "ReleaseFirstNSlots (ci_n_used ?ci) (jsuper m2)
      = Some ((jsuper m)\<lparr>djsuper := d', nblocks_unaccounted := nblocks_unaccounted (jsuper m) + Size (jsuper m)\<rparr>)"
    by (simp add: ReleaseFirstNSlots_def m2(4))
  from success_returns [OF this assms(5)] obtain m3 where
    "onCheckpointSuccess env now ?ci m2 = Some m3" "n_used (djsuper (jsuper m3)) = n_used d'"
    by auto
  with prep m2 d'(2) show ?thesis
    by (auto simp: checkpoint_sectors_def CheckpointInput_new_def used_slots_def slots_from_def)
qed

definition demo_committing :: JMgr where
  "demo_committing = demo_mgr\<lparr>jsuper := JSuper_of (demo_journal\<lparr>n_used := 2, head := 2\<rparr>),
     pinned_mem_queue := [1..<kMaxInFlight],
     in_flight_cmds := [CommitWrite (demo_started\<lparr>je_state := WRITE_COMMIT\<rparr>) []]\<rparr>"

theorem checkpoint_drops_acknowledged_witness:
  "\<exists>ci m1 m2 m3 je'. prepareForCheckpointing True True 0 (\<lambda>_. None) demo_committing = Some (Some ci, m1) \<and>
    checkpoint_sectors ci = [] \<and> complete_cmd demo_env 0 False m1 = Some m2 \<and>
    last (history m2) = Notified je' True \<and> je_id je' = je_id (demo_started\<lparr>je_state := WRITE_COMMIT\<rparr>) \<and>
    onCheckpointSuccess demo_env 5 ci m2 = Some m3 \<and> used_slots (djsuper (jsuper m3)) = []"
proof (rule checkpoint_drops_acknowledged)
  show "committing (demo_started\<lparr>je_state := WRITE_COMMIT\<rparr>) [] demo_committing"
    by (simp add: committing_def demo_committing_def demo_mgr_def kMaxInFlight_def)
  show "journal_write_all (ile_vec (demo_started\<lparr>je_state := WRITE_COMMIT\<rparr>))
      (CheckpointInput_new, demo_started\<lparr>je_state := WRITE_COMMIT\<rparr>\<lparr>je_state := SUCCESS\<rparr>) \<noteq> None"
    by (simp add: demo_started_def demo_entry_def JournalEntry_new_def on_successful_journal_write_def
        applyChangesTo_def demo_ile_def demo_dinode_def apply_add_def put_extent_def current_extent_cases Let_def split_beta)
qed (simp_all add: demo_committing_def demo_mgr_def demo_env_def JSuper_of_def wf_disk_def demo_journal_def)

end
