(* ===== verification/Ufs_BlockBuffer.thy ===== *)
theory Ufs_BlockBuffer
  imports Ufs_Prelude "HOL-Library.Multiset"
begin

text \<open>
  The block cache (\<open>BlockBuffer.h\<close>, \<open>BlockBuffer.cc\<close>). Buffer items are heap objects that several
  caches share (an inode that migrates to another worker takes its items along), so a state is a
  heap of items and a cache. The cache is a list in order of use, most recent first, a map from
  block numbers to iterators into that list, a free list, and two maps from indexes (inode
  numbers, 0 for none) to sets of items: all items of the index and its dirty ones.

  An iterator of \<open>std::list\<close> is the identity of a list node; nodes get fresh numbers when they
  are created, and using an iterator whose node is gone is undefined (\<^const>\<open>Abort\<close>). The spin
  lock makes every operation one step. The threshold of the background flush compares floating
  point numbers and is the parameter \<open>over\<close>; \<open>now\<close> is the result of \<open>tap_ustime\<close>.
\<close>

subsection \<open>State\<close>

datatype BlockBufferStatus = BLOCK_BUF_NONE | BLOCK_BUF_VALID | BLOCK_BUF_LOCKED

record BlockBufferItem =
  dataPtr :: nat
  idx :: u32
  blockSize :: int
  blockNo :: u32
  itemIndex :: u32
  isDirty :: bool
  inMem :: bool
  status :: BlockBufferStatus
  lastFlushBlockReqSeqNo :: u64

type_synonym item = nat
type_synonym node = nat
type_synonym heap = "item \<Rightarrow> BlockBufferItem"

record BlockBuffer =
  blockNum :: u32
  reportStat :: bool
  totalReqNumWithinInterval :: u64
  totalHitNumWithinInterval :: u64
  totalFlushSubmitWithinInterval :: u64
  lastStatReportTime :: u64
  cache_items_list :: "(node \<times> u32 \<times> item) list"
  cache_items_map :: "(u32, node) umap"
  next_node :: node
  freeItems :: "item list"
  dirtyItemNum :: int
  blockIndexMap :: "(u32, item uset) umap"
  dirtyIndexMap :: "(u32, item uset) umap"
  dirtyFlushOneTimeSubmitNum :: u32
  bgFlushSent :: bool
  numFgFlushInflight :: int
  numFgFlushInflightLimit :: int
  waitForFlushIndexes :: "u32 uset"

subsection \<open>Items\<close>

definition setDirty :: "bool \<Rightarrow> BlockBufferItem \<Rightarrow> bool \<times> BlockBufferItem" where
  "setDirty d it = (isDirty it, it\<lparr>isDirty := d\<rparr>)"

definition blockFetchedCallback :: "BlockBufferItem \<Rightarrow> bool \<times> BlockBufferItem" where
  "blockFetchedCallback it =
     (if status it \<noteq> BLOCK_BUF_LOCKED then (False, it)
      else (True, it\<lparr>inMem := True, status := BLOCK_BUF_VALID\<rparr>))"

definition blockWritenCallback :: "u64 \<Rightarrow> BlockBufferItem \<Rightarrow> bool \<times> BlockBufferItem" where
  "blockWritenCallback seqNo it =
     (if lastFlushBlockReqSeqNo it \<noteq> seqNo then (False, it) else (True, snd (setDirty False it)))"

definition setLastFlushBlockReqSeqNo :: "u64 \<Rightarrow> BlockBufferItem \<Rightarrow> bool \<times> BlockBufferItem" where
  "setLastFlushBlockReqSeqNo seqno it =
     (if seqno > lastFlushBlockReqSeqNo it then (True, it\<lparr>lastFlushBlockReqSeqNo := seqno\<rparr>)
      else (False, it))"

text \<open>The constructor leaves the block number unset; \<open>junk\<close> is what the memory holds.\<close>

definition BlockBufferItem_new :: "nat \<Rightarrow> u32 \<Rightarrow> int \<Rightarrow> u32 \<Rightarrow> BlockBufferItem" where
  "BlockBufferItem_new ptr i sz junk = \<lparr>dataPtr = ptr, idx = i, blockSize = sz, blockNo = junk,
     itemIndex = 0, isDirty = False, inMem = False, status = BLOCK_BUF_NONE,
     lastFlushBlockReqSeqNo = 0\<rparr>"

subsection \<open>Index maps and list nodes\<close>

text \<open>\<open>operator[]\<close> of a map of sets: a missing key gets an empty set first.\<close>

definition at_key :: "u32 \<Rightarrow> (u32, item uset) umap \<Rightarrow> item uset" where
  "at_key k m = (case map_of m k of None \<Rightarrow> [] | Some s \<Rightarrow> s)"

definition set_erase :: "u32 \<Rightarrow> item \<Rightarrow> (u32, item uset) umap \<Rightarrow> (u32, item uset) umap" where
  "set_erase k i m = AList.update k (removeAll i (at_key k m)) m"

definition set_emplace :: "u32 \<Rightarrow> item \<Rightarrow> (u32, item uset) umap \<Rightarrow> (u32, item uset) umap" where
  "set_emplace k i m = AList.update k (List.insert i (at_key k m)) m"

definition node_at :: "node \<Rightarrow> BlockBuffer \<Rightarrow> (u32 \<times> item) option" where
  "node_at n b = map_of (cache_items_list b) n"

definition push_front :: "u32 \<Rightarrow> item \<Rightarrow> BlockBuffer \<Rightarrow> BlockBuffer" where
  "push_front bno i b = b\<lparr>cache_items_list := (next_node b, bno, i) # cache_items_list b,
     next_node := next_node b + 1\<rparr>"

definition push_back :: "u32 \<Rightarrow> item \<Rightarrow> BlockBuffer \<Rightarrow> BlockBuffer" where
  "push_back bno i b = b\<lparr>cache_items_list := cache_items_list b @ [(next_node b, bno, i)],
     next_node := next_node b + 1\<rparr>"

definition erase_node :: "node \<Rightarrow> BlockBuffer \<Rightarrow> BlockBuffer res" where
  "erase_node n b =
     (if node_at n b = None then Inl Abort
      else Inr (b\<lparr>cache_items_list := filter (\<lambda>e. fst e \<noteq> n) (cache_items_list b)\<rparr>))"

definition splice_front :: "node \<Rightarrow> BlockBuffer \<Rightarrow> BlockBuffer" where
  "splice_front n b = b\<lparr>cache_items_list :=
     filter (\<lambda>e. fst e = n) (cache_items_list b) @ filter (\<lambda>e. fst e \<noteq> n) (cache_items_list b)\<rparr>"

text \<open>Adding an integer to the message literal in the source only changes the message.\<close>

definition adjustDirtyItemNum :: "int \<Rightarrow> BlockBuffer \<Rightarrow> BlockBuffer res" where
  "adjustDirtyItemNum delta b =
     (if dirtyItemNum b + delta < 0 then Inl (Throw ''dirtyItemNum < 0'')
      else Inr (b\<lparr>dirtyItemNum := dirtyItemNum b + delta\<rparr>))"

subsection \<open>Getting a block\<close>

text \<open>
  \<open>initMem\<close> of the constructors: the items of a new cache are the heap objects from \<open>base\<close> on.
\<close>

definition initMem :: "item \<Rightarrow> (nat \<Rightarrow> u32) \<Rightarrow> u32 \<Rightarrow> int \<Rightarrow> nat \<Rightarrow> heap \<Rightarrow> heap \<times> item list" where
  "initMem base junk num sz mem h =
     (fold (\<lambda>i h. h(base + i := BlockBufferItem_new (mem + i * nat sz) (of_nat i) sz (junk i))) [0..<unat num] h,
      map (\<lambda>i. base + i) [0..<unat num])"

definition BlockBuffer_new ::
    "item \<Rightarrow> (nat \<Rightarrow> u32) \<Rightarrow> u32 \<Rightarrow> int \<Rightarrow> nat \<Rightarrow> bool \<Rightarrow> u64 \<Rightarrow> heap \<Rightarrow> heap \<times> BlockBuffer" where
  "BlockBuffer_new base junk num sz mem report now h =
     (case initMem base junk num sz mem h of (h', items) \<Rightarrow>
        (h', \<lparr>blockNum = num, reportStat = report, totalReqNumWithinInterval = 0,
          totalHitNumWithinInterval = 0, totalFlushSubmitWithinInterval = 0, lastStatReportTime = now,
          cache_items_list = [], cache_items_map = [], next_node = 0, freeItems = items,
          dirtyItemNum = 0, blockIndexMap = [], dirtyIndexMap = [], dirtyFlushOneTimeSubmitNum = 0,
          bgFlushSent = False, numFgFlushInflight = 0, numFgFlushInflightLimit = 10,
          waitForFlushIndexes = []\<rparr>))"

definition reportStats :: "u64 \<Rightarrow> BlockBuffer \<Rightarrow> BlockBuffer" where
  "reportStats now b = b\<lparr>lastStatReportTime := now, totalHitNumWithinInterval := 0,
     totalFlushSubmitWithinInterval := 0, totalReqNumWithinInterval := 0\<rparr>"

definition count_request :: "u64 \<Rightarrow> BlockBuffer \<Rightarrow> BlockBuffer" where
  "count_request now b =
     (if reportStat b
      then let b' = (if totalReqNumWithinInterval b \<ge> 200000 then reportStats now b else b)
           in b'\<lparr>totalReqNumWithinInterval := totalReqNumWithinInterval b' + 1\<rparr>
      else b)"

definition count_hit :: "BlockBuffer \<Rightarrow> BlockBuffer" where
  "count_hit b =
     (if reportStat b then b\<lparr>totalHitNumWithinInterval := totalHitNumWithinInterval b + 1\<rparr> else b)"

text \<open>
  The replacement loop, from the least recently used node on: the first item that is neither
  locked nor dirty, and whether a locked dirty item was seen before.
\<close>

fun find_victim :: "heap \<Rightarrow> (node \<times> u32 \<times> item) list \<Rightarrow> bool \<Rightarrow> (node \<times> item) option \<times> bool" where
  "find_victim h [] hasDirty = (None, hasDirty)"
| "find_victim h ((n, bno, i) # es) hasDirty =
     (if status (h i) \<noteq> BLOCK_BUF_LOCKED
      then if \<not> isDirty (h i) then (Some (n, i), hasDirty) else find_victim h es hasDirty
      else find_victim h es (hasDirty \<or> isDirty (h i)))"

text \<open>The common end of \<open>getBlock\<close> when the caller gets the lock.\<close>

definition grab :: "u32 \<Rightarrow> u32 \<Rightarrow> item \<Rightarrow> heap \<times> BlockBuffer \<Rightarrow> heap \<times> BlockBuffer" where
  "grab bno new_index i = (\<lambda>(h, b).
     let orig_index = itemIndex (h i);
         m = (if orig_index = new_index then blockIndexMap b
              else let m1 = (if orig_index \<noteq> 0 then set_erase orig_index i (blockIndexMap b)
                             else blockIndexMap b)
                   in if new_index \<noteq> 0 then set_emplace new_index i m1 else m1)
     in (h(i := (h i)\<lparr>blockNo := bno, status := BLOCK_BUF_LOCKED, itemIndex := new_index\<rparr>),
         b\<lparr>cache_items_map := AList.update bno (fst (hd (cache_items_list b))) (cache_items_map b),
           blockIndexMap := m\<rparr>))"

definition miss :: "item \<Rightarrow> heap \<Rightarrow> heap" where
  "miss i h = h(i := (h i)\<lparr>inMem := False\<rparr>)"

text \<open>
  The result: the item (\<^const>\<open>None\<close> for the null pointer), \<open>lockGrabbed\<close> (1 yes, 0 no, -1
  default) and \<open>hasDirty\<close>.
\<close>

definition getBlock ::
    "u64 \<Rightarrow> u32 \<Rightarrow> u32 \<Rightarrow> heap \<times> BlockBuffer \<Rightarrow> ((item option \<times> int \<times> bool) \<times> heap \<times> BlockBuffer) res" where
  "getBlock now bno new_index = (\<lambda>(h, b0).
     let b = count_request now b0 in
     case map_of (cache_items_map b) bno of
       Some n \<Rightarrow>
         (case node_at n b of
            None \<Rightarrow> Inl Abort
          | Some (_, i) \<Rightarrow>
              if status (h i) = BLOCK_BUF_LOCKED then Inr ((Some i, 0, False), h, count_hit b)
              else Inr ((Some i, 1, False), grab bno new_index i (h, count_hit (splice_front n b))))
     | None \<Rightarrow>
         (case freeItems b of
            i # is \<Rightarrow>
              Inr ((Some i, 1, False),
                   grab bno new_index i (miss i h, push_front bno i (b\<lparr>freeItems := is\<rparr>)))
          | [] \<Rightarrow>
              if cache_items_list b = [] then Inr ((None, -1, False), h, b)
              else case find_victim h (rev (cache_items_list b)) False of
                (None, _) \<Rightarrow> Inl (Throw ''LRU buffer all dirty'')
              | (Some (n, i), hasDirty) \<Rightarrow>
                  res_bind (erase_node n (b\<lparr>cache_items_map := AList.delete (blockNo (h i)) (cache_items_map b)\<rparr>))
                    (\<lambda>b'. Inr ((Some i, 1, hasDirty),
                                grab bno new_index i (miss i h, push_front bno i b')))))"

definition getBlockWithoutAccess :: "u32 \<Rightarrow> BlockBuffer \<Rightarrow> item option res" where
  "getBlockWithoutAccess bno b =
     (case map_of (cache_items_map b) bno of
        None \<Rightarrow> Inr None
      | Some n \<Rightarrow> (case node_at n b of None \<Rightarrow> Inl Abort | Some (_, i) \<Rightarrow> Inr (Some i)))"

definition releaseBlock :: "item \<Rightarrow> heap \<Rightarrow> int \<times> heap" where
  "releaseBlock i h =
     (if status (h i) \<noteq> BLOCK_BUF_LOCKED then (-1, h)
      else (1, h(i := (h i)\<lparr>status := BLOCK_BUF_VALID\<rparr>)))"

definition releaseBlockNo :: "u32 \<Rightarrow> heap \<times> BlockBuffer \<Rightarrow> (int \<times> heap) res" where
  "releaseBlockNo bno = (\<lambda>(h, b).
     res_bind (getBlockWithoutAccess bno b) (\<lambda>r.
       case r of
         None \<Rightarrow> Inr (-1, h)
       | Some i \<Rightarrow> if status (h i) = BLOCK_BUF_LOCKED
                   then Inr (1, h(i := (h i)\<lparr>status := BLOCK_BUF_VALID\<rparr>)) else Inr (-1, h)))"

subsection \<open>Dirty items\<close>

definition setItemDirty ::
    "item \<Rightarrow> bool \<Rightarrow> u32 \<Rightarrow> heap \<times> BlockBuffer \<Rightarrow> (bool \<times> heap \<times> BlockBuffer) res" where
  "setItemDirty i d index = (\<lambda>(h, b).
     let orig = isDirty (h i);
         h' = h(i := snd (setDirty d (h i)))
     in if orig = d then Inr (orig, h', b)
        else if orig
        then res_bind (adjustDirtyItemNum (-1) b) (\<lambda>b'.
               Inr (orig, h', b'\<lparr>dirtyIndexMap := set_erase index i (dirtyIndexMap b')\<rparr>))
        else res_bind (adjustDirtyItemNum 1 b) (\<lambda>b'.
               Inr (orig, h', b'\<lparr>dirtyIndexMap := set_emplace index i (dirtyIndexMap b')\<rparr>)))"

text \<open>One item of the loop in \<open>releaseUnlinkedInodeDirtyBlocks\<close>; \<open>n\<close> counts the dirty ones.\<close>

definition unlink_item ::
    "item \<Rightarrow> int \<times> heap \<times> BlockBuffer \<Rightarrow> (int \<times> heap \<times> BlockBuffer) res" where
  "unlink_item i = (\<lambda>(n, h, b).
     let orig = isDirty (h i);
         h' = h(i := snd (setDirty False (h i)))
     in res_bind (if orig then adjustDirtyItemNum (-1) b else Inr b) (\<lambda>b1.
          case map_of (cache_items_map b1) (blockNo (h' i)) of
            None \<Rightarrow> Inl Abort
          | Some nd \<Rightarrow>
              res_bind (erase_node nd b1) (\<lambda>b2.
                Inr (if orig then n + 1 else n, h',
                     b2\<lparr>cache_items_map := AList.delete (blockNo (h' i)) (cache_items_map b2),
                        freeItems := freeItems b2 @ [i]\<rparr>))))"

definition releaseUnlinkedInodeDirtyBlocks :: "u32 \<Rightarrow> heap \<times> BlockBuffer \<Rightarrow> (heap \<times> BlockBuffer) res" where
  "releaseUnlinkedInodeDirtyBlocks index = (\<lambda>(h, b).
     if \<not> index > 1 then Inl Abort
     else let num_dirty = int (length (at_key index (dirtyIndexMap b)))
          in res_bind (fold_res unlink_item (at_key index (blockIndexMap b)) (0, h, b)) (\<lambda>(num_actual, h', b').
               if num_dirty \<noteq> num_actual then Inl Abort
               else Inr (h', b'\<lparr>blockIndexMap := AList.delete index (blockIndexMap b'),
                               dirtyIndexMap := (if num_dirty > 0 then AList.delete index (dirtyIndexMap b')
                                                 else dirtyIndexMap b')\<rparr>)))"

subsection \<open>Flushing\<close>

definition checkIfNeedBgFlush :: "(int \<Rightarrow> u32 \<Rightarrow> bool) \<Rightarrow> BlockBuffer \<Rightarrow> bool" where
  "checkIfNeedBgFlush over b =
     (if bgFlushSent b then False
      else if numFgFlushInflight b > 0 \<or> waitForFlushIndexes b \<noteq> [] then False
      else over (dirtyItemNum b) (blockNum b))"

definition addFgFlushWaitIndex :: "u32 \<Rightarrow> BlockBuffer \<Rightarrow> BlockBuffer" where
  "addFgFlushWaitIndex i b = b\<lparr>waitForFlushIndexes := List.insert i (waitForFlushIndexes b)\<rparr>"

definition removeFgFlushWaitIndex :: "u32 \<Rightarrow> BlockBuffer \<Rightarrow> BlockBuffer" where
  "removeFgFlushWaitIndex i b = b\<lparr>waitForFlushIndexes := removeAll i (waitForFlushIndexes b)\<rparr>"

definition addFgFlushInflightNum :: "int \<Rightarrow> BlockBuffer \<Rightarrow> BlockBuffer" where
  "addFgFlushInflightNum i b = b\<lparr>numFgFlushInflight := numFgFlushInflight b + i\<rparr>"

definition setIfBgFlushInflight :: "bool \<Rightarrow> BlockBuffer \<Rightarrow> BlockBuffer" where
  "setIfBgFlushInflight x b = b\<lparr>bgFlushSent := x\<rparr>"

definition setDirtyFlushOneTimeSubmitNum :: "u32 \<Rightarrow> BlockBuffer \<Rightarrow> BlockBuffer" where
  "setDirtyFlushOneTimeSubmitNum n b = b\<lparr>dirtyFlushOneTimeSubmitNum := n\<rparr>"

definition setFgFlushLimit :: "int \<Rightarrow> BlockBuffer \<Rightarrow> BlockBuffer" where
  "setFgFlushLimit l b = b\<lparr>numFgFlushInflightLimit := l\<rparr>"

text \<open>The two loops of \<open>doFlushByIndex\<close>: background flush with its limit, flush of one index.\<close>

fun flush_some :: "heap \<Rightarrow> u32 \<Rightarrow> item list \<Rightarrow> u32 \<Rightarrow> u32 list \<Rightarrow> u32 list res" where
  "flush_some h limit [] bnum acc = Inr acc"
| "flush_some h limit (i # is) bnum acc =
     (if \<not> isDirty (h i) then Inl Abort
      else if bnum + 1 \<ge> limit then Inr (acc @ [blockNo (h i)])
      else flush_some h limit is (bnum + 1) (acc @ [blockNo (h i)]))"

fun flush_all :: "heap \<Rightarrow> item list \<Rightarrow> u32 list \<Rightarrow> u32 list res" where
  "flush_all h [] acc = Inr acc"
| "flush_all h (i # is) acc =
     (if isDirty (h i) then flush_all h is (acc @ [blockNo (h i)])
      else Inl (Throw ''error flushByIndex, not dirty''))"

definition flush_noted :: "u32 \<Rightarrow> u32 list \<Rightarrow> BlockBuffer \<Rightarrow> BlockBuffer" where
  "flush_noted index blocks b =
     (let b1 = (if reportStat b
                then b\<lparr>totalFlushSubmitWithinInterval := totalFlushSubmitWithinInterval b + 1\<rparr> else b)
      in if index = 0 \<and> blocks \<noteq> [] then b1\<lparr>bgFlushSent := True\<rparr> else b1)"

text \<open>\<open>toFlush\<close> is the list the caller passes, to which block numbers are appended.\<close>

definition doFlushByIndex ::
    "u32 \<Rightarrow> u32 list \<Rightarrow> heap \<times> BlockBuffer \<Rightarrow> ((bool \<times> u32 list) \<times> BlockBuffer) res" where
  "doFlushByIndex index toFlush = (\<lambda>(h, b).
     if numFgFlushInflight b \<ge> numFgFlushInflightLimit b then Inr ((False, toFlush), b)
     else res_bind
       (if index = 0 then flush_some h (dirtyFlushOneTimeSubmitNum b) (concat (map snd (dirtyIndexMap b))) 0 toFlush
        else case map_of (dirtyIndexMap b) index of
               None \<Rightarrow> Inr toFlush
             | Some s \<Rightarrow> flush_all h s toFlush)
       (\<lambda>blocks. Inr ((True, blocks), flush_noted index blocks b)))"

definition doFlush :: "u32 list \<Rightarrow> heap \<times> BlockBuffer \<Rightarrow> ((bool \<times> u32 list) \<times> BlockBuffer) res" where
  "doFlush toFlush = doFlushByIndex 0 toFlush"

definition numDirtyByIndex :: "u32 \<Rightarrow> BlockBuffer \<Rightarrow> u32 res" where
  "numDirtyByIndex index b =
     (if index > 0
      then case map_of (dirtyIndexMap b) index of None \<Rightarrow> Inl Abort | Some s \<Rightarrow> Inr (of_nat (length s))
      else Inr 0)"

text \<open>The loop of \<open>doFlushDone\<close>; a block that is not dirty ends it with -1.\<close>

fun flush_done_loop :: "u32 list \<Rightarrow> heap \<times> BlockBuffer \<Rightarrow> (int \<times> heap \<times> BlockBuffer) res" where
  "flush_done_loop [] s = Inr (0, s)"
| "flush_done_loop (bno # bnos) (h, b) =
     res_bind (getBlockWithoutAccess bno b) (\<lambda>r.
       case r of
         None \<Rightarrow> Inl Abort
       | Some i \<Rightarrow>
           let h' = h(i := snd (setDirty False (h i)))
           in if \<not> isDirty (h i) then Inr (-1, h', b)
              else res_bind (adjustDirtyItemNum (-1) b) (\<lambda>b1.
                let b2 = b1\<lparr>dirtyIndexMap := set_erase (itemIndex (h' i)) i (dirtyIndexMap b1)\<rparr>
                in case map_of (cache_items_map b2) bno of
                     None \<Rightarrow> Inl Abort
                   | Some n \<Rightarrow> res_bind (erase_node n b2) (\<lambda>b3.
                       let b4 = push_back bno i b3
                       in flush_done_loop bnos
                            (h', b4\<lparr>cache_items_map := AList.update bno (next_node b3) (cache_items_map b4)\<rparr>))))"

definition doFlushDone :: "u32 list \<Rightarrow> heap \<times> BlockBuffer \<Rightarrow> (int \<times> heap \<times> BlockBuffer) res" where
  "doFlushDone blocks = (\<lambda>(h, b).
     if \<not> (bgFlushSent b \<or> numFgFlushInflight b > 0) then Inr (-1, h, b)
     else flush_done_loop blocks (h, b))"

subsection \<open>Moving items between caches\<close>

definition split_item :: "heap \<Rightarrow> item \<Rightarrow> BlockBuffer \<Rightarrow> BlockBuffer res" where
  "split_item h i b =
     (case map_of (cache_items_map b) (blockNo (h i)) of
        None \<Rightarrow> Inl (Throw ''BlockBuffer: invalid bno for cache_map'')
      | Some n \<Rightarrow>
          (case node_at n b of
             None \<Rightarrow> Inl Abort
           | Some (_, j) \<Rightarrow>
               if status (h j) = BLOCK_BUF_LOCKED
               then Inl (Throw ''splitBufferItem item is BLOCK_BUF_LOCKED'')
               else res_bind (erase_node n b) (\<lambda>b1.
                 Inr (b1\<lparr>cache_items_map := AList.delete (blockNo (h i)) (cache_items_map b1)\<rparr>))))"

text \<open>The returned set is what \<open>itemSet\<close> holds afterwards.\<close>

definition splitBufferItemsByIndex ::
    "u32 \<Rightarrow> item uset \<Rightarrow> heap \<times> BlockBuffer \<Rightarrow> ((int \<times> item uset) \<times> BlockBuffer) res" where
  "splitBufferItemsByIndex index itemSet = (\<lambda>(h, b).
     case map_of (blockIndexMap b) index of
       None \<Rightarrow> Inr ((-1, itemSet), b)
     | Some s \<Rightarrow>
         res_bind (case map_of (dirtyIndexMap b) index of
                     None \<Rightarrow> Inr b
                   | Some d \<Rightarrow> res_bind (adjustDirtyItemNum (- int (length d)) b) (\<lambda>b1.
                       Inr (b1\<lparr>dirtyIndexMap := AList.delete index (dirtyIndexMap b1)\<rparr>)))
           (\<lambda>b1. res_bind (fold_res (split_item h) s b1) (\<lambda>b2.
              Inr ((0, s), b2\<lparr>blockIndexMap := AList.delete index (blockIndexMap b2)\<rparr>))))"

definition install_item :: "heap \<Rightarrow> item \<Rightarrow> BlockBuffer \<Rightarrow> BlockBuffer" where
  "install_item h i b =
     (let b1 = push_front (blockNo (h i)) i b
      in b1\<lparr>cache_items_map := AList.update (blockNo (h i)) (next_node b) (cache_items_map b1)\<rparr>)"

text \<open>\<open>emplace\<close> leaves an entry that exists as it is.\<close>

definition installBufferItemsOfIndex ::
    "u32 \<Rightarrow> item uset \<Rightarrow> heap \<times> BlockBuffer \<Rightarrow> (int \<times> BlockBuffer) res" where
  "installBufferItemsOfIndex index itemSet = (\<lambda>(h, b).
     if itemSet = [] then Inl Abort
     else let b1 = b\<lparr>blockIndexMap :=
                       AList.update index (fold List.insert itemSet (at_key index (blockIndexMap b))) (blockIndexMap b)\<rparr>;
              dirty_set = filter (\<lambda>i. isDirty (h i)) itemSet;
              b2 = fold (install_item h) itemSet b1
          in if dirty_set = [] then Inr (0, b2)
             else res_bind (adjustDirtyItemNum (int (length dirty_set))
                    (b2\<lparr>dirtyIndexMap := (if map_of (dirtyIndexMap b2) index = None
                                           then AList.update index dirty_set (dirtyIndexMap b2)
                                           else dirtyIndexMap b2)\<rparr>))
                    (\<lambda>b3. Inr (0, b3)))"

text \<open>The list argument is passed by value, so the items taken from the free list are dropped.\<close>

definition reclaimBufferItemSlots :: "u32 \<Rightarrow> BlockBuffer \<Rightarrow> int \<times> BlockBuffer" where
  "reclaimBufferItemSlots numSlots b =
     (if length (freeItems b) < unat numSlots then (-1, b)
      else (sint numSlots, b\<lparr>freeItems := drop (unat numSlots) (freeItems b)\<rparr>))"

text \<open>The old way to change the index of an item, now part of \<open>getBlock\<close>.\<close>

definition updateBlockIndex :: "item \<Rightarrow> u32 \<Rightarrow> heap \<times> BlockBuffer \<Rightarrow> (heap \<times> BlockBuffer) res" where
  "updateBlockIndex i index = (\<lambda>(h, b).
     let old_index = itemIndex (h i)
     in if old_index \<noteq> index
        then let m = (if old_index > 0 then set_erase old_index i (blockIndexMap b) else blockIndexMap b)
             in if isDirty (h i) then Inl (Throw ''update block index of dirty block'')
                else Inr (h(i := (h i)\<lparr>itemIndex := index\<rparr>), b\<lparr>blockIndexMap := set_emplace index i m\<rparr>)
        else Inr (h, b\<lparr>blockIndexMap := set_emplace index i (blockIndexMap b)\<rparr>))"

definition GetCurrentItemNum :: "BlockBuffer \<Rightarrow> nat" where
  "GetCurrentItemNum b = length (cache_items_list b) + length (freeItems b)"

definition setIfReportStats :: "bool \<Rightarrow> BlockBuffer \<Rightarrow> BlockBuffer" where
  "setIfReportStats x b = b\<lparr>reportStat := x\<rparr>"

end
