(* ===== verification/Ufs_BufferProps.thy ===== *)
theory Ufs_BufferProps
  imports Ufs_BlockBuffer
begin

text \<open>
  Properties of the block cache: the list, the map of iterators and the free list describe one
  assignment of items to blocks; the dirty accounting counts the dirty items; a lookup returns
  the cached item, a free one or the least recently used clean one; an inode's items move
  between two caches without loss; and what goes wrong when blocks of a removed inode are
  released.
\<close>

subsection \<open>The entries of a cache\<close>

abbreviation blk :: "node \<times> u32 \<times> item \<Rightarrow> u32" where "blk e \<equiv> fst (snd e)"
abbreviation itm :: "node \<times> u32 \<times> item \<Rightarrow> item" where "itm e \<equiv> snd (snd e)"

definition items_of :: "BlockBuffer \<Rightarrow> item list" where
  "items_of b = map itm (cache_items_list b)"

definition blocks_of :: "BlockBuffer \<Rightarrow> u32 list" where
  "blocks_of b = map blk (cache_items_list b)"

definition entries_ok :: "(node \<times> u32 \<times> item) list \<Rightarrow> node \<Rightarrow> bool" where
  "entries_ok L nx \<longleftrightarrow> distinct (map fst L) \<and> distinct (map blk L) \<and> distinct (map itm L) \<and>
     (\<forall>e \<in> set L. fst e < nx)"

abbreviation index_of_entries :: "(node \<times> u32 \<times> item) list \<Rightarrow> (u32, node) umap" where
  "index_of_entries L \<equiv> map (\<lambda>e. (blk e, fst e)) L"

definition cache_ok :: "heap \<Rightarrow> BlockBuffer \<Rightarrow> bool" where
  "cache_ok h b \<longleftrightarrow> entries_ok (cache_items_list b) (next_node b) \<and>
     map_of (cache_items_map b) = map_of (index_of_entries (cache_items_list b)) \<and>
     (\<forall>e \<in> set (cache_items_list b). blockNo (h (itm e)) = blk e) \<and>
     distinct (freeItems b) \<and> set (freeItems b) \<inter> set (items_of b) = {}"

lemma cache_ok_cong:
  assumes "cache_ok h b" "cache_items_list b' = cache_items_list b" "next_node b' = next_node b"
    "cache_items_map b' = cache_items_map b" "freeItems b' = freeItems b"
    "\<And>i. i \<in> set (items_of b) \<Longrightarrow> blockNo (h' i) = blockNo (h i)"
  shows "cache_ok h' b'"
  using assms by (auto simp: cache_ok_def items_of_def)

lemma distinct_map_unique:
  "distinct (map f L) \<Longrightarrow> x \<in> set L \<Longrightarrow> y \<in> set L \<Longrightarrow> f x = f y \<Longrightarrow> x = y"
  by (auto simp: distinct_map dest: inj_onD)

text \<open>In a well-formed list, node, block number and item each identify an entry.\<close>

lemma entry_unique:
  assumes "entries_ok L nx" "e \<in> set L" "e' \<in> set L"
  shows "fst e = fst e' \<Longrightarrow> e = e'" "blk e = blk e' \<Longrightarrow> e = e'" "itm e = itm e' \<Longrightarrow> e = e'"
  using assms by (auto simp: entries_ok_def intro: distinct_map_unique)

lemma map_of_entries:
  assumes "entries_ok L nx"
  shows "map_of (index_of_entries L) bno = Some n \<longleftrightarrow> (\<exists>i. (n, bno, i) \<in> set L)"
proof -
  have "distinct (map fst (index_of_entries L))"
    using assms by (simp add: entries_ok_def comp_def)
  then have "map_of (index_of_entries L) bno = Some n \<longleftrightarrow> (bno, n) \<in> set (index_of_entries L)"
    by (rule map_of_eq_Some_iff)
  then show ?thesis by force
qed

lemma lookup_entry:
  assumes "cache_ok h b"
  shows "map_of (cache_items_map b) bno = Some n \<longleftrightarrow> (\<exists>i. (n, bno, i) \<in> set (cache_items_list b))"
  using assms map_of_entries [of "cache_items_list b" "next_node b"] by (simp add: cache_ok_def)

lemma lookup_None:
  assumes "cache_ok h b"
  shows "map_of (cache_items_map b) bno = None \<longleftrightarrow> bno \<notin> set (blocks_of b)"
  using assms by (simp add: cache_ok_def blocks_of_def map_of_eq_None_iff image_image)

lemma node_at_entry:
  assumes "cache_ok h b" "(n, bno, i) \<in> set (cache_items_list b)"
  shows "node_at n b = Some (bno, i)"
  using assms by (simp add: node_at_def cache_ok_def entries_ok_def)

lemma entry_blockNo:
  assumes "cache_ok h b" "(n, bno, i) \<in> set (cache_items_list b)"
  shows "blockNo (h i) = bno"
  using assms by (auto simp: cache_ok_def)

lemma item_entry:
  assumes "cache_ok h b" "i \<in> set (items_of b)"
  obtains n where "(n, blockNo (h i), i) \<in> set (cache_items_list b)"
  using assms by (force simp: cache_ok_def items_of_def)

lemma getBlockWithoutAccess_hit:
  assumes "cache_ok h b" "(n, bno, i) \<in> set (cache_items_list b)"
  shows "getBlockWithoutAccess bno b = Inr (Some i)"
proof -
  have "map_of (cache_items_map b) bno = Some n" using lookup_entry [OF assms(1)] assms(2) by blast
  with node_at_entry [OF assms] show ?thesis by (simp add: getBlockWithoutAccess_def)
qed

lemma getBlockWithoutAccess_miss:
  assumes "cache_ok h b" "bno \<notin> set (blocks_of b)"
  shows "getBlockWithoutAccess bno b = Inr None"
proof -
  have "map_of (cache_items_map b) bno = None" using lookup_None [OF assms(1)] assms(2) by blast
  then show ?thesis by (simp add: getBlockWithoutAccess_def)
qed

lemma block_entry:
  assumes "bno \<in> set (blocks_of b)"
  obtains n i where "(n, bno, i) \<in> set (cache_items_list b)"
  using assms by (auto simp: blocks_of_def)

subsection \<open>Removing and adding entries\<close>

definition drop_entry :: "node \<Rightarrow> u32 \<Rightarrow> BlockBuffer \<Rightarrow> BlockBuffer" where
  "drop_entry n bno b = b\<lparr>cache_items_list := filter (\<lambda>e. fst e \<noteq> n) (cache_items_list b),
     cache_items_map := AList.delete bno (cache_items_map b)\<rparr>"

lemma list_map_commute:
  "b\<lparr>cache_items_map := m, cache_items_list := l\<rparr> = b\<lparr>cache_items_list := l, cache_items_map := m\<rparr>"
  by (cases b) simp

lemma entries_ok_filter: "entries_ok L nx \<Longrightarrow> entries_ok (filter P L) nx"
  by (auto simp: entries_ok_def distinct_map_filter)

lemma filter_entry:
  assumes "entries_ok L nx" "(n, bno, i) \<in> set L"
  shows "filter (\<lambda>e. fst e \<noteq> n) L = filter (\<lambda>e. blk e \<noteq> bno) L"
    "filter (\<lambda>e. fst e \<noteq> n) L = filter (\<lambda>e. itm e \<noteq> i) L"
proof -
  have "(fst e \<noteq> n) = (blk e \<noteq> bno)" "(fst e \<noteq> n) = (itm e \<noteq> i)" if "e \<in> set L" for e
    using entry_unique [OF assms(1) that assms(2)] by (metis fst_conv snd_conv)+
  then show "filter (\<lambda>e. fst e \<noteq> n) L = filter (\<lambda>e. blk e \<noteq> bno) L"
    "filter (\<lambda>e. fst e \<noteq> n) L = filter (\<lambda>e. itm e \<noteq> i) L"
    by (simp_all cong: filter_cong)
qed

lemma map_of_filter_key: "map_of (map (\<lambda>e. (f e, g e)) (filter (\<lambda>e. f e \<noteq> k) L)) =
    (map_of (map (\<lambda>e. (f e, g e)) L))(k := None)"
  by (induction L) auto

lemma drop_entry_ok:
  assumes "cache_ok h b" "(n, bno, i) \<in> set (cache_items_list b)"
  shows "cache_ok h (drop_entry n bno b)" "items_of (drop_entry n bno b) = filter (\<lambda>j. j \<noteq> i) (items_of b)"
    "blocks_of (drop_entry n bno b) = filter (\<lambda>c. c \<noteq> bno) (blocks_of b)"
proof -
  have ok: "entries_ok (cache_items_list b) (next_node b)" using assms(1) by (simp add: cache_ok_def)
  note eq = filter_entry [OF ok assms(2)]
  show "items_of (drop_entry n bno b) = filter (\<lambda>j. j \<noteq> i) (items_of b)"
    by (simp add: items_of_def drop_entry_def eq(2) filter_map comp_def)
  then show "cache_ok h (drop_entry n bno b)"
    using assms(1) entries_ok_filter [OF ok] map_of_filter_key [of blk fst bno "cache_items_list b"] eq(1)
    by (auto simp: cache_ok_def drop_entry_def delete_conv')
  show "blocks_of (drop_entry n bno b) = filter (\<lambda>c. c \<noteq> bno) (blocks_of b)"
    by (simp add: blocks_of_def drop_entry_def eq(1) filter_map comp_def)
qed

lemma erase_node_drop:
  assumes "cache_ok h b" "(n, bno, i) \<in> set (cache_items_list b)"
  shows "erase_node n b = Inr (b\<lparr>cache_items_list := filter (\<lambda>e. fst e \<noteq> n) (cache_items_list b)\<rparr>)"
    "erase_node n (b\<lparr>cache_items_map := m\<rparr>) =
       Inr (b\<lparr>cache_items_map := m, cache_items_list := filter (\<lambda>e. fst e \<noteq> n) (cache_items_list b)\<rparr>)"
  using node_at_entry [OF assms] by (simp_all add: erase_node_def node_at_def)

text \<open>Entering an item at the front (\<open>getBlock\<close>, installing) or the back (flushed blocks).\<close>

lemma map_of_snoc_fresh: "k \<notin> fst ` set m \<Longrightarrow> map_of (m @ [(k, v)]) = (map_of m)(k \<mapsto> v)"
  by (induction m) auto

lemma add_entry_ok:
  assumes "cache_ok h b" "bno \<notin> set (blocks_of b)" "i \<notin> set (items_of b)"
    "blockNo (h' i) = bno" "\<And>j. j \<in> set (items_of b) \<Longrightarrow> blockNo (h' j) = blockNo (h j)"
    "cache_items_list b' = (next_node b, bno, i) # cache_items_list b \<or>
     cache_items_list b' = cache_items_list b @ [(next_node b, bno, i)]"
    "next_node b' = next_node b + 1"
    "map_of (cache_items_map b') = (map_of (cache_items_map b))(bno \<mapsto> next_node b)"
    "distinct (freeItems b')" "set (freeItems b') \<subseteq> set (freeItems b)" "i \<notin> set (freeItems b')"
  shows "cache_ok h' b'" "set (items_of b') = insert i (set (items_of b))"
    "set (blocks_of b') = insert bno (set (blocks_of b))"
proof -
  have ok: "entries_ok (cache_items_list b) (next_node b)" using assms(1) by (simp add: cache_ok_def)
  show it: "set (items_of b') = insert i (set (items_of b))"
    "set (blocks_of b') = insert bno (set (blocks_of b))"
    using assms(6) by (auto simp: items_of_def blocks_of_def)
  have "next_node b \<notin> fst ` set (cache_items_list b)" "\<forall>e \<in> set (cache_items_list b). fst e < Suc (next_node b)"
    using ok by (force simp: entries_ok_def)+
  then have "entries_ok (cache_items_list b') (next_node b')"
    using ok assms(2,3,6,7) unfolding entries_ok_def items_of_def blocks_of_def by auto
  moreover have "map_of (cache_items_map b') = map_of (index_of_entries (cache_items_list b'))"
    using assms(1,2,6,8)
    by (auto simp: cache_ok_def blocks_of_def map_of_snoc_fresh image_image simp del: map_of_append)
  moreover have "\<forall>e \<in> set (cache_items_list b). blockNo (h' (itm e)) = blk e"
    using assms(1,5) by (simp add: cache_ok_def items_of_def)
  then have "\<forall>e \<in> set (cache_items_list b'). blockNo (h' (itm e)) = blk e"
    using assms(4,6) by auto
  ultimately show "cache_ok h' b'"
    using assms(1,9,10,11) it by (auto simp: cache_ok_def)
qed

subsection \<open>The dirty accounting\<close>

definition dirty_ok :: "heap \<Rightarrow> BlockBuffer \<Rightarrow> bool" where
  "dirty_ok h b \<longleftrightarrow>
     (\<forall>k. distinct (at_key k (dirtyIndexMap b))) \<and>
     (\<forall>k i. i \<in> set (at_key k (dirtyIndexMap b)) \<longleftrightarrow>
        i \<in> set (items_of b) \<and> isDirty (h i) \<and> itemIndex (h i) = k) \<and>
     dirtyItemNum b = int (card {i \<in> set (items_of b). isDirty (h i)}) \<and>
     (\<forall>i \<in> set (freeItems b). \<not> isDirty (h i))"

definition index_ok :: "heap \<Rightarrow> BlockBuffer \<Rightarrow> bool" where
  "index_ok h b \<longleftrightarrow>
     (\<forall>k. distinct (at_key k (blockIndexMap b))) \<and>
     (\<forall>k i. i \<in> set (at_key k (blockIndexMap b)) \<longleftrightarrow>
        i \<in> set (items_of b) \<and> itemIndex (h i) = k \<and> k \<noteq> 0) \<and>
     (\<forall>i \<in> set (freeItems b). itemIndex (h i) = 0)"

lemma at_key_erase [simp]: "at_key k' (set_erase k i m) = (if k' = k then removeAll i (at_key k m) else at_key k' m)"
  by (simp add: at_key_def set_erase_def update_conv')

lemma at_key_emplace [simp]: "at_key k' (set_emplace k i m) = (if k' = k then List.insert i (at_key k m) else at_key k' m)"
  by (simp add: at_key_def set_emplace_def update_conv')

lemma at_key_delete [simp]: "at_key k' (AList.delete k m) = (if k' = k then [] else at_key k' m)"
  by (simp add: at_key_def delete_conv')

lemma at_key_update [simp]: "at_key k' (AList.update k s m) = (if k' = k then s else at_key k' m)"
  by (simp add: at_key_def update_conv')

lemma dirty_ok_cong:
  assumes "dirty_ok h b" "set (items_of b') = set (items_of b)" "dirtyIndexMap b' = dirtyIndexMap b"
    "dirtyItemNum b' = dirtyItemNum b" "set (freeItems b') \<subseteq> set (freeItems b)"
    "\<And>i. i \<in> set (items_of b) \<union> set (freeItems b) \<Longrightarrow> isDirty (h' i) = isDirty (h i)"
    "\<And>i. i \<in> set (items_of b) \<Longrightarrow> isDirty (h i) \<Longrightarrow> itemIndex (h' i) = itemIndex (h i)"
  shows "dirty_ok h' b'"
proof -
  have "{i \<in> set (items_of b). isDirty (h' i)} = {i \<in> set (items_of b). isDirty (h i)}"
    using assms(6) by blast
  then show ?thesis using assms by (auto simp: dirty_ok_def)
qed

text \<open>Adding or removing an item that is not dirty does not touch the accounting.\<close>

lemma dirty_ok_add:
  assumes "dirty_ok h b" "set (items_of b') = insert i (set (items_of b))" "\<not> isDirty (h' i)"
    "dirtyIndexMap b' = dirtyIndexMap b" "dirtyItemNum b' = dirtyItemNum b"
    "set (freeItems b') \<subseteq> set (freeItems b)" "i \<notin> set (items_of b)"
    "\<And>j. j \<noteq> i \<Longrightarrow> h' j = h j"
  shows "dirty_ok h' b'"
proof -
  have eq: "h' j = h j" if "j \<in> set (items_of b)" for j using assms(7,8) that by metis
  have "{j \<in> set (items_of b'). isDirty (h' j)} = {j \<in> set (items_of b). isDirty (h j)}"
    using assms(2,3) eq by auto
  moreover have "j \<in> set (items_of b') \<and> isDirty (h' j) \<and> itemIndex (h' j) = k \<longleftrightarrow>
      j \<in> set (items_of b) \<and> isDirty (h j) \<and> itemIndex (h j) = k" for j k
    using assms(2,3,7,8) by (cases "j = i") auto
  moreover have "\<not> isDirty (h' j)" if "j \<in> set (freeItems b')" for j
    using assms(1,3,6,8) that by (cases "j = i") (auto simp: dirty_ok_def)
  ultimately show ?thesis using assms(1,4,5) by (auto simp: dirty_ok_def)
qed

lemma dirty_ok_drop:
  assumes "dirty_ok h b" "set (items_of b') = set (items_of b) - {i}" "\<not> isDirty (h i)"
    "dirtyIndexMap b' = dirtyIndexMap b" "dirtyItemNum b' = dirtyItemNum b" "freeItems b' = freeItems b"
  shows "dirty_ok h b'"
proof -
  have "{j \<in> set (items_of b'). isDirty (h j)} = {j \<in> set (items_of b). isDirty (h j)}"
    using assms(2,3) by auto
  then show ?thesis using assms by (auto simp: dirty_ok_def)
qed

subsection \<open>Getting a block\<close>

text \<open>What a cache must keep: every item it knows, and the invariants above.\<close>

definition buf_ok :: "heap \<Rightarrow> BlockBuffer \<Rightarrow> bool" where
  "buf_ok h b \<longleftrightarrow> cache_ok h b \<and> dirty_ok h b \<and> index_ok h b"

definition all_items :: "BlockBuffer \<Rightarrow> item set" where
  "all_items b = set (freeItems b) \<union> set (items_of b)"

lemma count_fields [simp]:
  "cache_items_list (count_request now b) = cache_items_list b" "cache_items_map (count_request now b) = cache_items_map b"
  "next_node (count_request now b) = next_node b" "freeItems (count_request now b) = freeItems b"
  "dirtyIndexMap (count_request now b) = dirtyIndexMap b" "dirtyItemNum (count_request now b) = dirtyItemNum b"
  "blockIndexMap (count_request now b) = blockIndexMap b"
  "cache_items_list (count_hit b) = cache_items_list b" "cache_items_map (count_hit b) = cache_items_map b"
  "next_node (count_hit b) = next_node b" "freeItems (count_hit b) = freeItems b"
  "dirtyIndexMap (count_hit b) = dirtyIndexMap b" "dirtyItemNum (count_hit b) = dirtyItemNum b"
  "blockIndexMap (count_hit b) = blockIndexMap b"
  by (simp_all add: count_request_def count_hit_def reportStats_def Let_def)

lemma items_upd [simp]:
  "items_of (b\<lparr>dirtyItemNum := x\<rparr>) = items_of b" "items_of (b\<lparr>dirtyIndexMap := m\<rparr>) = items_of b"
  "items_of (b\<lparr>blockIndexMap := m\<rparr>) = items_of b" "items_of (b\<lparr>freeItems := f\<rparr>) = items_of b"
  "items_of (b\<lparr>cache_items_map := c\<rparr>) = items_of b" "items_of (b\<lparr>bgFlushSent := y\<rparr>) = items_of b"
  by (simp_all add: items_of_def)

lemma items_count [simp]: "items_of (count_hit b) = items_of b" "items_of (count_request now b) = items_of b"
  by (simp_all add: items_of_def)

lemma blocks_count [simp]: "blocks_of (count_request now b) = blocks_of b"
  by (simp add: blocks_of_def)

lemma all_items_count [simp]:
  "all_items (count_hit b) = all_items b" "all_items (count_request now b) = all_items b"
  by (simp_all add: all_items_def)

lemma buf_ok_fields:
  assumes "buf_ok h b" "cache_items_list b' = cache_items_list b" "cache_items_map b' = cache_items_map b"
    "next_node b' = next_node b" "freeItems b' = freeItems b" "dirtyIndexMap b' = dirtyIndexMap b"
    "dirtyItemNum b' = dirtyItemNum b" "blockIndexMap b' = blockIndexMap b"
  shows "buf_ok h b'"
  using assms by (simp add: buf_ok_def cache_ok_def dirty_ok_def index_ok_def items_of_def)

text \<open>The index map after \<open>grab\<close>, whatever the old index was.\<close>

lemma grab_index:
  assumes "index_ok h b" "grab bno new_index i (h1, b1) = (h', b')"
    "blockIndexMap b1 = blockIndexMap b" "set (items_of b1) = insert i (set (items_of b))"
    "set (freeItems b1) \<subseteq> set (freeItems b) - {i}" "i \<in> set (items_of b) \<or> itemIndex (h i) = 0"
    "itemIndex (h1 i) = itemIndex (h i)" "\<And>j. j \<noteq> i \<Longrightarrow> h1 j = h j"
  shows "index_ok h' b'"
proof -
  let ?m = "blockIndexMap b"
  have h': "h' = h1(i := (h1 i)\<lparr>blockNo := bno, status := BLOCK_BUF_LOCKED, itemIndex := new_index\<rparr>)"
    and it: "items_of b' = items_of b1" "freeItems b' = freeItems b1"
    and m': "at_key k (blockIndexMap b') =
      (if itemIndex (h i) = new_index then at_key k ?m
       else if k = new_index \<and> new_index \<noteq> 0 then List.insert i (at_key k ?m)
       else if k = itemIndex (h i) \<and> k \<noteq> 0 then removeAll i (at_key k ?m) else at_key k ?m)" for k
    using assms(2,3,7) by (auto simp: grab_def Let_def items_of_def)
  have o: "distinct (at_key k ?m)"
    "j \<in> set (at_key k ?m) \<longleftrightarrow> j \<in> set (items_of b) \<and> itemIndex (h j) = k \<and> k \<noteq> 0"
    "j \<in> set (freeItems b) \<Longrightarrow> itemIndex (h j) = 0" for j k
    using assms(1) by (auto simp: index_ok_def)
  have hj: "itemIndex (h' j) = (if j = i then new_index else itemIndex (h j))" for j
    using assms(8) by (simp add: h')
  have "distinct (at_key k (blockIndexMap b'))" for k using o(1) by (auto simp: m' distinct_removeAll)
  moreover have "j \<in> set (at_key k (blockIndexMap b')) \<longleftrightarrow>
      j \<in> set (items_of b') \<and> itemIndex (h' j) = k \<and> k \<noteq> 0" for j k
    using assms(4,6) o(2) by (cases "j = i") (auto simp: m' hj it)
  moreover have "itemIndex (h' j) = 0" if "j \<in> set (freeItems b')" for j
    using that assms(5) o(3) by (auto simp: hj it)
  ultimately show ?thesis by (simp add: index_ok_def)
qed

text \<open>
  The invariants after the three ways to get an item. Asking for a cached dirty block must name
  the index it is dirty under.
\<close>

lemma filter_unique: "distinct (map f L) \<Longrightarrow> x \<in> set L \<Longrightarrow> filter (\<lambda>e. f e = f x) L = [x]"
  by (induction L) (auto simp: filter_empty_conv image_iff)

lemma option_eqI: "(\<And>v. a = Some v \<longleftrightarrow> b = Some v) \<Longrightarrow> a = b"
  by (cases a; cases b) auto

lemma splice_ok:
  assumes "cache_ok h b" "(n, bno, i) \<in> set (cache_items_list b)"
  shows "cache_ok h (splice_front n b)"
    "cache_items_list (splice_front n b) = (n, bno, i) # filter (\<lambda>e. fst e \<noteq> n) (cache_items_list b)"
    "set (items_of (splice_front n b)) = set (items_of b)"
proof -
  have d: "distinct (map fst (cache_items_list b))" using assms(1) by (simp add: cache_ok_def entries_ok_def)
  show l: "cache_items_list (splice_front n b) = (n, bno, i) # filter (\<lambda>e. fst e \<noteq> n) (cache_items_list b)"
    using filter_unique [OF d assms(2)] by (simp add: splice_front_def)
  show "set (items_of (splice_front n b)) = set (items_of b)"
    by (auto simp: items_of_def splice_front_def)
  let ?L = "cache_items_list b" and ?L' = "cache_items_list (splice_front n b)"
  have m: "mset ?L' = mset ?L" by (simp add: splice_front_def)
  have dist: "distinct (map f ?L') = distinct (map f ?L)" for f :: "_ \<Rightarrow> 'x"
    using mset_eq_imp_distinct_iff [of "map f ?L'" "map f ?L"] m by simp
  have set: "set ?L' = set ?L" using m by (rule mset_eq_setD)
  have ok: "entries_ok ?L' (next_node b)"
    using assms(1) by (simp add: cache_ok_def entries_ok_def dist set)
  have ok0: "entries_ok ?L (next_node b)" using assms(1) by (simp add: cache_ok_def)
  have mp: "map_of (index_of_entries ?L') = map_of (index_of_entries ?L)"
    by (rule ext, rule option_eqI) (simp add: map_of_entries [OF ok] map_of_entries [OF ok0] set)
  have fl: "next_node (splice_front n b) = next_node b" "cache_items_map (splice_front n b) = cache_items_map b"
    "freeItems (splice_front n b) = freeItems b"
    by (simp_all add: splice_front_def)
  show "cache_ok h (splice_front n b)"
    using assms(1) ok unfolding cache_ok_def items_of_def fl mp set set_map by simp
qed

text \<open>Where the item of a lookup comes from.\<close>

lemma grab_fields:
  assumes "grab bno new_index i (h, b) = (h', b')"
  shows "h' = h(i := (h i)\<lparr>blockNo := bno, status := BLOCK_BUF_LOCKED, itemIndex := new_index\<rparr>)"
    "cache_items_list b' = cache_items_list b" "next_node b' = next_node b" "freeItems b' = freeItems b"
    "cache_items_map b' = AList.update bno (fst (hd (cache_items_list b))) (cache_items_map b)"
    "dirtyIndexMap b' = dirtyIndexMap b" "dirtyItemNum b' = dirtyItemNum b"
  using assms by (auto simp: grab_def Let_def)

lemma hit_ok:
  assumes "buf_ok h b" "(n, bno, i) \<in> set (cache_items_list b)"
    "isDirty (h i) \<Longrightarrow> itemIndex (h i) = new_index"
    "grab bno new_index i (h, count_hit (splice_front n b)) = (h', b')"
  shows "buf_ok h' b'" "all_items b' = all_items b"
proof -
  have ok: "cache_ok h b" "dirty_ok h b" "index_ok h b" using assms(1) by (simp_all add: buf_ok_def)
  note sp = splice_ok [OF ok(1) assms(2)]
  note g = grab_fields [OF assms(4)]
  let ?b = "splice_front n b"
  have i: "i \<in> set (items_of b)" using assms(2) by (force simp: items_of_def)
  have nf: "i \<notin> set (freeItems b)" using ok(1) i by (auto simp: cache_ok_def)
  have f: "freeItems ?b = freeItems b" "blockIndexMap ?b = blockIndexMap b" "dirtyIndexMap ?b = dirtyIndexMap b"
    "dirtyItemNum ?b = dirtyItemNum b" "next_node ?b = next_node b" "cache_items_map ?b = cache_items_map b"
    by (simp_all add: splice_front_def)
  have items: "items_of b' = items_of ?b" by (simp add: items_of_def g)
  have "map_of (cache_items_map b) bno = Some n" using lookup_entry [OF ok(1)] assms(2) by blast
  then have mp: "map_of (cache_items_map b') = map_of (cache_items_map b)"
    by (auto simp: g update_conv' f sp(2))
  have bn: "blockNo (h' j) = blockNo (h j)" for j
    using entry_blockNo [OF ok(1) assms(2)] by (simp add: g)
  have c: "cache_ok h' b'" using sp(1) bn by (simp add: cache_ok_def items g(2-4) f mp)
  have d: "dirty_ok h' b'"
    by (rule dirty_ok_cong [OF ok(2)]) (use assms(3) in \<open>simp_all add: items sp(3) g f, blast\<close>)
  have x: "index_ok h' b'"
    by (rule grab_index [OF ok(3) assms(4)]) (use i nf in \<open>simp_all add: f items_count sp(3) insert_absorb\<close>)
  show "buf_ok h' b'" using c d x by (simp add: buf_ok_def)
  show "all_items b' = all_items b" by (simp add: all_items_def items sp(3) g f)
qed

text \<open>A new entry for an item that is not in the list: from the free list or after an eviction.\<close>

lemma enter_ok:
  assumes "cache_ok h b" "dirty_ok h b" "index_ok h b0" "bno \<notin> set (blocks_of b)"
    "i \<notin> set (items_of b)" "\<not> isDirty (h i)"
    "insert i (set (items_of b)) = insert i (set (items_of b0))" "set (freeItems b) \<subseteq> set (freeItems b0)"
    "i \<in> set (items_of b0) \<or> itemIndex (h i) = 0" "blockIndexMap b = blockIndexMap b0"
    "grab bno new_index i (miss i h, push_front bno i (b\<lparr>freeItems := removeAll i (freeItems b)\<rparr>)) = (h', b')"
  shows "buf_ok h' b'" "all_items b' = insert i (all_items b)"
proof -
  note g = grab_fields [OF assms(11)]
  have l: "cache_items_list b' = (next_node b, bno, i) # cache_items_list b" "next_node b' = next_node b + 1"
    "freeItems b' = removeAll i (freeItems b)"
    "map_of (cache_items_map b') = (map_of (cache_items_map b))(bno \<mapsto> next_node b)"
    by (simp_all add: g push_front_def update_conv')
  have h': "h' j = h j" if "j \<noteq> i" for j using that by (simp add: g miss_def)
  have nd: "\<not> isDirty (h' i)" using assms(6) by (simp add: g miss_def)
  have df: "distinct (freeItems b')" "set (freeItems b') \<subseteq> set (freeItems b)" "i \<notin> set (freeItems b')"
    using assms(1) by (auto simp: l cache_ok_def distinct_removeAll)
  have bn: "blockNo (h' i) = bno" by (simp add: g)
  have old: "blockNo (h' j) = blockNo (h j)" if "j \<in> set (items_of b)" for j
    using h' [of j] assms(5) that by metis
  have c: "cache_ok h' b'" "set (items_of b') = insert i (set (items_of b))"
    using add_entry_ok [OF assms(1,4,5) bn old _ l(2,4) df] l(1) by simp_all
  have d: "dirty_ok h' b'"
    by (rule dirty_ok_add [where h = h and b = b and i = i])
       (use assms(2,5) c(2) nd df(2) h' in \<open>simp_all add: g(6,7) push_front_def\<close>)
  have x: "index_ok h' b'"
    by (rule grab_index [OF assms(3) assms(11)])
       (use assms(7,8,9,10) in \<open>auto simp: push_front_def items_of_def miss_def\<close>)
  show "buf_ok h' b'" using c d x by (simp add: buf_ok_def)
  show "all_items b' = insert i (all_items b)" using c(2) by (auto simp: all_items_def l)
qed

text \<open>The replacement loop finds the least recently used item that is neither locked nor dirty.\<close>

definition replaceable :: "heap \<Rightarrow> item \<Rightarrow> bool" where
  "replaceable h i \<longleftrightarrow> status (h i) \<noteq> BLOCK_BUF_LOCKED \<and> \<not> isDirty (h i)"

lemma find_victim_find:
  "fst (find_victim h es d) = map_option (\<lambda>e. (fst e, itm e)) (find (\<lambda>e. replaceable h (itm e)) es)"
  by (induction h es d rule: find_victim.induct) (auto simp: replaceable_def)

text \<open>
  \<open>getBlock\<close> as one step of a specification: the item of a cached block, else the first free
  item, else the least recently used replaceable one.
\<close>

lemma evict_ok:
  assumes "buf_ok h b" "(n, c, i) \<in> set (cache_items_list b)" "replaceable h i"
  shows "cache_ok h (drop_entry n c b)" "dirty_ok h (drop_entry n c b)"
    "\<not> isDirty (h i)" "i \<notin> set (items_of (drop_entry n c b))"
proof -
  have ok: "cache_ok h b" "dirty_ok h b" using assms(1) by (simp_all add: buf_ok_def)
  note dr = drop_entry_ok [OF ok(1) assms(2)]
  show "cache_ok h (drop_entry n c b)" "i \<notin> set (items_of (drop_entry n c b))" using dr by simp_all
  show nd: "\<not> isDirty (h i)" using assms(3) by (simp add: replaceable_def)
  show "dirty_ok h (drop_entry n c b)"
    by (rule dirty_ok_drop [OF ok(2) _ nd]) (auto simp: dr(2), simp_all add: drop_entry_def)
qed

text \<open>The choice of the specification: the item and whether it comes out of the cache's list.\<close>

datatype choice = Hit item | Fresh item | Evict item | Empty_cache | All_busy

definition select_item :: "u32 \<Rightarrow> heap \<Rightarrow> BlockBuffer \<Rightarrow> choice" where
  "select_item bno h b =
     (case find (\<lambda>e. blk e = bno) (cache_items_list b) of
        Some e \<Rightarrow> Hit (itm e)
      | None \<Rightarrow>
          (case freeItems b of
             i # _ \<Rightarrow> Fresh i
           | [] \<Rightarrow> if cache_items_list b = [] then Empty_cache
                  else case find (\<lambda>e. replaceable h (itm e)) (rev (cache_items_list b)) of
                         None \<Rightarrow> All_busy
                       | Some e \<Rightarrow> Evict (itm e)))"

lemma find_SomeD: "find P xs = Some x \<Longrightarrow> x \<in> set xs \<and> P x"
  by (induction xs) (auto split: if_splits)

lemma find_block:
  assumes "cache_ok h b"
  shows "find (\<lambda>e. blk e = bno) (cache_items_list b) = Some (n, c, i) \<longleftrightarrow>
           c = bno \<and> (n, bno, i) \<in> set (cache_items_list b)"
    "find (\<lambda>e. blk e = bno) (cache_items_list b) = None \<longleftrightarrow> bno \<notin> set (blocks_of b)"
proof -
  have ok: "entries_ok (cache_items_list b) (next_node b)" using assms by (simp add: cache_ok_def)
  have some: "e \<in> set (cache_items_list b) \<and> blk e = bno"
    if "find (\<lambda>e. blk e = bno) (cache_items_list b) = Some e" for e
    using find_SomeD [OF that] .
  show none: "find (\<lambda>e. blk e = bno) (cache_items_list b) = None \<longleftrightarrow> bno \<notin> set (blocks_of b)"
    by (force simp: find_None_iff blocks_of_def)
  show "find (\<lambda>e. blk e = bno) (cache_items_list b) = Some (n, c, i) \<longleftrightarrow>
      c = bno \<and> (n, bno, i) \<in> set (cache_items_list b)"
  proof
    assume r: "c = bno \<and> (n, bno, i) \<in> set (cache_items_list b)"
    then have "bno \<in> set (blocks_of b)" by (force simp: blocks_of_def)
    with none obtain e where e: "find (\<lambda>e. blk e = bno) (cache_items_list b) = Some e" by blast
    from some [OF e] r entry_unique(2) [OF ok, of e "(n, bno, i)"] e
    show "find (\<lambda>e. blk e = bno) (cache_items_list b) = Some (n, c, i)" by simp
  qed (use some in fastforce)
qed

text \<open>What the caller that gets the lock of item \<open>i\<close> sees.\<close>

definition obtained :: "u32 \<Rightarrow> u32 \<Rightarrow> item \<Rightarrow> heap \<times> BlockBuffer \<Rightarrow> heap \<times> BlockBuffer \<Rightarrow> bool" where
  "obtained bno index i s s' \<longleftrightarrow> (case (s, s') of ((h, b), (h', b')) \<Rightarrow>
     buf_ok h' b' \<and> all_items b' = all_items b \<and>
     cache_items_list b' \<noteq> [] \<and> snd (hd (cache_items_list b')) = (bno, i) \<and> set (blocks_of b') \<subseteq> insert bno (set (blocks_of b)) \<and>
     status (h' i) = BLOCK_BUF_LOCKED \<and> blockNo (h' i) = bno \<and> itemIndex (h' i) = index \<and>
     isDirty (h' i) = isDirty (h i) \<and> (\<forall>j. j \<noteq> i \<longrightarrow> h' j = h j) \<and>
     (inMem (h' i) \<longleftrightarrow> inMem (h i) \<and> (bno, i) \<in> snd ` set (cache_items_list b)) \<and>
     snd ` set (cache_items_list b') \<subseteq> insert (bno, i) (snd ` set (cache_items_list b)) \<and>
     (\<forall>e \<in> set (cache_items_list b). isDirty (h (itm e)) \<longrightarrow> snd e \<in> snd ` set (cache_items_list b')) \<and>
     (bno \<in> set (blocks_of b) \<longrightarrow> snd ` set (cache_items_list b') = snd ` set (cache_items_list b)))"

lemma getBlock_hit:
  assumes "buf_ok h b" "(n, bno, i) \<in> set (cache_items_list b)" "status (h i) \<noteq> BLOCK_BUF_LOCKED"
    "isDirty (h i) \<Longrightarrow> itemIndex (h i) = index"
  shows "\<exists>s'. getBlock now bno index (h, b) = Inr ((Some i, 1, False), s') \<and> obtained bno index i (h, b) s'"
proof -
  let ?b = "count_request now b"
  have ok: "buf_ok h ?b" by (rule buf_ok_fields [OF assms(1)]) simp_all
  then have c: "cache_ok h ?b" by (simp add: buf_ok_def)
  have e: "(n, bno, i) \<in> set (cache_items_list ?b)" using assms(2) by simp
  obtain h' b' where g: "grab bno index i (h, count_hit (splice_front n ?b)) = (h', b')" by force
  have m: "map_of (cache_items_map ?b) bno = Some n" using lookup_entry [OF c] e by blast
  have get: "getBlock now bno index (h, b) = Inr ((Some i, 1, False), h', b')"
    using m node_at_entry [OF c e] assms(3) g by (simp add: getBlock_def Let_def)
  note hit = hit_ok [OF ok e assms(4) g]
  note f = grab_fields [OF g]
  have l: "cache_items_list b' = (n, bno, i) # filter (\<lambda>e. fst e \<noteq> n) (cache_items_list b)"
    using splice_ok(2) [OF c e] by (simp add: f)
  have en: "entries_ok (cache_items_list b) (next_node b)" using assms(1) by (simp add: buf_ok_def cache_ok_def)
  have "x = (n, bno, i) \<or> fst x \<noteq> n" if "x \<in> set (cache_items_list b)" for x
    using entry_unique(1) [OF en that assms(2)] by auto
  then have same: "set (cache_items_list b') = set (cache_items_list b)" using assms(2) unfolding l by fastforce
  have ent: "(bno, i) \<in> snd ` set (cache_items_list b)" using assms(2) by force
  have hd: "cache_items_list b' \<noteq> [] \<and> snd (hd (cache_items_list b')) = (bno, i)" by (simp add: l)
  have "set (blocks_of b') = set (blocks_of b)" by (simp add: blocks_of_def same)
  then have "obtained bno index i (h, b) (h', b')"
    using hit ent hd by (simp add: obtained_def same f(1) subset_insertI)
  with get show ?thesis by blast
qed

lemma getBlock_fresh:
  assumes "buf_ok h b" "bno \<notin> set (blocks_of b)" "freeItems b = i # is"
  shows "\<exists>s'. getBlock now bno index (h, b) = Inr ((Some i, 1, False), s') \<and> obtained bno index i (h, b) s'"
proof -
  let ?b = "count_request now b"
  have "buf_ok h ?b" by (rule buf_ok_fields [OF assms(1)]) simp_all
  then have ok: "cache_ok h ?b" "dirty_ok h ?b" "index_ok h ?b" by (simp_all add: buf_ok_def)
  have i: "i \<notin> set (items_of b)" "i \<notin> set is" "removeAll i (freeItems ?b) = is"
    "\<not> isDirty (h i)" "itemIndex (h i) = 0"
    using ok assms(3) by (auto simp: cache_ok_def dirty_ok_def index_ok_def removeAll_id)
  obtain h' b' where g: "grab bno index i (miss i h, push_front bno i (?b\<lparr>freeItems := is\<rparr>)) = (h', b')" by force
  have "map_of (cache_items_map ?b) bno = None"
    using lookup_None [OF ok(1)] assms(2) by (simp add: blocks_of_def)
  then have get: "getBlock now bno index (h, b) = Inr ((Some i, 1, False), h', b')"
    using assms(3) g by (simp add: getBlock_def Let_def)
  have en: "buf_ok h' b'" "all_items b' = insert i (all_items ?b)"
    by (rule enter_ok [OF ok, where bno = bno and i = i and new_index = index];
        use i g assms(2) in \<open>simp add: blocks_of_def\<close>)+
  note f = grab_fields [OF g]
  have ent: "(bno, i) \<notin> snd ` set (cache_items_list b)" using i(1) by (force simp: items_of_def)
  have "obtained bno index i (h, b) (h', b')"
    using en assms(2,3) ent
    by (auto simp: obtained_def f push_front_def blocks_of_def all_items_def items_of_def miss_def)
  with get show ?thesis by blast
qed

lemma getBlock_evict:
  assumes "buf_ok h b" "bno \<notin> set (blocks_of b)" "freeItems b = []" "cache_items_list b \<noteq> []"
    "find (\<lambda>e. replaceable h (itm e)) (rev (cache_items_list b)) = Some (n, c, i)"
  shows "\<exists>d s'. getBlock now bno index (h, b) = Inr ((Some i, 1, d), s') \<and> obtained bno index i (h, b) s' \<and>
    c \<notin> set (blocks_of (snd s'))"
proof -
  let ?b = "count_request now b"
  have bok: "buf_ok h ?b" by (rule buf_ok_fields [OF assms(1)]) simp_all
  then have ok: "cache_ok h ?b" "dirty_ok h ?b" "index_ok h ?b" by (simp_all add: buf_ok_def)
  have e: "(n, c, i) \<in> set (cache_items_list ?b)" "replaceable h i"
    using find_SomeD [OF assms(5)] by simp_all
  then have c: "c \<in> set (blocks_of b)" "i \<in> set (items_of b)" by (force simp: blocks_of_def items_of_def)+
  note ev = evict_ok [OF bok e]
  note dr = drop_entry_ok [OF ok(1) e(1)]
  let ?b1 = "drop_entry n c ?b"
  obtain d where v: "find_victim h (rev (cache_items_list ?b)) False = (Some (n, i), d)"
    using find_victim_find [of h "rev (cache_items_list b)" False] assms(5)
    by (cases "find_victim h (rev (cache_items_list b)) False") simp
  obtain h' b' where g: "grab bno index i (miss i h, push_front bno i ?b1) = (h', b')" by force
  have "map_of (cache_items_map ?b) bno = None"
    using lookup_None [OF ok(1)] assms(2) by (simp add: blocks_of_def)
  then have get: "getBlock now bno index (h, b) = Inr ((Some i, 1, d), h', b')"
    using assms(3,4) v erase_node_drop(2) [OF ok(1) e(1)] entry_blockNo [OF ok(1) e(1)] g
    by (simp add: getBlock_def Let_def drop_entry_def list_map_commute)
  have fr: "freeItems ?b1 = []" using assms(3) by (simp add: drop_entry_def)
  have b1: "?b1\<lparr>freeItems := removeAll i (freeItems ?b1)\<rparr> = ?b1" using fr by simp
  have g': "grab bno index i (miss i h, push_front bno i (?b1\<lparr>freeItems := removeAll i (freeItems ?b1)\<rparr>)) = (h', b')"
    using g by (simp add: b1)
  have nb: "bno \<notin> set (blocks_of ?b1)" using assms(2) by (simp add: dr)
  have it: "insert i (set (items_of ?b1)) = insert i (set (items_of ?b))" by (auto simp: dr)
  have ix: "i \<in> set (items_of ?b) \<or> itemIndex (h i) = 0" "blockIndexMap ?b1 = blockIndexMap ?b"
    using c(2) by (simp_all add: drop_entry_def)
  have "set (freeItems ?b1) \<subseteq> set (freeItems ?b)" by (simp add: fr)
  note en = enter_ok [OF ev(1,2) ok(3) nb ev(4,3) it this ix g']
  note f = grab_fields [OF g]
  have "all_items b' = all_items b" using en(2) c(2) assms(3) by (auto simp: all_items_def dr fr)
  moreover have "blocks_of b' = bno # filter (\<lambda>x. x \<noteq> c) (blocks_of b)"
    using dr(3) by (simp add: blocks_of_def f(2) push_front_def)
  moreover have "(bno, i) \<notin> snd ` set (cache_items_list b)" using assms(2) by (force simp: blocks_of_def)
  moreover have "snd ` set (cache_items_list b') \<subseteq> insert (bno, i) (snd ` set (cache_items_list b))"
    by (auto simp: f(2) push_front_def drop_entry_def)
  moreover have "snd x \<in> snd ` set (cache_items_list b')"
    if "x \<in> set (cache_items_list b)" "isDirty (h (itm x))" for x
  proof -
    have en: "entries_ok (cache_items_list b) (next_node b)" using ok(1) by (simp add: cache_ok_def)
    have "x \<noteq> (n, c, i)" using that(2) e(2) by (auto simp: replaceable_def)
    then have "fst x \<noteq> n" using entry_unique(1) [OF en that(1), of "(n, c, i)"] e(1) by auto
    with that(1) show ?thesis by (auto simp: f(2) push_front_def drop_entry_def)
  qed
  ultimately have "obtained bno index i (h, b) (h', b')" "c \<notin> set (blocks_of b')"
    using en(1) c(1) assms(2) by (simp_all add: obtained_def f(1,2) push_front_def miss_def) auto
  with get show ?thesis by fastforce
qed

lemma getBlock_outcome:
  assumes "buf_ok h b" "\<forall>i. select_item bno h b = Hit i \<and> isDirty (h i) \<longrightarrow> itemIndex (h i) = index"
  shows "case select_item bno h b of
      Hit i \<Rightarrow>
        if status (h i) = BLOCK_BUF_LOCKED
        then getBlock now bno index (h, b) = Inr ((Some i, 0, False), h, count_hit (count_request now b))
        else \<exists>s'. getBlock now bno index (h, b) = Inr ((Some i, 1, False), s') \<and> obtained bno index i (h, b) s'
    | Fresh i \<Rightarrow>
        \<exists>s'. getBlock now bno index (h, b) = Inr ((Some i, 1, False), s') \<and> obtained bno index i (h, b) s'
    | Evict i \<Rightarrow> replaceable h i \<and>
        (\<exists>d s'. getBlock now bno index (h, b) = Inr ((Some i, 1, d), s') \<and> obtained bno index i (h, b) s' \<and>
           blockNo (h i) \<notin> set (blocks_of (snd s')))
    | Empty_cache \<Rightarrow> getBlock now bno index (h, b) = Inr ((None, -1, False), h, count_request now b)
    | All_busy \<Rightarrow> getBlock now bno index (h, b) = Inl (Throw ''LRU buffer all dirty'')"
proof -
  let ?L = "cache_items_list b"
  have ok: "cache_ok h b" using assms(1) by (simp add: buf_ok_def)
  have okc: "cache_ok h (count_request now b)"
    using buf_ok_fields [OF assms(1), of "count_request now b"] by (simp add: buf_ok_def)
  show ?thesis
  proof (cases "find (\<lambda>e. blk e = bno) ?L")
    case (Some e)
    then obtain n i where e: "e = (n, bno, i)" "(n, bno, i) \<in> set ?L"
      using find_block(1) [OF ok] by (cases e) auto
    then have "(n, bno, i) \<in> set (cache_items_list (count_request now b))" by simp
    moreover from this have "map_of (cache_items_map (count_request now b)) bno = Some n"
      using lookup_entry [OF okc] by blast
    ultimately have "getBlock now bno index (h, b) = Inr ((Some i, 0, False), h, count_hit (count_request now b))"
      if "status (h i) = BLOCK_BUF_LOCKED"
      using node_at_entry [OF okc] that by (simp add: getBlock_def Let_def)
    then show ?thesis
      using Some e getBlock_hit [OF assms(1) e(2)] assms(2) by (auto simp: select_item_def)
  next
    case None
    then have miss: "bno \<notin> set (blocks_of b)" using find_block(2) [OF ok] by blast
    have look: "map_of (cache_items_map (count_request now b)) bno = None"
      using lookup_None [OF okc] miss by simp
    consider (free) i "is" where "freeItems b = i # is" | (empty) "freeItems b = []" "?L = []"
      | (busy) "freeItems b = []" "?L \<noteq> []" "find (\<lambda>e. replaceable h (itm e)) (rev ?L) = None"
      | (evict) n c i where "freeItems b = []" "?L \<noteq> []" "find (\<lambda>e. replaceable h (itm e)) (rev ?L) = Some (n, c, i)"
      by (metis list.exhaust option.exhaust prod_cases3)
    then show ?thesis
    proof cases
      case free
      then show ?thesis using getBlock_fresh [OF assms(1) miss free] None by (simp add: select_item_def)
    next
      case empty
      then show ?thesis using look None by (simp add: select_item_def getBlock_def Let_def)
    next
      case busy
      then have "fst (find_victim h (rev ?L) False) = None" by (simp add: find_victim_find)
      then show ?thesis using look None busy
        by (cases "find_victim h (rev ?L) False") (simp add: select_item_def getBlock_def Let_def)
    next
      case evict
      have "(n, c, i) \<in> set ?L" "replaceable h i" using find_SomeD [OF evict(3)] by simp_all
      then show ?thesis
        using getBlock_evict [OF assms(1) miss evict] None evict entry_blockNo [OF ok] by (simp add: select_item_def)
    qed
  qed
qed

text \<open>C19: What looking up a block returns. In a consistent cache, a cached block yields its item:
  locked by someone else, the cache is unchanged and the caller is told so; otherwise the caller
  gets the lock and the block becomes the most recently used one. A block that is not cached
  gets the first free item; without free items it replaces the least recently used block that
  is neither locked nor dirty; when there is none the lookup throws. A caller that gets the lock
  sees a locked item that stands for the block and carries the requested index; no other item
  changes, no item is lost, no dirty block leaves the cache, and the cache is consistent again.\<close>

theorem getBlock_spec:
  assumes "buf_ok h b" "\<forall>i. select_item bno h b = Hit i \<and> isDirty (h i) \<longrightarrow> itemIndex (h i) = index"
  shows "case select_item bno h b of
      Hit i \<Rightarrow>
        if status (h i) = BLOCK_BUF_LOCKED
        then getBlock now bno index (h, b) = Inr ((Some i, 0, False), h, count_hit (count_request now b))
        else \<exists>s'. getBlock now bno index (h, b) = Inr ((Some i, 1, False), s') \<and> obtained bno index i (h, b) s'
    | Fresh i \<Rightarrow>
        \<exists>s'. getBlock now bno index (h, b) = Inr ((Some i, 1, False), s') \<and> obtained bno index i (h, b) s'
    | Evict i \<Rightarrow> replaceable h i \<and>
        (\<exists>d s'. getBlock now bno index (h, b) = Inr ((Some i, 1, d), s') \<and> obtained bno index i (h, b) s' \<and>
           blockNo (h i) \<notin> set (blocks_of (snd s')))
    | Empty_cache \<Rightarrow> getBlock now bno index (h, b) = Inr ((None, -1, False), h, count_request now b)
    | All_busy \<Rightarrow> getBlock now bno index (h, b) = Inl (Throw ''LRU buffer all dirty'')"
  using assms by (rule getBlock_outcome)

subsection \<open>Releasing, dirtying, flushing\<close>

text \<open>Changes of an item that the invariants do not look at.\<close>

lemma buf_ok_heap:
  assumes "buf_ok h b" "\<And>j. blockNo (h' j) = blockNo (h j) \<and> isDirty (h' j) = isDirty (h j) \<and> itemIndex (h' j) = itemIndex (h j)"
  shows "buf_ok h' b"
  using assms by (simp add: buf_ok_def cache_ok_def dirty_ok_def index_ok_def)

lemma releaseBlock_ok: "buf_ok h b \<Longrightarrow> buf_ok (snd (releaseBlock i h)) b"
  by (erule buf_ok_heap) (simp add: releaseBlock_def)

lemma fetched_ok: "buf_ok h b \<Longrightarrow> buf_ok (h(i := snd (blockFetchedCallback (h i)))) b"
  by (erule buf_ok_heap) (simp add: blockFetchedCallback_def)

lemma seqno_ok: "buf_ok h b \<Longrightarrow> buf_ok (h(i := snd (setLastFlushBlockReqSeqNo q (h i)))) b"
  by (erule buf_ok_heap) (simp add: setLastFlushBlockReqSeqNo_def)

lemma releaseBlockNo_ok:
  assumes "buf_ok h b"
  shows "\<exists>r h'. releaseBlockNo bno (h, b) = Inr (r, h') \<and> buf_ok h' b"
proof -
  have c: "cache_ok h b" using assms by (simp add: buf_ok_def)
  show ?thesis
  proof (cases "bno \<in> set (blocks_of b)")
    case False
    with getBlockWithoutAccess_miss [OF c] assms show ?thesis by (simp add: releaseBlockNo_def)
  next
    case True
    then obtain n i where "(n, bno, i) \<in> set (cache_items_list b)" by (rule block_entry)
    note hit = getBlockWithoutAccess_hit [OF c this]
    have "buf_ok (h(i := (h i)\<lparr>status := BLOCK_BUF_VALID\<rparr>)) b" by (rule buf_ok_heap [OF assms]) simp
    with hit assms show ?thesis by (simp add: releaseBlockNo_def)
  qed
qed

text \<open>The dirty items as a set; the counter is its size.\<close>

definition dirty_items :: "heap \<Rightarrow> BlockBuffer \<Rightarrow> item set" where
  "dirty_items h b = {i \<in> set (items_of b). isDirty (h i)}"

lemma dirty_items_finite [simp]: "finite (dirty_items h b)"
  by (simp add: dirty_items_def)

lemma set_dirty_ok:
  assumes "buf_ok h b" "i \<in> set (items_of b)" "\<not> isDirty (h i)"
    "b' = b\<lparr>dirtyItemNum := dirtyItemNum b + 1, dirtyIndexMap := set_emplace (itemIndex (h i)) i (dirtyIndexMap b)\<rparr>"
  shows "buf_ok (h(i := (h i)\<lparr>isDirty := True\<rparr>)) b'"
proof -
  let ?h = "h(i := (h i)\<lparr>isDirty := True\<rparr>)"
  have ok: "cache_ok h b" "dirty_ok h b" "index_ok h b" using assms(1) by (simp_all add: buf_ok_def)
  have it: "items_of b' = items_of b" by (simp add: items_of_def assms(4))
  have "i \<notin> set (freeItems b)" using ok(1) assms(2) by (auto simp: cache_ok_def)
  have "{j \<in> set (items_of b). isDirty (?h j)} = insert i {j \<in> set (items_of b). isDirty (h j)}"
    using assms(2) by auto
  then have "card {j \<in> set (items_of b). isDirty (?h j)} = Suc (card {j \<in> set (items_of b). isDirty (h j)})"
    using assms(3) by simp
  with ok(2) \<open>i \<notin> set (freeItems b)\<close> have "dirty_ok ?h b'"
    using assms(2,3) by (auto simp: dirty_ok_def it assms(4))
  moreover have "cache_ok ?h b'" by (rule cache_ok_cong [OF ok(1)]) (simp_all add: assms(4))
  moreover have "index_ok ?h b'" using ok(3) by (simp add: index_ok_def it assms(4))
  ultimately show ?thesis by (simp add: buf_ok_def)
qed

lemma set_clean_ok:
  assumes "buf_ok h b" "i \<in> set (items_of b)" "isDirty (h i)"
    "b' = b\<lparr>dirtyItemNum := dirtyItemNum b - 1, dirtyIndexMap := set_erase (itemIndex (h i)) i (dirtyIndexMap b)\<rparr>"
  shows "buf_ok (h(i := (h i)\<lparr>isDirty := False\<rparr>)) b'" "0 < dirtyItemNum b"
proof -
  let ?h = "h(i := (h i)\<lparr>isDirty := False\<rparr>)"
  have ok: "cache_ok h b" "dirty_ok h b" "index_ok h b" using assms(1) by (simp_all add: buf_ok_def)
  have it: "items_of b' = items_of b" by (simp add: items_of_def assms(4))
  let ?D = "{j \<in> set (items_of b). isDirty (h j)}"
  have D: "finite ?D" "i \<in> ?D" using assms(2,3) by auto
  then have pos: "0 < card ?D" by (auto simp: card_gt_0_iff)
  then show "0 < dirtyItemNum b" using ok(2) by (simp add: dirty_ok_def)
  have "{j \<in> set (items_of b). isDirty (?h j)} = ?D - {i}" by auto
  then have "card {j \<in> set (items_of b). isDirty (?h j)} = card ?D - 1" using D by (simp add: card_Diff_singleton)
  with ok(2) pos have "dirty_ok ?h b'"
    by (auto simp: dirty_ok_def it assms(4) distinct_removeAll)
  moreover have "cache_ok ?h b'" by (rule cache_ok_cong [OF ok(1)]) (simp_all add: assms(4))
  moreover have "index_ok ?h b'" using ok(3) by (simp add: index_ok_def it assms(4))
  ultimately show "buf_ok ?h b'" by (simp add: buf_ok_def)
qed

lemma setItemDirty_ok:
  assumes "buf_ok h b" "i \<in> set (items_of b)"
  shows "\<exists>h' b'. setItemDirty i d (itemIndex (h i)) (h, b) = Inr (isDirty (h i), h', b') \<and> buf_ok h' b' \<and>
    all_items b' = all_items b \<and> isDirty (h' i) = d \<and> (\<forall>j. j \<noteq> i \<longrightarrow> h' j = h j)"
proof (cases "isDirty (h i) = d")
  case True
  then have "h(i := snd (setDirty d (h i))) = h" by (auto simp: setDirty_def fun_eq_iff)
  with True assms(1) show ?thesis by (simp add: setItemDirty_def Let_def)
next
  case False
  have nn: "0 \<le> dirtyItemNum b" using assms(1) by (simp add: buf_ok_def dirty_ok_def)
  show ?thesis
  proof (cases d)
    case True
    with False nn set_dirty_ok [OF assms _ refl] show ?thesis
      by (simp add: setItemDirty_def setDirty_def adjustDirtyItemNum_def Let_def all_items_def)
  next
    case clean: False
    with False have "isDirty (h i)" by simp
    with False clean set_clean_ok [OF assms this refl] show ?thesis
      by (simp add: setItemDirty_def setDirty_def adjustDirtyItemNum_def Let_def all_items_def)
  qed
qed

lemma noted_fields [simp]:
  "cache_items_list (flush_noted k bs b) = cache_items_list b" "cache_items_map (flush_noted k bs b) = cache_items_map b"
  "next_node (flush_noted k bs b) = next_node b" "freeItems (flush_noted k bs b) = freeItems b"
  "dirtyIndexMap (flush_noted k bs b) = dirtyIndexMap b" "dirtyItemNum (flush_noted k bs b) = dirtyItemNum b"
  "blockIndexMap (flush_noted k bs b) = blockIndexMap b" "numFgFlushInflight (flush_noted k bs b) = numFgFlushInflight b"
  by (simp_all add: flush_noted_def Let_def)

lemma flush_all_ok:
  "\<forall>i \<in> set is. isDirty (h i) \<Longrightarrow> flush_all h is acc = Inr (acc @ map (blockNo \<circ> h) is)"
  by (induction "is" arbitrary: acc) simp_all

text \<open>Moving a flushed block to the end of the list.\<close>

lemma requeue_ok:
  assumes "buf_ok h b" "(n, bno, i) \<in> set (cache_items_list b)"
    "b' = b\<lparr>cache_items_list := filter (\<lambda>e. fst e \<noteq> n) (cache_items_list b) @ [(next_node b, bno, i)],
            next_node := next_node b + 1, cache_items_map := AList.update bno (next_node b) (cache_items_map b)\<rparr>"
  shows "buf_ok h b'" "set (items_of b') = set (items_of b)"
proof -
  have ok: "cache_ok h b" "dirty_ok h b" "index_ok h b" using assms(1) by (simp_all add: buf_ok_def)
  note dr = drop_entry_ok [OF ok(1) assms(2)]
  let ?b = "drop_entry n bno b"
  have i: "i \<in> set (items_of b)" using assms(2) by (force simp: items_of_def)
  have nf: "i \<notin> set (freeItems b)" using ok(1) i by (auto simp: cache_ok_def)
  have "cache_ok h b' \<and> set (items_of b') = insert i (set (items_of ?b))"
    using add_entry_ok(1,2) [OF dr(1), of bno i h b'] dr(2,3) entry_blockNo [OF ok(1) assms(2)] nf ok(1)
    by (simp add: assms(3) drop_entry_def update_conv' delete_conv' cache_ok_def [of h b])
  then have c: "cache_ok h b'" and it: "set (items_of b') = set (items_of b)" using dr(2) i by auto
  show "set (items_of b') = set (items_of b)" by (rule it)
  show "buf_ok h b'"
    using c ok(2,3) it by (simp add: buf_ok_def dirty_ok_def index_ok_def assms(3))
qed

lemma flush_done_step:
  assumes "buf_ok h b" "i \<in> dirty_items h b"
  shows "\<exists>b'. flush_done_loop (blockNo (h i) # bnos) (h, b)
      = flush_done_loop bnos (h(i := (h i)\<lparr>isDirty := False\<rparr>), b') \<and>
    buf_ok (h(i := (h i)\<lparr>isDirty := False\<rparr>)) b' \<and> set (items_of b') = set (items_of b) \<and>
    freeItems b' = freeItems b \<and> bgFlushSent b' = bgFlushSent b"
proof -
  have ok: "cache_ok h b" using assms(1) by (simp add: buf_ok_def)
  have i: "i \<in> set (items_of b)" "isDirty (h i)" using assms(2) by (simp_all add: dirty_items_def)
  obtain n where e: "(n, blockNo (h i), i) \<in> set (cache_items_list b)" using item_entry [OF ok i(1)] .
  let ?h = "h(i := (h i)\<lparr>isDirty := False\<rparr>)"
  let ?b = "b\<lparr>dirtyItemNum := dirtyItemNum b - 1, dirtyIndexMap := set_erase (itemIndex (h i)) i (dirtyIndexMap b)\<rparr>"
  note cl = set_clean_ok [OF assms(1) i refl]
  have e': "(n, blockNo (h i), i) \<in> set (cache_items_list ?b)" using e by simp
  note rq = requeue_ok [OF cl(1) e' refl]
  have cb: "cache_ok ?h ?b" using cl(1) by (simp add: buf_ok_def)
  have look: "map_of (cache_items_map b) (blockNo (h i)) = Some n" using lookup_entry [OF ok] e by blast
  have er: "erase_node n ?b = Inr (?b\<lparr>cache_items_list := filter (\<lambda>e. fst e \<noteq> n) (cache_items_list b)\<rparr>)"
    using erase_node_drop(1) [OF cb e'] by simp
  have "flush_done_loop (blockNo (h i) # bnos) (h, b) = flush_done_loop bnos (?h,
      ?b\<lparr>cache_items_list := filter (\<lambda>e. fst e \<noteq> n) (cache_items_list ?b) @ [(next_node ?b, blockNo (h i), i)],
         next_node := next_node ?b + 1,
         cache_items_map := AList.update (blockNo (h i)) (next_node ?b) (cache_items_map ?b)\<rparr>)"
    using getBlockWithoutAccess_hit [OF ok e] i(2) cl(2) look er
    by (simp add: setDirty_def adjustDirtyItemNum_def Let_def push_back_def)
  with rq show ?thesis by fastforce
qed

definition clean_all :: "item list \<Rightarrow> heap \<Rightarrow> heap" where
  "clean_all is h = (\<lambda>j. if j \<in> set is then (h j)\<lparr>isDirty := False\<rparr> else h j)"

lemma flush_done_all:
  assumes "buf_ok h b" "distinct is" "set is \<subseteq> dirty_items h b"
  shows "\<exists>b'. flush_done_loop (map (blockNo \<circ> h) is) (h, b) = Inr (0, clean_all is h, b') \<and>
    buf_ok (clean_all is h) b' \<and> set (items_of b') = set (items_of b) \<and> freeItems b' = freeItems b"
  using assms
proof (induction "is" arbitrary: h b)
  case Nil
  then show ?case by (simp add: clean_all_def)
next
  case (Cons i "is")
  let ?h = "h(i := (h i)\<lparr>isDirty := False\<rparr>)"
  have "i \<in> dirty_items h b" using Cons.prems by simp
  from flush_done_step [OF Cons.prems(1) this, of "map (blockNo \<circ> h) is"] obtain b1 where
    b1: "flush_done_loop (blockNo (h i) # map (blockNo \<circ> h) is) (h, b) = flush_done_loop (map (blockNo \<circ> h) is) (?h, b1)"
    "buf_ok ?h b1" "set (items_of b1) = set (items_of b)" "freeItems b1 = freeItems b" by blast
  have "set is \<subseteq> dirty_items ?h b1" using Cons.prems b1(3) by (auto simp: dirty_items_def)
  moreover have "distinct is" using Cons.prems(2) by simp
  ultimately obtain b' where
    b': "flush_done_loop (map (blockNo \<circ> ?h) is) (?h, b1) = Inr (0, clean_all is ?h, b')"
    "buf_ok (clean_all is ?h) b'" "set (items_of b') = set (items_of b)" "freeItems b' = freeItems b"
    using Cons.IH [OF b1(2), unfolded b1(3,4)] by blast
  have bn: "map (blockNo \<circ> ?h) is = map (blockNo \<circ> h) is" by simp
  have eq: "clean_all is ?h = clean_all (i # is) h"
    using Cons.prems(2) by (auto simp: clean_all_def fun_eq_iff)
  have "flush_done_loop (map (blockNo \<circ> h) (i # is)) (h, b) = Inr (0, clean_all (i # is) h, b')"
    using b1(1) b'(1) by (simp only: bn eq list.map o_apply)
  with b'(2-4) show ?case unfolding eq by blast
qed

text \<open>The block numbers of cached items are distinct.\<close>

lemma blockNo_inj:
  assumes "cache_ok h b" "i \<in> set (items_of b)" "j \<in> set (items_of b)" "blockNo (h i) = blockNo (h j)"
  shows "i = j"
proof -
  have ok: "entries_ok (cache_items_list b) (next_node b)" using assms(1) by (simp add: cache_ok_def)
  obtain n where n: "(n, blockNo (h i), i) \<in> set (cache_items_list b)" using item_entry [OF assms(1,2)] .
  obtain m where m: "(m, blockNo (h j), j) \<in> set (cache_items_list b)" using item_entry [OF assms(1,3)] .
  from entry_unique(2) [OF ok n m] assms(4) show ?thesis by simp
qed

lemma dirty_of_index:
  assumes "buf_ok h b"
  shows "distinct (at_key k (dirtyIndexMap b))"
    "set (at_key k (dirtyIndexMap b)) = {i \<in> dirty_items h b. itemIndex (h i) = k}"
  using assms by (auto simp: buf_ok_def dirty_ok_def dirty_items_def)

lemma doFlushByIndex_ok:
  assumes "buf_ok h b" "k \<noteq> 0" "numFgFlushInflight b < numFgFlushInflightLimit b"
  shows "\<exists>b'. doFlushByIndex k bs (h, b) = Inr ((True, bs @ map (blockNo \<circ> h) (at_key k (dirtyIndexMap b))), b') \<and>
    b' = flush_noted k (bs @ map (blockNo \<circ> h) (at_key k (dirtyIndexMap b))) b"
proof -
  have "flush_all h (at_key k (dirtyIndexMap b)) bs = Inr (bs @ map (blockNo \<circ> h) (at_key k (dirtyIndexMap b)))"
    using dirty_of_index(2) [OF assms(1), of k] by (intro flush_all_ok) (auto simp: dirty_items_def)
  with assms(2,3) show ?thesis
    by (auto simp: doFlushByIndex_def at_key_def split: option.splits)
qed

text \<open>C21: Flushing an inode writes exactly its dirty blocks and leaves it clean. In a consistent
  cache below the limit of flushes in flight, collecting the blocks of an index throws nothing
  and returns each dirty block of the index once and no other; when the flush completes, those
  blocks are clean, every other item is as before, the counter of dirty items has dropped by
  their number and the cache is consistent.\<close>

theorem flush_index_clean:
  assumes "buf_ok h b" "index \<noteq> 0" "numFgFlushInflight b < numFgFlushInflightLimit b" "0 \<le> numFgFlushInflight b"
  shows "\<exists>blocks b1 h' b2. doFlushByIndex index [] (h, b) = Inr ((True, blocks), b1) \<and> distinct blocks \<and>
    set blocks = blockNo ` (h ` {i \<in> dirty_items h b. itemIndex (h i) = index}) \<and>
    doFlushDone blocks (h, addFgFlushInflightNum 1 b1) = Inr (0, h', b2) \<and> buf_ok h' b2 \<and>
    dirty_items h' b2 = {i \<in> dirty_items h b. itemIndex (h i) \<noteq> index} \<and>
    dirtyItemNum b2 = dirtyItemNum b - int (length blocks) \<and> all_items b2 = all_items b \<and>
    (\<forall>j. h' j = (h j)\<lparr>isDirty := isDirty (h' j)\<rparr>)"
proof -
  let ?D = "at_key index (dirtyIndexMap b)"
  note D = dirty_of_index [OF assms(1), of index]
  have ok: "cache_ok h b" using assms(1) by (simp add: buf_ok_def)
  obtain b1 where b1: "doFlushByIndex index [] (h, b) = Inr ((True, map (blockNo \<circ> h) ?D), b1)"
    "b1 = flush_noted index (map (blockNo \<circ> h) ?D) b"
    using doFlushByIndex_ok [OF assms(1-3), of "[]"] by auto
  let ?b = "addFgFlushInflightNum 1 b1"
  have f: "cache_items_list ?b = cache_items_list b" "cache_items_map ?b = cache_items_map b"
    "next_node ?b = next_node b" "freeItems ?b = freeItems b" "dirtyIndexMap ?b = dirtyIndexMap b"
    "dirtyItemNum ?b = dirtyItemNum b" "blockIndexMap ?b = blockIndexMap b" "numFgFlushInflight ?b = numFgFlushInflight b + 1"
    by (subst b1(2), simp add: addFgFlushInflightNum_def)+
  have okb: "buf_ok h ?b" by (rule buf_ok_fields [OF assms(1)]) (simp_all add: f)
  have it: "items_of ?b = items_of b" by (simp add: items_of_def f)
  have sub: "set ?D \<subseteq> dirty_items h ?b" using D(2) by (auto simp: dirty_items_def it)
  obtain b2 where b2: "flush_done_loop (map (blockNo \<circ> h) ?D) (h, ?b) = Inr (0, clean_all ?D h, b2)"
    "buf_ok (clean_all ?D h) b2" "set (items_of b2) = set (items_of b)" "freeItems b2 = freeItems b"
    using flush_done_all [OF okb D(1) sub] it f(4) by auto
  have fdone: "doFlushDone (map (blockNo \<circ> h) ?D) (h, ?b) = Inr (0, clean_all ?D h, b2)"
    using b2(1) assms(4) f(8) by (simp add: doFlushDone_def)
  have dist: "distinct (map (blockNo \<circ> h) ?D)"
    using D blockNo_inj [OF ok] by (auto simp: distinct_map inj_on_def dirty_items_def)
  have dirty: "dirty_items (clean_all ?D h) b2 = {i \<in> dirty_items h b. itemIndex (h i) \<noteq> index}"
    using D(2) b2(3) by (auto simp: dirty_items_def clean_all_def)
  have num: "dirtyItemNum b2 = dirtyItemNum b - int (length ?D)"
  proof -
    have "card (dirty_items h b) = card (dirty_items (clean_all ?D h) b2) + card (set ?D)"
      unfolding dirty D(2) by (subst card_Un_disjoint [symmetric]) (auto intro: arg_cong [of _ _ card])
    moreover have "dirtyItemNum b = int (card (dirty_items h b))"
      "dirtyItemNum b2 = int (card (dirty_items (clean_all ?D h) b2))"
      using assms(1) b2(2) by (simp_all add: buf_ok_def dirty_ok_def dirty_items_def)
    ultimately show ?thesis using D(1) by (simp add: distinct_card)
  qed
  have "set (map (blockNo \<circ> h) ?D) = blockNo ` (h ` {i \<in> dirty_items h b. itemIndex (h i) = index})"
    unfolding D(2) [symmetric] by (simp add: image_comp)
  moreover have "all_items b2 = all_items b" using b2(3,4) by (simp add: all_items_def)
  moreover have "\<forall>j. clean_all ?D h j = (h j)\<lparr>isDirty := isDirty (clean_all ?D h j)\<rparr>"
    by (simp add: clean_all_def)
  ultimately show ?thesis
    using b1(1) dist fdone b2(2) dirty num
    by (intro exI [of _ "map (blockNo \<circ> h) ?D"] exI [of _ b1] exI [of _ "clean_all ?D h"] exI [of _ b2]) simp
qed

subsection \<open>Every reachable cache\<close>

lemma flush_done_loop_ok:
  assumes "buf_ok h b" "flush_done_loop bnos (h, b) = Inr (r, h', b')"
  shows "buf_ok h' b' \<and> all_items b' = all_items b"
  using assms
proof (induction bnos arbitrary: h b)
  case Nil
  then show ?case by simp
next
  case (Cons bno bnos)
  have ok: "cache_ok h b" using Cons.prems(1) by (simp add: buf_ok_def)
  have "bno \<in> set (blocks_of b)"
  proof (rule ccontr)
    assume "bno \<notin> set (blocks_of b)"
    from getBlockWithoutAccess_miss [OF ok this] Cons.prems(2) show False by simp
  qed
  then obtain n i where e: "(n, bno, i) \<in> set (cache_items_list b)" by (rule block_entry)
  have bno: "bno = blockNo (h i)" using entry_blockNo [OF ok e] by simp
  have i: "i \<in> set (items_of b)" using e by (force simp: items_of_def)
  show ?case
  proof (cases "isDirty (h i)")
    case False
    then have "h(i := snd (setDirty False (h i))) = h" by (auto simp: setDirty_def fun_eq_iff)
    with False Cons.prems getBlockWithoutAccess_hit [OF ok e] show ?thesis by simp
  next
    case True
    with i have d: "i \<in> dirty_items h b" by (simp add: dirty_items_def)
    from flush_done_step [OF Cons.prems(1) d, of bnos, folded bno] obtain b1 where
      b1: "flush_done_loop (bno # bnos) (h, b) = flush_done_loop bnos (h(i := (h i)\<lparr>isDirty := False\<rparr>), b1)"
      "buf_ok (h(i := (h i)\<lparr>isDirty := False\<rparr>)) b1" "set (items_of b1) = set (items_of b)" "freeItems b1 = freeItems b"
      by blast
    have "flush_done_loop bnos (h(i := (h i)\<lparr>isDirty := False\<rparr>), b1) = Inr (r, h', b')"
      using b1(1) Cons.prems(2) by (simp only:)
    from Cons.IH [OF b1(2) this] b1(3,4) show ?thesis by (simp add: all_items_def)
  qed
qed

lemma fold_heap: "fold (\<lambda>i h. h(base + i := f i)) xs h j =
    (if j \<in> (+) base ` set xs then f (j - base) else h j)" for h :: "nat \<Rightarrow> 'a"
  by (induction xs arbitrary: h) (auto simp: image_iff)

lemma new_ok:
  assumes "BlockBuffer_new base junk num sz mem report now h = (h', b)"
  shows "buf_ok h' b" "all_items b = {base..<base + unat num}"
proof -
  have b: "cache_items_list b = []" "cache_items_map b = []" "dirtyIndexMap b = []" "blockIndexMap b = []"
    "dirtyItemNum b = 0" "freeItems b = map (\<lambda>i. base + i) [0..<unat num]"
    using assms by (auto simp: BlockBuffer_new_def initMem_def)
  have h': "\<not> isDirty (h' j) \<and> itemIndex (h' j) = 0" if "j \<in> set (freeItems b)" for j
    using that assms
    by (auto simp: b BlockBuffer_new_def initMem_def fold_heap BlockBufferItem_new_def)
  show "buf_ok h' b"
    using h' by (auto simp: buf_ok_def cache_ok_def dirty_ok_def index_ok_def entries_ok_def b items_of_def
        at_key_def distinct_map)
  show "all_items b = {base..<base + unat num}"
    by (auto simp: all_items_def b items_of_def image_iff)
qed

text \<open>
  The operations on one cache. A block that is cached and dirty is looked up under the index it
  is dirty under, and an item is made dirty under its own index; this is what the file system
  does (the inode number for data blocks, 0 for inode sectors and bitmaps).
\<close>

inductive breach :: "item \<Rightarrow> u32 \<Rightarrow> heap \<times> BlockBuffer \<Rightarrow> bool" for base num where
  create: "breach base num (BlockBuffer_new base junk num sz mem report now h)"
| get: "breach base num (h, b) \<Longrightarrow>
    \<forall>i. select_item bno h b = Hit i \<and> isDirty (h i) \<longrightarrow> itemIndex (h i) = index \<Longrightarrow>
    getBlock now bno index (h, b) = Inr (r, s) \<Longrightarrow> breach base num s"
| release: "breach base num (h, b) \<Longrightarrow> breach base num (snd (releaseBlock i h), b)"
| release_no: "breach base num (h, b) \<Longrightarrow> releaseBlockNo bno (h, b) = Inr (rc, h') \<Longrightarrow> breach base num (h', b)"
| fetched: "breach base num (h, b) \<Longrightarrow> breach base num (h(i := snd (blockFetchedCallback (h i))), b)"
| seqno: "breach base num (h, b) \<Longrightarrow> breach base num (h(i := snd (setLastFlushBlockReqSeqNo q (h i))), b)"
| dirty: "breach base num (h, b) \<Longrightarrow> i \<in> set (items_of b) \<Longrightarrow>
    setItemDirty i d (itemIndex (h i)) (h, b) = Inr (old, s) \<Longrightarrow> breach base num s"
| flush: "breach base num (h, b) \<Longrightarrow> doFlushByIndex index bs (h, b) = Inr (r', b') \<Longrightarrow> breach base num (h, b')"
| flush_done: "breach base num (h, b) \<Longrightarrow> doFlushDone bnos (h, b) = Inr (rc, s) \<Longrightarrow> breach base num s"
| in_flight: "breach base num (h, b) \<Longrightarrow> breach base num (h, addFgFlushInflightNum k b)"
| bg_flush: "breach base num (h, b) \<Longrightarrow> breach base num (h, setIfBgFlushInflight x b)"
| wait: "breach base num (h, b) \<Longrightarrow> breach base num (h, addFgFlushWaitIndex k' b)"
| unwait: "breach base num (h, b) \<Longrightarrow> breach base num (h, removeFgFlushWaitIndex k' b)"

definition holds :: "item \<Rightarrow> u32 \<Rightarrow> heap \<times> BlockBuffer \<Rightarrow> bool" where
  "holds base num s \<longleftrightarrow> buf_ok (fst s) (snd s) \<and> all_items (snd s) = {base..<base + unat num}"

lemma holds_fields:
  assumes "holds base num (h, b)" "cache_items_list b' = cache_items_list b" "cache_items_map b' = cache_items_map b"
    "next_node b' = next_node b" "freeItems b' = freeItems b" "dirtyIndexMap b' = dirtyIndexMap b"
    "dirtyItemNum b' = dirtyItemNum b" "blockIndexMap b' = blockIndexMap b"
  shows "holds base num (h, b')"
  using assms buf_ok_fields [of h b b'] by (simp add: holds_def all_items_def items_of_def)

lemma holds_heap:
  assumes "holds base num (h, b)"
    "\<And>j. blockNo (h' j) = blockNo (h j) \<and> isDirty (h' j) = isDirty (h j) \<and> itemIndex (h' j) = itemIndex (h j)"
  shows "holds base num (h', b)"
  using assms(1) buf_ok_heap [of h b h'] assms(2) by (simp add: holds_def)

lemma get_holds:
  assumes "holds base num (h, b)" "getBlock now bno index (h, b) = Inr (r, s)"
    "\<forall>i. select_item bno h b = Hit i \<and> isDirty (h i) \<longrightarrow> itemIndex (h i) = index"
  shows "holds base num s"
proof -
  have ok: "buf_ok h b" using assms(1) by (simp add: holds_def)
  have got: "holds base num s" if "obtained bno index i (h, b) s" for i
    using that assms(1) by (cases s) (simp add: obtained_def holds_def)
  have same: "holds base num (h, count_request now b)" "holds base num (h, count_hit (count_request now b))"
    by (rule holds_fields [OF assms(1)]; simp)+
  from getBlock_outcome [OF ok assms(3), of now] assms(2) got same show ?thesis
    by (auto split: choice.splits if_splits)
qed

lemma flush_cases:
  assumes "doFlushByIndex index bs (h, b) = Inr (r, b')"
  obtains "b' = b" | blocks where "b' = flush_noted index blocks b"
proof (cases "numFgFlushInflight b \<ge> numFgFlushInflightLimit b")
  case True
  with assms that(1) show ?thesis by (simp add: doFlushByIndex_def)
next
  case False
  with assms obtain blocks where "flush_noted index blocks b = b'"
    by (simp add: doFlushByIndex_def res_bind_eq_Inr split del: if_split) blast
  with that(2) show ?thesis by blast
qed

lemma breach_holds: "breach base num s \<Longrightarrow> holds base num s"
proof (induction rule: breach.induct)
  case (create junk sz mem report now h)
  obtain h' b where "BlockBuffer_new base junk num sz mem report now h = (h', b)" by force
  with new_ok [OF this] show ?case by (simp add: holds_def)
next
  case (get h b bno index now r s)
  then show ?case by (blast intro: get_holds)
next
  case (release_no h b bno rc h')
  then show ?case using releaseBlockNo_ok [of h b bno] by (auto simp: holds_def)
next
  case (dirty h b i d old s)
  then show ?case using setItemDirty_ok [of h b i d] by (auto simp: holds_def)
next
  case (flush h b index bs r' b')
  from flush.hyps(2) show ?case
    by (rule flush_cases) (use flush.IH in \<open>simp, auto intro: holds_fields\<close>)
next
  case (flush_done h b bnos rc s)
  then show ?case
    using flush_done_loop_ok [of h b bnos rc "fst s" "snd s"]
    by (cases s) (auto simp: holds_def doFlushDone_def split: if_splits)
next
  case (release h b i)
  then show ?case using releaseBlock_ok by (simp add: holds_def)
next
  case (fetched h b i)
  then show ?case using fetched_ok by (simp add: holds_def)
next
  case (seqno h b i q)
  then show ?case using seqno_ok by (simp add: holds_def)
qed (rule holds_fields, assumption, simp_all add: addFgFlushInflightNum_def setIfBgFlushInflight_def
       addFgFlushWaitIndex_def removeFgFlushWaitIndex_def)+

lemma lookup_nothing:
  assumes "cache_ok h b"
  shows "getBlockWithoutAccess bno b = Inr None \<longleftrightarrow> bno \<notin> set (blocks_of b)"
proof (cases "bno \<in> set (blocks_of b)")
  case True
  then obtain n i where "(n, bno, i) \<in> set (cache_items_list b)" by (rule block_entry)
  from getBlockWithoutAccess_hit [OF assms this] True show ?thesis by simp
qed (simp add: getBlockWithoutAccess_miss [OF assms])

lemma lookup_item:
  assumes "cache_ok h b"
  shows "getBlockWithoutAccess bno b = Inr (Some i) \<longleftrightarrow> i \<in> set (items_of b) \<and> blockNo (h i) = bno"
proof
  assume r: "i \<in> set (items_of b) \<and> blockNo (h i) = bno"
  then obtain n where "(n, blockNo (h i), i) \<in> set (cache_items_list b)" using item_entry [OF assms] by blast
  from getBlockWithoutAccess_hit [OF assms this] r show "getBlockWithoutAccess bno b = Inr (Some i)" by simp
next
  assume l: "getBlockWithoutAccess bno b = Inr (Some i)"
  then have "bno \<in> set (blocks_of b)" using lookup_nothing [OF assms, of bno] by auto
  then obtain n j where e: "(n, bno, j) \<in> set (cache_items_list b)" by (rule block_entry)
  from getBlockWithoutAccess_hit [OF assms e] l have "j = i" by simp
  with e entry_blockNo [OF assms e] show "i \<in> set (items_of b) \<and> blockNo (h i) = bno"
    by (force simp: items_of_def)
qed


text \<open>
  A cache of two items with one dirty block, block 40 of inode 7, on which the properties above
  are applied.
\<close>

definition demo_heap :: heap where
  "demo_heap = (\<lambda>_. BlockBufferItem_new 0 0 0 0)"

definition demo_new :: "heap \<times> BlockBuffer" where
  "demo_new = BlockBuffer_new 0 (\<lambda>_. 0) 2 4096 0 False 0 demo_heap"

definition run :: "('a \<times> 's) res \<Rightarrow> 's \<Rightarrow> 's" where
  "run r s = (case r of Inl _ \<Rightarrow> s | Inr (_, s') \<Rightarrow> s')"

definition demo_got :: "heap \<times> BlockBuffer" where
  "demo_got = run (getBlock 0 40 7 demo_new) demo_new"

definition demo_dirty :: "heap \<times> BlockBuffer" where
  "demo_dirty = run (setItemDirty 0 True 7 demo_got) demo_got"

lemmas demo_defs = demo_dirty_def demo_got_def demo_new_def demo_heap_def run_def BlockBuffer_new_def initMem_def
  BlockBufferItem_new_def getBlock_def count_request_def grab_def miss_def push_front_def setItemDirty_def
  setDirty_def adjustDirtyItemNum_def set_emplace_def at_key_def upt_rec

lemma demo_get: "getBlock 0 40 7 demo_new = Inr ((Some 0, 1, False), demo_got)"
  "select_item 40 (fst demo_new) (snd demo_new) = Fresh 0"
  by (simp_all add: demo_defs select_item_def Let_def)

lemma demo_set: "setItemDirty 0 True 7 demo_got = Inr (False, demo_dirty)"
  "itemIndex (fst demo_got 0) = 7" "0 \<in> set (items_of (snd demo_got))"
  by (simp_all add: demo_defs items_of_def Let_def)

lemma demo_reached: "breach 0 2 demo_new" "breach 0 2 demo_got" "breach 0 2 demo_dirty"
proof -
  show n: "breach 0 2 demo_new" unfolding demo_new_def by (rule breach.create)
  then have n': "breach 0 2 (fst demo_new, snd demo_new)" by simp
  have "\<forall>i. select_item 40 (fst demo_new) (snd demo_new) = Hit i \<and> isDirty (fst demo_new i) \<longrightarrow> itemIndex (fst demo_new i) = 7"
    by (simp add: demo_get)
  from breach.get [OF n' this] demo_get(1) show g: "breach 0 2 demo_got" by (metis prod.collapse)
  then have g': "breach 0 2 (fst demo_got, snd demo_got)" by simp
  from breach.dirty [OF g' demo_set(3)] demo_set(1,2) show "breach 0 2 demo_dirty" by (metis prod.collapse)
qed

lemma demo_ok: "buf_ok (fst demo_new) (snd demo_new)" "buf_ok (fst demo_dirty) (snd demo_dirty)"
  using demo_reached breach_holds holds_def by blast+

theorem getBlock_spec_witness:
  "\<exists>s'. getBlock 0 40 7 demo_new = Inr ((Some 0, 1, False), s') \<and> obtained 40 7 0 demo_new s'"
proof -
  have "\<forall>i. select_item 40 (fst demo_new) (snd demo_new) = Hit i \<and> isDirty (fst demo_new i) \<longrightarrow>
      itemIndex (fst demo_new i) = 7"
    by (simp add: demo_get)
  from getBlock_spec [OF demo_ok(1) this, of 0] show ?thesis by (simp add: demo_get(2))
qed

theorem flush_index_clean_witness:
  "\<exists>blocks b1 h' b2. doFlushByIndex 7 [] demo_dirty = Inr ((True, blocks), b1) \<and> set blocks = {40} \<and>
    doFlushDone blocks (fst demo_dirty, addFgFlushInflightNum 1 b1) = Inr (0, h', b2) \<and> dirty_items h' b2 = {}"
proof -
  have "(7 :: u32) \<noteq> 0" "numFgFlushInflight (snd demo_dirty) < numFgFlushInflightLimit (snd demo_dirty)"
    "0 \<le> numFgFlushInflight (snd demo_dirty)"
    "{i \<in> dirty_items (fst demo_dirty) (snd demo_dirty). itemIndex (fst demo_dirty i) = 7} = {0}"
    "{i \<in> dirty_items (fst demo_dirty) (snd demo_dirty). itemIndex (fst demo_dirty i) \<noteq> 7} = {}"
    "blockNo (fst demo_dirty 0) = 40"
    by (auto simp: demo_defs dirty_items_def items_of_def Let_def)
  with flush_index_clean [OF demo_ok(2), of 7] show ?thesis by simp blast
qed


end
