(* ===== verification/Ufs_BufferMove.thy ===== *)
theory Ufs_BufferMove
  imports Ufs_BufferProps
begin

text \<open>
  Cached blocks that change hands: when an inode moves to another worker, the items of its blocks
  leave one cache (\<open>splitBufferItemsByIndex\<close>) and enter another (\<open>installBufferItemsOfIndex\<close>);
  when an inode is removed, its items go back to the free list
  (\<open>releaseUnlinkedInodeDirtyBlocks\<close>), which leaves a stale index behind.
\<close>

subsection \<open>Leaving a cache\<close>

lemma split_item_ok:
  assumes "cache_ok h b" "i \<in> set (items_of b)" "status (h i) \<noteq> BLOCK_BUF_LOCKED"
  shows "\<exists>n. split_item h i b = Inr (drop_entry n (blockNo (h i)) b) \<and>
    (n, blockNo (h i), i) \<in> set (cache_items_list b)"
proof -
  obtain n where e: "(n, blockNo (h i), i) \<in> set (cache_items_list b)" using item_entry [OF assms(1,2)] .
  have "map_of (cache_items_map b) (blockNo (h i)) = Some n" using lookup_entry [OF assms(1)] e by blast
  with node_at_entry [OF assms(1) e] erase_node_drop(1) [OF assms(1) e] assms(3)
  have "split_item h i b = Inr (drop_entry n (blockNo (h i)) b)"
    by (simp add: split_item_def drop_entry_def)
  with e show ?thesis by blast
qed

text \<open>What the rest of a cache keeps while entries come and go.\<close>

definition same_rest :: "BlockBuffer \<Rightarrow> BlockBuffer \<Rightarrow> bool" where
  "same_rest b b' \<longleftrightarrow> freeItems b' = freeItems b \<and> dirtyIndexMap b' = dirtyIndexMap b \<and>
     dirtyItemNum b' = dirtyItemNum b \<and> blockIndexMap b' = blockIndexMap b"

lemma split_items_ok:
  assumes "cache_ok h b" "distinct s" "set s \<subseteq> set (items_of b)" "\<forall>i \<in> set s. status (h i) \<noteq> BLOCK_BUF_LOCKED"
  shows "\<exists>b'. fold_res (split_item h) s b = Inr b' \<and> cache_ok h b' \<and>
    set (items_of b') = set (items_of b) - set s \<and> same_rest b b'"
  using assms
proof (induction s arbitrary: b)
  case Nil
  then show ?case by (simp add: same_rest_def)
next
  case (Cons i s)
  then have i: "i \<in> set (items_of b)" "status (h i) \<noteq> BLOCK_BUF_LOCKED" by simp_all
  obtain n where n: "split_item h i b = Inr (drop_entry n (blockNo (h i)) b)"
    "(n, blockNo (h i), i) \<in> set (cache_items_list b)"
    using split_item_ok [OF Cons.prems(1) i] by blast
  let ?b = "drop_entry n (blockNo (h i)) b"
  note dr = drop_entry_ok [OF Cons.prems(1) n(2)]
  have "set s \<subseteq> set (items_of ?b)" "distinct s" "\<forall>i \<in> set s. status (h i) \<noteq> BLOCK_BUF_LOCKED"
    using Cons.prems by (auto simp: dr(2))
  with Cons.IH [OF dr(1)] obtain b' where b': "fold_res (split_item h) s ?b = Inr b'" "cache_ok h b'"
    "set (items_of b') = set (items_of ?b) - set s" "same_rest ?b b'" by blast
  have "same_rest b b'" using b'(4) by (simp add: same_rest_def drop_entry_def)
  moreover have "set (items_of b') = set (items_of b) - set (i # s)" using b'(3) by (auto simp: dr(2))
  moreover have "fold_res (split_item h) (i # s) b = Inr b'" using n(1) b'(1) by simp
  ultimately show ?case using b'(2) by blast
qed

lemma card_dirty_split:
  assumes "buf_ok h b"
  shows "dirtyItemNum b = int (length (at_key k (dirtyIndexMap b))) + int (card {i \<in> dirty_items h b. itemIndex (h i) \<noteq> k})"
proof -
  note D = dirty_of_index [OF assms, of k]
  have "card (dirty_items h b) = card (set (at_key k (dirtyIndexMap b))) + card {i \<in> dirty_items h b. itemIndex (h i) \<noteq> k}"
    unfolding D(2) by (subst card_Un_disjoint [symmetric]) (auto intro: arg_cong [of _ _ card])
  then show ?thesis
    using assms D(1) by (simp add: buf_ok_def dirty_ok_def dirty_items_def distinct_card)
qed

definition undirty :: "u32 \<Rightarrow> BlockBuffer \<Rightarrow> BlockBuffer" where
  "undirty k b = b\<lparr>dirtyItemNum := dirtyItemNum b - int (length (at_key k (dirtyIndexMap b))),
     dirtyIndexMap := AList.delete k (dirtyIndexMap b)\<rparr>"

lemma split_prepare:
  assumes "buf_ok h b"
  shows "(case map_of (dirtyIndexMap b) k of
            None \<Rightarrow> Inr b
          | Some d \<Rightarrow> res_bind (adjustDirtyItemNum (- int (length d)) b) (\<lambda>b1.
              Inr (b1\<lparr>dirtyIndexMap := AList.delete k (dirtyIndexMap b1)\<rparr>))) = Inr (undirty k b)"
proof (cases "map_of (dirtyIndexMap b) k")
  case None
  then have "at_key k (dirtyIndexMap b) = []" "AList.delete k (dirtyIndexMap b) = dirtyIndexMap b"
    by (simp_all add: at_key_def delete_id map_of_eq_None_iff [symmetric])
  with None show ?thesis by (simp add: undirty_def)
next
  case (Some d)
  then have "at_key k (dirtyIndexMap b) = d" by (simp add: at_key_def)
  with Some card_dirty_split [OF assms, of k] show ?thesis
    by (simp add: undirty_def adjustDirtyItemNum_def)
qed

lemma split_ok:
  assumes "buf_ok h b" "map_of (blockIndexMap b) k = Some s" "\<forall>i \<in> set s. status (h i) \<noteq> BLOCK_BUF_LOCKED"
    "k \<noteq> 0"
  shows "\<exists>b'. splitBufferItemsByIndex k xs (h, b) = Inr ((0, s), b') \<and> buf_ok h b' \<and>
    set (items_of b') = set (items_of b) - set s \<and> freeItems b' = freeItems b \<and>
    dirtyItemNum b' = dirtyItemNum b - int (length (at_key k (dirtyIndexMap b)))"
proof -
  have ok: "cache_ok h b" "dirty_ok h b" "index_ok h b" using assms(1) by (simp_all add: buf_ok_def)
  have "at_key k (blockIndexMap b) = s" using assms(2) by (simp add: at_key_def)
  then have s: "distinct s" "set s = {i \<in> set (items_of b). itemIndex (h i) = k \<and> k \<noteq> 0}"
    using ok(3) unfolding index_ok_def by auto
  have cu: "cache_ok h (undirty k b)" by (rule cache_ok_cong [OF ok(1)]) (simp_all add: undirty_def)
  have "set s \<subseteq> set (items_of (undirty k b))" using s(2) by (auto simp: undirty_def)
  from split_items_ok [OF cu s(1) this assms(3)] obtain b2 where
    b2: "fold_res (split_item h) s (undirty k b) = Inr b2" "cache_ok h b2"
      "set (items_of b2) = set (items_of b) - set s" "same_rest (undirty k b) b2"
    by (auto simp: undirty_def)
  let ?b = "b2\<lparr>blockIndexMap := AList.delete k (blockIndexMap b2)\<rparr>"
  have f: "freeItems ?b = freeItems b" "dirtyIndexMap ?b = AList.delete k (dirtyIndexMap b)"
    "dirtyItemNum ?b = dirtyItemNum b - int (length (at_key k (dirtyIndexMap b)))"
    "blockIndexMap ?b = AList.delete k (blockIndexMap b)"
    using b2(4) by (simp_all add: same_rest_def undirty_def)
  have it: "set (items_of ?b) = set (items_of b) - set s" using b2(3) by simp
  have "splitBufferItemsByIndex k xs (h, b) = Inr ((0, s), ?b)"
    using assms(2) split_prepare [OF assms(1)] b2(1) by (simp add: splitBufferItemsByIndex_def)
  moreover have "cache_ok h ?b" by (rule cache_ok_cong [OF b2(2)]) simp_all
  moreover have "index_ok h ?b" using ok(3) unfolding index_ok_def it f by (auto simp: s(2))
  moreover have "dirty_ok h ?b"
  proof -
    have "{i \<in> set (items_of ?b). isDirty (h i)} = {i \<in> dirty_items h b. itemIndex (h i) \<noteq> k}"
      unfolding it by (auto simp: s(2) dirty_items_def assms(4))
    then show ?thesis
      using ok(2) card_dirty_split [OF assms(1), of k] unfolding dirty_ok_def it f by (auto simp: s(2) assms(4))
  qed
  ultimately show ?thesis using it f by (auto simp: buf_ok_def)
qed

subsection \<open>Entering a cache\<close>

text \<open>What the caller of \<open>installBufferItemsOfIndex\<close> provides: items the cache does not know,
  for blocks it does not hold.\<close>

definition foreign :: "heap \<Rightarrow> item list \<Rightarrow> BlockBuffer \<Rightarrow> bool" where
  "foreign h s b \<longleftrightarrow> distinct s \<and> inj_on (blockNo \<circ> h) (set s) \<and> set s \<inter> all_items b = {} \<and>
     (blockNo \<circ> h) ` set s \<inter> set (blocks_of b) = {}"

lemma install_items_ok:
  assumes "cache_ok h b" "foreign h s b"
  shows "cache_ok h (fold (install_item h) s b) \<and>
    set (items_of (fold (install_item h) s b)) = set (items_of b) \<union> set s \<and>
    same_rest b (fold (install_item h) s b)"
  using assms
proof (induction s arbitrary: b)
  case Nil
  then show ?case by (simp add: same_rest_def)
next
  case (Cons i s)
  let ?b = "install_item h i b"
  have i: "i \<notin> set (items_of b)" "blockNo (h i) \<notin> set (blocks_of b)" "i \<notin> set (freeItems b)"
    using Cons.prems(2) by (auto simp: foreign_def all_items_def)
  have l: "cache_items_list ?b = (next_node b, blockNo (h i), i) # cache_items_list b"
    "next_node ?b = next_node b + 1" "freeItems ?b = freeItems b"
    "map_of (cache_items_map ?b) = (map_of (cache_items_map b))(blockNo (h i) \<mapsto> next_node b)"
    by (simp_all add: install_item_def push_front_def Let_def update_conv')
  have df: "distinct (freeItems ?b)" "set (freeItems ?b) \<subseteq> set (freeItems b)" "i \<notin> set (freeItems ?b)"
    using Cons.prems(1) i(3) by (simp_all add: l cache_ok_def)
  have b: "cache_ok h ?b" "set (items_of ?b) = insert i (set (items_of b))"
    "set (blocks_of ?b) = insert (blockNo (h i)) (set (blocks_of b))"
    using add_entry_ok [OF Cons.prems(1) i(2,1) refl refl _ l(2,4) df] l(1) by simp_all
  have "foreign h s ?b"
    using Cons.prems(2) b(2,3) by (auto simp: foreign_def all_items_def l(3) inj_on_def)
  note IH = Cons.IH [OF b(1) this]
  have "same_rest b ?b" by (simp add: same_rest_def install_item_def push_front_def Let_def)
  with IH have "same_rest b (fold (install_item h) s ?b)" by (simp add: same_rest_def)
  with IH show ?case by (simp add: b(2))
qed

text \<open>The accounting of a cache that has taken in the items \<open>s\<close> of index \<open>k\<close>.\<close>

lemma index_ok_enter:
  assumes "index_ok h b" "k \<noteq> 0" "\<forall>i \<in> set s. itemIndex (h i) = k"
    "set (items_of b') = set (items_of b) \<union> set s" "freeItems b' = freeItems b"
    "blockIndexMap b' = AList.update k (fold List.insert s (at_key k (blockIndexMap b))) (blockIndexMap b)"
  shows "index_ok h b'"
proof -
  have o: "distinct (at_key k' (blockIndexMap b))"
    "i \<in> set (at_key k' (blockIndexMap b)) \<longleftrightarrow> i \<in> set (items_of b) \<and> itemIndex (h i) = k' \<and> k' \<noteq> 0" for i k'
    using assms(1) by (simp_all add: index_ok_def)
  have "i \<in> set (at_key k' (blockIndexMap b')) \<longleftrightarrow> i \<in> set (items_of b') \<and> itemIndex (h i) = k' \<and> k' \<noteq> 0" for i k'
    using assms(2,3) by (auto simp: assms(4,6) set_fold_insert o(2))
  then show ?thesis
    using assms(1) o(1) by (simp add: index_ok_def assms(5)) (simp add: assms(6) set_fold_insert)
qed

lemma dirty_ok_enter:
  assumes "dirty_ok h b" "distinct s" "\<forall>i \<in> set s. itemIndex (h i) = k" "set s \<inter> set (items_of b) = {}"
    "map_of (dirtyIndexMap b) k = None" "D = filter (\<lambda>i. isDirty (h i)) s"
    "set (items_of b') = set (items_of b) \<union> set s" "freeItems b' = freeItems b"
    "dirtyItemNum b' = dirtyItemNum b + int (length D)"
    "dirtyIndexMap b' = (if D = [] then dirtyIndexMap b else AList.update k D (dirtyIndexMap b))"
  shows "dirty_ok h b'"
proof -
  have empty: "at_key k (dirtyIndexMap b) = []" using assms(5) by (simp add: at_key_def)
  have o: "distinct (at_key k' (dirtyIndexMap b))"
    "i \<in> set (at_key k' (dirtyIndexMap b)) \<longleftrightarrow> i \<in> set (items_of b) \<and> isDirty (h i) \<and> itemIndex (h i) = k'" for i k'
    using assms(1) by (simp_all add: dirty_ok_def)
  have D: "distinct D" "set D = {i \<in> set s. isDirty (h i)}" using assms(2,6) by simp_all
  have ak: "at_key k' (dirtyIndexMap b') = (if k' = k then D else at_key k' (dirtyIndexMap b))" for k'
    using empty by (simp add: assms(10))
  have "i \<in> set (at_key k' (dirtyIndexMap b')) \<longleftrightarrow> i \<in> set (items_of b') \<and> isDirty (h i) \<and> itemIndex (h i) = k'" for i k'
  proof (cases "k' = k")
    case True
    have "\<not> (i \<in> set (items_of b) \<and> isDirty (h i) \<and> itemIndex (h i) = k)" using o(2) [of i k] empty by simp
    with True show ?thesis using assms(3) by (auto simp: ak D(2) assms(7))
  next
    case False
    with assms(3) show ?thesis by (auto simp: ak o(2) assms(7))
  qed
  moreover have "{i \<in> set (items_of b'). isDirty (h i)} = {i \<in> set (items_of b). isDirty (h i)} \<union> set D"
    by (auto simp: assms(7) D(2))
  then have "card {i \<in> set (items_of b'). isDirty (h i)} = card {i \<in> set (items_of b). isDirty (h i)} + card (set D)"
    using assms(4) D(2) by (simp only:) (rule card_Un_disjoint; auto)
  moreover have "distinct (at_key k' (dirtyIndexMap b'))" for k' using o(1) D(1) by (simp add: ak)
  ultimately show ?thesis
    using assms(1) D(1) by (simp add: dirty_ok_def assms(8,9) distinct_card)
qed

lemma install_ok:
  assumes "buf_ok h b" "foreign h s b" "s \<noteq> []" "k \<noteq> 0" "\<forall>i \<in> set s. itemIndex (h i) = k"
    "map_of (dirtyIndexMap b) k = None"
  shows "\<exists>b'. installBufferItemsOfIndex k s (h, b) = Inr (0, b') \<and> buf_ok h b' \<and>
    set (items_of b') = set (items_of b) \<union> set s \<and> freeItems b' = freeItems b \<and>
    dirtyItemNum b' = dirtyItemNum b + int (length (filter (\<lambda>i. isDirty (h i)) s))"
proof -
  have ok: "cache_ok h b" "dirty_ok h b" "index_ok h b" using assms(1) by (simp_all add: buf_ok_def)
  let ?D = "filter (\<lambda>i. isDirty (h i)) s"
  let ?b1 = "b\<lparr>blockIndexMap := AList.update k (fold List.insert s (at_key k (blockIndexMap b))) (blockIndexMap b)\<rparr>"
  have c1: "cache_ok h ?b1" by (rule cache_ok_cong [OF ok(1)]) simp_all
  have f1: "foreign h s ?b1" using assms(2) by (simp add: foreign_def all_items_def blocks_of_def)
  obtain b2 where b2_def: "b2 = fold (install_item h) s ?b1" by simp
  have b2: "cache_ok h b2" "set (items_of b2) = set (items_of b) \<union> set s" "same_rest ?b1 b2"
    using install_items_ok [OF c1 f1] by (simp_all add: b2_def)
  define b' where "b' = b2\<lparr>dirtyItemNum := dirtyItemNum b + int (length ?D),
                dirtyIndexMap := (if ?D = [] then dirtyIndexMap b else AList.update k ?D (dirtyIndexMap b))\<rparr>"
  have f2: "dirtyIndexMap b2 = dirtyIndexMap b" "dirtyItemNum b2 = dirtyItemNum b" using b2(3) by (simp_all add: same_rest_def)
  have f: "freeItems b' = freeItems b" "blockIndexMap b' = blockIndexMap ?b1" "set (items_of b') = set (items_of b) \<union> set s"
    "dirtyItemNum b' = dirtyItemNum b + int (length ?D)"
    "dirtyIndexMap b' = (if ?D = [] then dirtyIndexMap b else AList.update k ?D (dirtyIndexMap b))"
    using b2(2,3) by (simp_all add: same_rest_def b'_def)
  have nn: "0 \<le> dirtyItemNum b" using ok(2) by (simp add: dirty_ok_def)
  have res: "installBufferItemsOfIndex k s (h, b) = Inr (0, b')"
  proof (cases "?D = []")
    case True
    then have "b' = b2" using f2 by (simp add: b'_def)
    with True assms(3) show ?thesis by (simp add: installBufferItemsOfIndex_def Let_def b2_def)
  next
    case False
    have "b2\<lparr>dirtyIndexMap := m, dirtyItemNum := n\<rparr> = b2\<lparr>dirtyItemNum := n, dirtyIndexMap := m\<rparr>" for m n
      by (cases b2) simp
    with False assms(3,6) f2 nn show ?thesis
      by (simp add: installBufferItemsOfIndex_def Let_def b2_def [symmetric] adjustDirtyItemNum_def b'_def)
  qed
  have "index_ok h b'" by (rule index_ok_enter [OF ok(3) assms(4,5)]) (simp_all add: f)
  moreover have "dirty_ok h b'"
    by (rule dirty_ok_enter [OF ok(2) _ assms(5) _ assms(6) refl])
       (use assms(2) f in \<open>auto simp: foreign_def all_items_def\<close>)
  moreover have "cache_ok h b'" by (rule cache_ok_cong [OF b2(1)]) (simp_all add: b'_def)
  ultimately show ?thesis using res f by (simp add: buf_ok_def)
qed

text \<open>C20: A moving inode takes all its cached blocks along and loses no dirty one. Given two
  consistent caches without common items, an inode whose items in the first cache are not
  locked, and a second cache that holds none of its blocks and no dirty set for it: splitting
  returns all items of the inode, installing them succeeds, both caches are consistent
  afterwards, every other item stays where it was, each block of the inode is found in the
  second cache with the same item and no longer in the first, the total count of dirty items is
  kept, and the dirty blocks of the inode that a flush would write are the same as before.\<close>

theorem migrate_items:
  assumes "buf_ok h A" "buf_ok h B" "k \<noteq> 0" "map_of (blockIndexMap A) k = Some s" "s \<noteq> []"
    "\<forall>i \<in> set s. status (h i) \<noteq> BLOCK_BUF_LOCKED" "all_items A \<inter> all_items B = {}"
    "\<forall>i \<in> set s. blockNo (h i) \<notin> set (blocks_of B)" "map_of (dirtyIndexMap B) k = None"
  shows "\<exists>A' B'. splitBufferItemsByIndex k [] (h, A) = Inr ((0, s), A') \<and>
    installBufferItemsOfIndex k s (h, B) = Inr (0, B') \<and> buf_ok h A' \<and> buf_ok h B' \<and>
    set (items_of A') = {i \<in> set (items_of A). itemIndex (h i) \<noteq> k} \<and>
    set (items_of B') = set (items_of B) \<union> {i \<in> set (items_of A). itemIndex (h i) = k} \<and>
    (\<forall>i \<in> set s. getBlockWithoutAccess (blockNo (h i)) B' = Inr (Some i) \<and>
                 getBlockWithoutAccess (blockNo (h i)) A' = Inr None) \<and>
    dirtyItemNum A' + dirtyItemNum B' = dirtyItemNum A + dirtyItemNum B \<and>
    set (at_key k (dirtyIndexMap B')) = set (at_key k (dirtyIndexMap A))"
proof -
  have cA: "cache_ok h A" using assms(1) by (simp add: buf_ok_def)
  have "at_key k (blockIndexMap A) = s" using assms(4) by (simp add: at_key_def)
  then have s: "distinct s" "set s = {i \<in> set (items_of A). itemIndex (h i) = k}"
    using assms(1,3) unfolding buf_ok_def index_ok_def by auto
  have fo: "foreign h s B"
    using s assms(7,8) blockNo_inj [OF cA] by (auto simp: foreign_def inj_on_def all_items_def)
  have ix: "\<forall>i \<in> set s. itemIndex (h i) = k" using s(2) by blast
  obtain A' where A': "splitBufferItemsByIndex k [] (h, A) = Inr ((0, s), A')" "buf_ok h A'"
    "set (items_of A') = set (items_of A) - set s"
    "dirtyItemNum A' = dirtyItemNum A - int (length (at_key k (dirtyIndexMap A)))"
    using split_ok [OF assms(1,4,6,3), of "[]"] by blast
  obtain B' where B': "installBufferItemsOfIndex k s (h, B) = Inr (0, B')" "buf_ok h B'"
    "set (items_of B') = set (items_of B) \<union> set s"
    "dirtyItemNum B' = dirtyItemNum B + int (length (filter (\<lambda>i. isDirty (h i)) s))"
    using install_ok [OF assms(2) fo assms(5,3) ix assms(9)] by blast
  have ca: "cache_ok h A'" "cache_ok h B'" using A'(2) B'(2) by (simp_all add: buf_ok_def)
  note DA = dirty_of_index [OF assms(1), of k]
  have "set (filter (\<lambda>i. isDirty (h i)) s) = set (at_key k (dirtyIndexMap A))"
    using DA(2) s(2) by (auto simp: dirty_items_def)
  then have "length (filter (\<lambda>i. isDirty (h i)) s) = length (at_key k (dirtyIndexMap A))"
    using DA(1) s(1) by (metis distinct_card distinct_filter)
  then have num: "dirtyItemNum A' + dirtyItemNum B' = dirtyItemNum A + dirtyItemNum B" using A'(4) B'(4) by simp
  have "\<not> (i \<in> dirty_items h B \<and> itemIndex (h i) = k)" for i
    using dirty_of_index(2) [OF assms(2), of k] assms(9) by (simp add: at_key_def set_eq_iff)
  then have dk: "set (at_key k (dirtyIndexMap B')) = set (at_key k (dirtyIndexMap A))"
    unfolding DA(2) dirty_of_index(2) [OF B'(2)] by (auto simp: dirty_items_def B'(3) s(2))
  have "getBlockWithoutAccess (blockNo (h i)) B' = Inr (Some i) \<and> getBlockWithoutAccess (blockNo (h i)) A' = Inr None"
    if i: "i \<in> set s" for i
  proof -
    have "blockNo (h i) \<notin> set (blocks_of A')"
    proof
      assume "blockNo (h i) \<in> set (blocks_of A')"
      then obtain n j where j: "(n, blockNo (h i), j) \<in> set (cache_items_list A')" by (rule block_entry)
      have "j \<in> set (items_of A) - set s" using j A'(3) by (force simp: items_of_def)
      moreover have "blockNo (h j) = blockNo (h i)" using entry_blockNo [OF ca(1) j] .
      ultimately show False using blockNo_inj [OF cA, of j i] i s(2) by auto
    qed
    then show ?thesis using lookup_nothing [OF ca(1)] lookup_item [OF ca(2)] i by (simp add: B'(3))
  qed
  then show ?thesis using A'(1-3) B'(1-3) num dk s(2) by (intro exI [of _ A'] exI [of _ B']) auto
qed

definition demo_unlocked :: heap where
  "demo_unlocked = snd (releaseBlock 0 (fst demo_dirty))"

definition demo_other :: BlockBuffer where
  "demo_other = snd (BlockBuffer_new 2 (\<lambda>_. 0) 2 4096 0 False 0 demo_heap)"

theorem migrate_items_witness:
  "\<exists>A' B'. splitBufferItemsByIndex 7 [] (demo_unlocked, snd demo_dirty) = Inr ((0, [0]), A') \<and>
    installBufferItemsOfIndex 7 [0] (demo_unlocked, demo_other) = Inr (0, B') \<and>
    getBlockWithoutAccess 40 B' = Inr (Some 0) \<and> getBlockWithoutAccess 40 A' = Inr None"
proof -
  have A: "buf_ok demo_unlocked (snd demo_dirty)"
    unfolding demo_unlocked_def by (rule releaseBlock_ok [OF demo_ok(2)])
  have B: "buf_ok demo_unlocked demo_other"
    by (auto simp: demo_other_def demo_unlocked_def releaseBlock_def demo_defs buf_ok_def cache_ok_def dirty_ok_def
        index_ok_def entries_ok_def items_of_def Let_def)
  have "map_of (blockIndexMap (snd demo_dirty)) 7 = Some [0]" "\<forall>i \<in> set [0]. status (demo_unlocked i) \<noteq> BLOCK_BUF_LOCKED"
    "all_items (snd demo_dirty) \<inter> all_items demo_other = {}"
    "\<forall>i \<in> set [0]. blockNo (demo_unlocked i) \<notin> set (blocks_of demo_other)"
    "map_of (dirtyIndexMap demo_other) 7 = None" "blockNo (demo_unlocked 0) = 40"
    by (simp_all add: demo_other_def demo_unlocked_def releaseBlock_def demo_defs all_items_def items_of_def
        blocks_of_def Let_def)
  with migrate_items [OF A B, of 7 "[0]"] show ?thesis by simp blast
qed

subsection \<open>Removed inodes\<close>

lemma clean_all_simps: "clean_all [] h = h" "clean_all s (h(i := (h i)\<lparr>isDirty := False\<rparr>)) = clean_all (i # s) h"
  "blockNo (clean_all s h j) = blockNo (h j)" "itemIndex (clean_all s h j) = itemIndex (h j)"
  "isDirty (clean_all s h j) \<longleftrightarrow> isDirty (h j) \<and> j \<notin> set s"
  by (auto simp: clean_all_def fun_eq_iff)

text \<open>One item goes back to the free list.\<close>

lemma unlink_item_ok:
  assumes "cache_ok h b" "i \<in> set (items_of b)" "dirtyItemNum b = int (card (dirty_items h b))"
  shows "\<exists>b'. unlink_item i (n, h, b) = Inr (n + (if isDirty (h i) then 1 else 0), h(i := (h i)\<lparr>isDirty := False\<rparr>), b') \<and>
    cache_ok (h(i := (h i)\<lparr>isDirty := False\<rparr>)) b' \<and> set (items_of b') = set (items_of b) - {i} \<and>
    freeItems b' = freeItems b @ [i] \<and> dirtyItemNum b' = int (card (dirty_items (h(i := (h i)\<lparr>isDirty := False\<rparr>)) b')) \<and>
    dirtyIndexMap b' = dirtyIndexMap b \<and> blockIndexMap b' = blockIndexMap b"
proof -
  let ?h = "h(i := (h i)\<lparr>isDirty := False\<rparr>)"
  obtain nd where e: "(nd, blockNo (h i), i) \<in> set (cache_items_list b)" using item_entry [OF assms(1,2)] .
  have look: "map_of (cache_items_map b) (blockNo (h i)) = Some nd" using lookup_entry [OF assms(1)] e by blast
  define m where "m = (if isDirty (h i) then dirtyItemNum b - 1 else dirtyItemNum b)"
  define b' where "b' = (drop_entry nd (blockNo (h i)) b)\<lparr>dirtyItemNum := m, freeItems := freeItems b @ [i]\<rparr>"
  note dr = drop_entry_ok [OF assms(1) e]
  have it: "items_of b' = filter (\<lambda>j. j \<noteq> i) (items_of b)" using dr(2) by (simp add: b'_def)
  have D: "dirty_items ?h b' = dirty_items h b - {i}" by (auto simp: dirty_items_def it)
  have pos: "0 < card (dirty_items h b)" if "isDirty (h i)"
    using that assms(2) by (auto simp: card_gt_0_iff dirty_items_def)
  have m: "m = int (card (dirty_items ?h b'))"
    using assms(2,3) pos unfolding D m_def by (auto simp: dirty_items_def card_Diff_singleton_if)
  have pos': "dirtyItemNum b < 1 \<longrightarrow> \<not> isDirty (h i)" using pos assms(3) by auto
  have "unlink_item i (n, h, b) = Inr (n + (if isDirty (h i) then 1 else 0), ?h, b')"
    using look node_at_entry [OF assms(1) e] pos'
    by (cases b) (simp add: unlink_item_def setDirty_def adjustDirtyItemNum_def erase_node_def node_at_def
        b'_def m_def drop_entry_def Let_def)
  moreover have "cache_ok ?h b'"
  proof -
    have "cache_ok ?h (drop_entry nd (blockNo (h i)) b)" by (rule cache_ok_cong [OF dr(1)]) simp_all
    moreover have "i \<notin> set (freeItems b)" using assms(1,2) by (auto simp: cache_ok_def)
    ultimately show ?thesis using dr(2) by (auto simp: cache_ok_def b'_def drop_entry_def)
  qed
  moreover have "set (items_of b') = set (items_of b) - {i}" by (auto simp: it)
  moreover have "freeItems b' = freeItems b @ [i]" "dirtyItemNum b' = m" "dirtyIndexMap b' = dirtyIndexMap b"
    "blockIndexMap b' = blockIndexMap b"
    by (simp_all add: b'_def drop_entry_def)
  ultimately show ?thesis using m by (intro exI [of _ b']) (simp only: simp_thms)
qed

lemma unlink_items_ok:
  assumes "cache_ok h b" "distinct s" "set s \<subseteq> set (items_of b)" "dirtyItemNum b = int (card (dirty_items h b))"
  shows "\<exists>b'. fold_res unlink_item s (n, h, b) = Inr (n + int (length (filter (\<lambda>i. isDirty (h i)) s)), clean_all s h, b') \<and>
    cache_ok (clean_all s h) b' \<and> set (items_of b') = set (items_of b) - set s \<and>
    freeItems b' = freeItems b @ s \<and> dirtyItemNum b' = int (card (dirty_items (clean_all s h) b')) \<and>
    dirtyIndexMap b' = dirtyIndexMap b \<and> blockIndexMap b' = blockIndexMap b"
  using assms
proof (induction s arbitrary: n h b)
  case Nil
  then show ?case by (simp add: clean_all_simps)
next
  case (Cons i s)
  let ?h = "h(i := (h i)\<lparr>isDirty := False\<rparr>)" and ?n = "n + (if isDirty (h i) then 1 else 0)"
  have i: "i \<in> set (items_of b)" using Cons.prems(3) by simp
  from unlink_item_ok [OF Cons.prems(1) i Cons.prems(4), of n] obtain b1 where
    b1: "unlink_item i (n, h, b) = Inr (?n, ?h, b1)" "cache_ok ?h b1" "set (items_of b1) = set (items_of b) - {i}"
    "freeItems b1 = freeItems b @ [i]" "dirtyItemNum b1 = int (card (dirty_items ?h b1))"
    "dirtyIndexMap b1 = dirtyIndexMap b" "blockIndexMap b1 = blockIndexMap b"
    by blast
  have s: "distinct s" "set s \<subseteq> set (items_of b1)" "i \<notin> set s" using Cons.prems(2,3) by (auto simp: b1(3))
  have fl: "filter (\<lambda>j. isDirty (?h j)) s = filter (\<lambda>j. isDirty (h j)) s" using s(3) by (intro filter_cong) auto
  from Cons.IH [OF b1(2) s(1,2) b1(5), of ?n, unfolded fl clean_all_simps(2) b1(3,4,6,7)] obtain b' where
    b': "fold_res unlink_item s (?n, ?h, b1) = Inr (?n + int (length (filter (\<lambda>j. isDirty (h j)) s)), clean_all (i # s) h, b')"
    "cache_ok (clean_all (i # s) h) b'" "set (items_of b') = set (items_of b) - {i} - set s"
    "freeItems b' = (freeItems b @ [i]) @ s" "dirtyItemNum b' = int (card (dirty_items (clean_all (i # s) h) b'))"
    "dirtyIndexMap b' = dirtyIndexMap b" "blockIndexMap b' = blockIndexMap b"
    by blast
  have "fold_res unlink_item (i # s) (n, h, b) =
      Inr (n + int (length (filter (\<lambda>j. isDirty (h j)) (i # s))), clean_all (i # s) h, b')"
    using b1(1) b'(1) by simp
  with b'(2-7) show ?case by (intro exI [of _ b']) auto
qed

text \<open>C22: Releasing the blocks of a removed inode drops its dirty data and recycles its items. In
  a consistent cache the operation succeeds: all items of the inode leave the list for the free
  list and are clean, no other item changes, the iterators, the dirty sets and the counter of
  dirty items agree again. But the recycled items keep the index of the removed inode, although
  every free item of a consistent cache has index 0.\<close>

theorem release_unlinked_spec:
  assumes "buf_ok h b" "k > 1"
  shows "\<exists>h' b'. releaseUnlinkedInodeDirtyBlocks k (h, b) = Inr (h', b') \<and> cache_ok h' b' \<and> dirty_ok h' b' \<and>
    set (items_of b') = {i \<in> set (items_of b). itemIndex (h i) \<noteq> k} \<and>
    set (freeItems b') = set (freeItems b) \<union> {i \<in> set (items_of b). itemIndex (h i) = k} \<and>
    (\<forall>j. h' j = (h j)\<lparr>isDirty := isDirty (h j) \<and> \<not> (j \<in> set (items_of b) \<and> itemIndex (h j) = k)\<rparr>) \<and>
    (index_ok h' b' \<longleftrightarrow> (\<forall>i \<in> set (items_of b). itemIndex (h i) \<noteq> k))"
proof -
  have ok: "cache_ok h b" "dirty_ok h b" "index_ok h b" using assms(1) by (simp_all add: buf_ok_def)
  have k: "k \<noteq> 0" using assms(2) by auto
  let ?s = "at_key k (blockIndexMap b)" and ?d = "at_key k (dirtyIndexMap b)"
  have s: "distinct ?s" "set ?s = {i \<in> set (items_of b). itemIndex (h i) = k}"
    using ok(3) k unfolding index_ok_def by auto
  note D = dirty_of_index [OF assms(1), of k]
  have "set (filter (\<lambda>i. isDirty (h i)) ?s) = set ?d" using D(2) s(2) by (auto simp: dirty_items_def)
  then have num: "length (filter (\<lambda>i. isDirty (h i)) ?s) = length ?d"
    using D(1) s(1) by (metis distinct_card distinct_filter)
  have "set ?s \<subseteq> set (items_of b)" "dirtyItemNum b = int (card (dirty_items h b))"
    using s(2) ok(2) by (auto simp: dirty_ok_def dirty_items_def)
  from unlink_items_ok [OF ok(1) s(1) this, of 0, unfolded num] obtain b1 where
    b1: "fold_res unlink_item ?s (0, h, b) = Inr (int (length ?d), clean_all ?s h, b1)"
    "cache_ok (clean_all ?s h) b1" "set (items_of b1) = set (items_of b) - set ?s" "freeItems b1 = freeItems b @ ?s"
    "dirtyItemNum b1 = int (card (dirty_items (clean_all ?s h) b1))"
    "dirtyIndexMap b1 = dirtyIndexMap b" "blockIndexMap b1 = blockIndexMap b"
    by auto
  let ?h = "clean_all ?s h"
  define b' where "b' = b1\<lparr>blockIndexMap := AList.delete k (blockIndexMap b1),
    dirtyIndexMap := (if int (length ?d) > 0 then AList.delete k (dirtyIndexMap b1) else dirtyIndexMap b1)\<rparr>"
  have res: "releaseUnlinkedInodeDirtyBlocks k (h, b) = Inr (?h, b')"
    using assms(2) b1(1) by (simp add: releaseUnlinkedInodeDirtyBlocks_def b'_def not_less)
  have f: "items_of b' = items_of b1" "freeItems b' = freeItems b @ ?s" "dirtyItemNum b' = dirtyItemNum b1"
    "blockIndexMap b' = AList.delete k (blockIndexMap b)"
    "at_key j (dirtyIndexMap b') = (if j = k then [] else at_key j (dirtyIndexMap b))" for j
    by (simp_all add: b'_def b1)
  have c: "cache_ok ?h b'" by (rule cache_ok_cong [OF b1(2)]) (simp_all add: b'_def)
  have d: "dirty_ok ?h b'"
  proof -
    have "dirtyItemNum b' = int (card {i \<in> set (items_of b'). isDirty (?h i)})"
      using b1(5) by (simp add: f dirty_items_def)
    moreover have "i \<in> set (at_key j (dirtyIndexMap b')) \<longleftrightarrow>
        i \<in> set (items_of b') \<and> isDirty (?h i) \<and> itemIndex (?h i) = j" for i j
      using dirty_of_index(2) [OF assms(1), of j] s(2) by (auto simp: f(1,5) b1(3) clean_all_simps dirty_items_def)
    moreover have "\<forall>i \<in> set (freeItems b'). \<not> isDirty (?h i)"
      using ok(2) by (auto simp: f(2) clean_all_simps dirty_ok_def)
    ultimately show ?thesis using dirty_of_index(1) [OF assms(1)] by (simp add: dirty_ok_def f(5))
  qed
  have x: "index_ok ?h b' \<longleftrightarrow> set ?s = {}"
  proof
    assume "index_ok ?h b'"
    then have "\<forall>i \<in> set ?s. itemIndex (h i) = 0" by (simp add: index_ok_def f(2) clean_all_simps)
    with s(2) k show "set ?s = {}" by auto
  next
    assume "set ?s = {}"
    then show "index_ok ?h b'" using ok(3) s(2) by (simp add: index_ok_def f(1,2,4) clean_all_simps b1(3)) blast
  qed
  have h': "?h j = (h j)\<lparr>isDirty := isDirty (h j) \<and> \<not> (j \<in> set (items_of b) \<and> itemIndex (h j) = k)\<rparr>" for j
    using s(2) by (auto simp: clean_all_def)
  have it: "set (items_of b') = {i \<in> set (items_of b). itemIndex (h i) \<noteq> k}"
    "set (freeItems b') = set (freeItems b) \<union> {i \<in> set (items_of b). itemIndex (h i) = k}"
    using s(2) by (auto simp: f(1,2) b1(3))
  have ix: "index_ok ?h b' \<longleftrightarrow> (\<forall>i \<in> set (items_of b). itemIndex (h i) \<noteq> k)" unfolding x s(2) by blast
  show ?thesis by (rule exI [of _ ?h], rule exI [of _ b']) (use res c d it h' ix in \<open>simp only: simp_thms\<close>)
qed

theorem release_unlinked_spec_witness:
  "\<exists>h' b'. releaseUnlinkedInodeDirtyBlocks 7 demo_dirty = Inr (h', b') \<and> dirty_ok h' b' \<and>
    set (items_of b') = {} \<and> set (freeItems b') = {0, 1} \<and> \<not> index_ok h' b'"
proof -
  have "(7 :: u32) > 1" "items_of (snd demo_dirty) = [0]" "freeItems (snd demo_dirty) = [1]"
    "itemIndex (fst demo_dirty 0) = 7"
    by (simp_all add: demo_defs items_of_def Let_def)
  with release_unlinked_spec [OF demo_ok(2), of 7] show ?thesis
    by (auto simp: conj_disj_distribR Collect_conv_if)
qed

text \<open>The stale index breaks the next removal. Inode 7 is removed while one of its blocks is
  dirty; its item goes to the free list with index 7. When the inode number is used again, the
  item is handed out for a block of the new inode but is not entered in the item set of index 7
  (its index seems unchanged). Once that block is dirty, removing the new inode counts one dirty
  block in the dirty set and none among the items, and the assertion of the operation fails.\<close>

theorem unlink_reuse_aborts:
  "\<exists>s1 s2 s3 s4. releaseUnlinkedInodeDirtyBlocks 7 (demo_unlocked, snd demo_dirty) = Inr s1 \<and>
    getBlock 0 50 7 s1 = Inr ((Some 1, 1, False), s2) \<and>
    getBlock 0 51 7 s2 = Inr ((Some 0, 1, False), s3) \<and>
    setItemDirty 0 True 7 s3 = Inr (False, s4) \<and>
    releaseUnlinkedInodeDirtyBlocks 7 s4 = Inl Abort"
proof -
  define s1 where "s1 = (case releaseUnlinkedInodeDirtyBlocks 7 (demo_unlocked, snd demo_dirty) of Inr s \<Rightarrow> s)"
  define s2 where "s2 = run (getBlock 0 50 7 s1) s1"
  define s3 where "s3 = run (getBlock 0 51 7 s2) s2"
  define s4 where "s4 = run (setItemDirty 0 True 7 s3) s3"
  note ev = demo_unlocked_def releaseBlock_def demo_defs releaseUnlinkedInodeDirtyBlocks_def unlink_item_def
    erase_node_def node_at_def Let_def set_erase_def
  have 1: "releaseUnlinkedInodeDirtyBlocks 7 (demo_unlocked, snd demo_dirty) = Inr s1"
    by (simp add: s1_def ev)
  have 2: "getBlock 0 50 7 s1 = Inr ((Some 1, 1, False), s2)" by (simp add: s2_def s1_def ev)
  have 3: "getBlock 0 51 7 s2 = Inr ((Some 0, 1, False), s3)" by (simp add: s3_def s2_def s1_def ev)
  have 4: "setItemDirty 0 True 7 s3 = Inr (False, s4)" by (simp add: s4_def s3_def s2_def s1_def ev)
  have "releaseUnlinkedInodeDirtyBlocks 7 s4 = Inl Abort" by (simp add: s4_def s3_def s2_def s1_def ev)
  with 1 2 3 4 show ?thesis by blast
qed

end
