(* ===== verification/Ufs_FileData.thy ===== *)
theory Ufs_FileData
  imports Ufs_AllocLoop Ufs_BufferProps
begin

text \<open>
  Reading and writing the data of a file (\<open>FsProc_FsImpl.cc\<close>) and the requests of clients that do
  so (\<open>FsProc_FileMng.cc\<close>), on top of the block cache and the allocator. An operation that needs
  a block that is not in memory notes it in the request and returns 0; when the block has
  arrived the request is processed again from the start, and the parts that are done are skipped
  by their addresses in the buffer of the client.

  A loop that waits for a lock that only the waiting thread itself could release is
  \<^const>\<open>Spin\<close>; \<^const>\<open>None\<close> is a loop that does not end. \<open>now\<close> is the clock that the statistics of
  the cache use.
\<close>

subsection \<open>State\<close>

text \<open>The cache with the memory its items point to, and the memory shared with the client.\<close>

record DataBuf =
  items :: heap
  cache :: BlockBuffer
  mem :: "item \<Rightarrow> bytes"

record IoReq =
  blockPendingMap :: "u32 uset"
  sectorPendingMap :: "u32 uset"
  blockIoDoneMap :: "nat uset"
  append_start_off :: u64

type_synonym client_mem = "nat \<Rightarrow> u8"

definition RING_DATA_ITEM_SIZE :: u64 where "RING_DATA_ITEM_SIZE = 32768"

definition store :: "nat \<Rightarrow> bytes \<Rightarrow> client_mem \<Rightarrow> client_mem" where
  "store a bs m = (\<lambda>x. if a \<le> x \<and> x < a + length bs then bs ! (x - a) else m x)"

definition load :: "nat \<Rightarrow> nat \<Rightarrow> client_mem \<Rightarrow> bytes" where
  "load a n m = map m [a..<a + n]"

definition overlay :: "nat \<Rightarrow> bytes \<Rightarrow> bytes \<Rightarrow> bytes" where
  "overlay k bs old = take k old @ bs @ drop (k + length bs) old"

subsection \<open>Blocks of the cache\<close>

definition numTotalPendingIoReq :: "IoReq \<Rightarrow> nat" where
  "numTotalPendingIoReq req = length (blockPendingMap req) + length (sectorPendingMap req)"

definition addIoUnitReq :: "bool \<Rightarrow> u32 \<Rightarrow> IoReq \<Rightarrow> IoReq" where
  "addIoUnitReq sector bno req =
     (if sector then req\<lparr>sectorPendingMap := List.insert bno (sectorPendingMap req)\<rparr>
      else req\<lparr>blockPendingMap := List.insert bno (blockPendingMap req)\<rparr>)"

text \<open>
  \<open>FsImpl::getBlock\<close>: the item, whether the caller may overwrite it, and the request; \<open>sector\<close>
  says that the buffer holds sectors. The loop around the cache ends in its first round or never.
\<close>

definition FsImpl_getBlock ::
    "bool \<Rightarrow> u64 \<Rightarrow> u32 \<Rightarrow> bool \<Rightarrow> u32 \<Rightarrow> IoReq \<Rightarrow> DataBuf \<Rightarrow> (item \<times> bool \<times> IoReq \<times> DataBuf) res" where
  "FsImpl_getBlock sector now bno doSubmit index req db =
     res_bind (getBlock now bno index (items db, cache db)) (\<lambda>((it, lockGrabbed, needFlush), h, b).
       let db' = db\<lparr>items := h, cache := b\<rparr>; pend = addIoUnitReq sector bno req
       in if needFlush then Inl (Throw ''buffer needs flush, all dirty'')
          else case it of
            None \<Rightarrow> Inl Spin
          | Some i \<Rightarrow>
              if lockGrabbed = 0
              then (if inMem (h i) then Inl Spin
                    else if blockNo (h i) \<noteq> bno then Inl Abort else Inr (i, False, pend, db'))
              else if blockNo (h i) \<noteq> bno then Inl Abort
              else if inMem (h i) \<or> \<not> doSubmit then Inr (i, True, req, db')
              else Inr (i, False, pend, db'))"

definition setBlockIoDone :: "nat \<Rightarrow> IoReq \<Rightarrow> IoReq res" where
  "setBlockIoDone a req = (if a \<in> set (blockIoDoneMap req) then Inl Abort
     else Inr (req\<lparr>blockIoDoneMap := List.insert a (blockIoDoneMap req)\<rparr>))"

definition getBlockIoDone :: "nat \<Rightarrow> IoReq \<Rightarrow> bool" where
  "getBlockIoDone a req \<longleftrightarrow> a \<in> set (blockIoDoneMap req)"

text \<open>The device block of a file offset; the outer option is the search for the extent.\<close>

definition data_block :: "InMemInode \<Rightarrow> u64 \<Rightarrow> (u32 option) res" where
  "data_block mi off =
     (case getCurrentExtentArrIdx (ucast (off div BSIZE_w)) of (e, inside, _) \<Rightarrow>
        if e < 0 then Inr None
        else if int (length (d_ext_array (inodeData mi))) \<le> e then Inl Abort
        else Inr (Some (ucast (e_block_no (d_ext_array (inodeData mi) ! nat e) + ucast inside))))"

definition device_block :: "u32 \<Rightarrow> u32" where
  "device_block dataBlockNo = ucast (get_data_start_block + ucast dataBlockNo)"

definition chunk :: "u64 \<Rightarrow> u64 \<Rightarrow> u64 \<Rightarrow> u32" where
  "chunk realBytes tot off = ucast (min (realBytes - tot) (BSIZE_w - off mod BSIZE_w))"

subsection \<open>Reading\<close>

type_synonym read_state = "nat \<times> IoReq \<times> DataBuf \<times> client_mem"

definition read_block :: "u64 \<Rightarrow> bool \<Rightarrow> nat \<Rightarrow> InMemInode \<Rightarrow> u64 \<Rightarrow> u32 \<Rightarrow> nat \<Rightarrow> read_state \<Rightarrow> read_state res" where
  "read_block now nocpy dst mi off m dstPtr = (\<lambda>(rio, req, db, cm).
     res_bind (data_block mi off) (\<lambda>r. case r of
       None \<Rightarrow> Inl (Throw ''readInode cannot find extent idx'')
     | Some dataBlockNo \<Rightarrow>
         res_bind (FsImpl_getBlock False now (device_block dataBlockNo) True (i_no mi) req db) (\<lambda>(i, _, req', db').
           if inMem (items db' i)
           then if nocpy \<and> dst \<noteq> 0 then Inl Abort
                else let cm' = (if nocpy then cm
                                else store dstPtr (take (unat m) (drop (unat (off mod BSIZE_w)) (mem db' i))) cm)
                     in res_bind (setBlockIoDone dstPtr req') (\<lambda>req2.
                          Inr (rio, req2, db'\<lparr>items := snd (releaseBlock i (items db'))\<rparr>, cm'))
           else Inr (Suc rio, req', db', cm))))"

partial_function (option) read_loop ::
    "u64 \<Rightarrow> bool \<Rightarrow> nat \<Rightarrow> InMemInode \<Rightarrow> u64 \<Rightarrow> u64 \<Rightarrow> u64 \<Rightarrow> read_state \<Rightarrow> read_state res option" where
  "read_loop now nocpy dst mi realBytes tot off st =
     (if tot < realBytes
      then let m = chunk realBytes tot off; dstPtr = dst + unat tot
           in if dst \<noteq> 0 \<and> getBlockIoDone dstPtr (fst (snd st))
              then read_loop now nocpy dst mi realBytes (tot + ucast m) (off + ucast m) st
              else case read_block now nocpy dst mi off m dstPtr st of
                     Inl e \<Rightarrow> Some (Inl e)
                   | Inr st' \<Rightarrow> read_loop now nocpy dst mi realBytes (tot + ucast m) (off + ucast m) st'
      else Some (Inr st))"

definition real_bytes :: "InMemInode \<Rightarrow> u64 \<Rightarrow> u64 \<Rightarrow> u64" where
  "real_bytes mi off nBytes = (if off + nBytes > d_size (inodeData mi) then d_size (inodeData mi) - off else nBytes)"

definition readInode ::
    "u64 \<Rightarrow> InMemInode \<Rightarrow> nat \<Rightarrow> u64 \<Rightarrow> u64 \<Rightarrow> bool \<Rightarrow> IoReq \<Rightarrow> DataBuf \<Rightarrow> client_mem \<Rightarrow>
     (int \<times> IoReq \<times> DataBuf \<times> client_mem) res option" where
  "readInode now mi dst offStart nBytes nocpy req db cm =
     (let realBytes = real_bytes mi offStart nBytes
      in case read_loop now nocpy dst mi realBytes 0 offStart (0, req, db, cm) of
           None \<Rightarrow> None
         | Some (Inl e) \<Rightarrow> Some (Inl e)
         | Some (Inr (rio, rest)) \<Rightarrow> Some (Inr (if 0 < rio then 0 else sint realBytes, rest)))"

subsection \<open>Writing\<close>

definition writeInodeAllocDataBlock ::
    "IoReq \<Rightarrow> u64 \<Rightarrow> u64 \<Rightarrow> InMemInode \<Rightarrow> FsImpl \<Rightarrow> (u64 \<times> InMemInode \<times> FsImpl) res option" where
  "writeInodeAllocDataBlock req off nBytes mi fs =
     (if off > d_size (inodeData mi) \<and> append_start_off req = 0 then Some (Inr (-1, mi, fs))
      else let end_off = off + nBytes;
               toAllocate = (if end_off > d_size (inodeData mi)
                             then sint (ucast ((end_off - 1) div BSIZE_w + 1 - ucast (d_block_count (inodeData mi))) :: u32)
                             else 0)
           in if toAllocate > 0
              then (case allocateDataBlocks (of_int toAllocate) mi fs of
                      None \<Rightarrow> None
                    | Some (Inl e) \<Rightarrow> Some (Inl e)
                    | Some (Inr (allocated, mi', fs')) \<Rightarrow>
                        Some (Inr (if allocated = 0 then 0 else if allocated < toAllocate then -1 else of_int toAllocate, mi', fs')))
              else Some (Inr (of_int toAllocate, mi, fs)))"

type_synonym write_state = "IoReq \<times> InMemInode \<times> DataBuf"

definition grow_size :: "u64 \<Rightarrow> InMemInode \<Rightarrow> InMemInode" where
  "grow_size e mi = (let s = max (d_size (inodeData mi)) e
     in mi\<lparr>inodeData := (inodeData mi)\<lparr>d_size := s\<rparr>, logEntry := set_size s (logEntry mi)\<rparr>)"

text \<open>Writing into the item, and making it dirty and valid.\<close>

definition fill_item :: "item \<Rightarrow> nat \<Rightarrow> bytes \<Rightarrow> u32 \<Rightarrow> DataBuf \<Rightarrow> DataBuf res" where
  "fill_item i k bs ino db =
     (let db1 = db\<lparr>mem := (mem db)(i := overlay k bs (mem db i))\<rparr>
      in res_bind (setItemDirty i True ino (items db1, cache db1)) (\<lambda>(_, h, b).
           if \<not> inMem (h i)
           then (case blockFetchedCallback (h i) of (ok, it) \<Rightarrow>
                   if ok then Inr (db1\<lparr>items := h(i := it), cache := b\<rparr>) else Inl Abort)
           else Inr (db1\<lparr>items := snd (releaseBlock i h), cache := b\<rparr>)))"

text \<open>One block of a write: \<open>False\<close> if it has to wait for the block.\<close>

definition write_block :: "u64 \<Rightarrow> client_mem \<Rightarrow> u64 \<Rightarrow> u32 \<Rightarrow> nat \<Rightarrow> write_state \<Rightarrow> (bool \<times> write_state) res" where
  "write_block now cm off m srcPtr = (\<lambda>(req, mi, db).
     res_bind (data_block mi off) (\<lambda>r. case r of
       None \<Rightarrow> Inl Abort
     | Some dataBlockNo \<Rightarrow>
         if dataBlockNo = 0 then Inl Abort
         else let whole = (off mod BSIZE_w = 0 \<and> (ucast m = BSIZE_w \<or> off + ucast m > d_size (inodeData mi)))
              in res_bind (FsImpl_getBlock False now (device_block dataBlockNo) (\<not> whole) (i_no mi) req db) (\<lambda>(i, can, req', db').
                if (if whole then inMem (items db' i) \<or> can else inMem (items db' i))
                then res_bind (fill_item i (unat (off mod BSIZE_w)) (load srcPtr (unat m) cm) (i_no mi) db') (\<lambda>db2.
                     res_bind (setBlockIoDone srcPtr req') (\<lambda>req2.
                       Inr (True, req2, grow_size (off + ucast m) mi, db2)))
                else if \<not> whole \<and> numTotalPendingIoReq req' = 0 then Inl Abort
                else Inr (False, req', mi, db'))))"

partial_function (option) write_loop ::
    "u64 \<Rightarrow> client_mem \<Rightarrow> nat \<Rightarrow> u64 \<Rightarrow> u32 \<Rightarrow> u64 \<Rightarrow> write_state \<Rightarrow> (bool \<times> write_state) res option" where
  "write_loop now cm src realBytes tot off st =
     (if ucast tot < realBytes
      then let m = chunk realBytes (ucast tot) off; srcPtr = src + unat tot
           in if getBlockIoDone srcPtr (fst st)
              then write_loop now cm src realBytes (tot + m) (off + ucast m) st
              else case write_block now cm off m srcPtr st of
                     Inl e \<Rightarrow> Some (Inl e)
                   | Inr (doWrite, st') \<Rightarrow>
                       if doWrite then write_loop now cm src realBytes (tot + m) (off + ucast m) st' else Some (Inr (False, st'))
      else Some (Inr (True, st)))"

definition writeInode ::
    "u64 \<Rightarrow> client_mem \<Rightarrow> nat \<Rightarrow> u64 \<Rightarrow> u64 \<Rightarrow> IoReq \<Rightarrow> InMemInode \<Rightarrow> FsImpl \<Rightarrow> DataBuf \<Rightarrow>
     (int \<times> IoReq \<times> InMemInode \<times> FsImpl \<times> DataBuf) res option" where
  "writeInode now cm src offStart nBytes req mi fs db =
     (case writeInodeAllocDataBlock req offStart nBytes mi fs of
        None \<Rightarrow> None
      | Some (Inl e) \<Rightarrow> Some (Inl e)
      | Some (Inr (r, mi1, fs1)) \<Rightarrow>
          let rc = sint (ucast r :: u32);
              req1 = req\<lparr>blockPendingMap := fold List.insert (drop (length (pendingIo fs)) (pendingIo fs1)) (blockPendingMap req)\<rparr>
          in if rc < 0 \<or> 0 < numTotalPendingIoReq req1 then Some (Inr (rc, req1, mi1, fs1, db))
             else case write_loop now cm src nBytes 0 offStart (req1, mi1, db) of
                    None \<Rightarrow> None
                  | Some (Inl e) \<Rightarrow> Some (Inl e)
                  | Some (Inr (finished, req2, mi2, db2)) \<Rightarrow>
                      Some (Inr (if finished then sint nBytes else 0, req2, mi2, fs1, db2)))"

subsection \<open>Whole files and pages\<close>

text \<open>
  \<open>readInodeToUCache\<close>: pages are pairs of a block index and a length, each with its address.
\<close>

definition page_block :: "InMemInode \<Rightarrow> u32 \<Rightarrow> u32 res" where
  "page_block mi i =
     (case getCurrentExtentArrIdx i of (e, inside, _) \<Rightarrow>
        if e < 0 \<or> int (length (d_ext_array (inodeData mi))) \<le> e then Inl Abort
        else Inr (ucast (e_block_no (d_ext_array (inodeData mi) ! nat e) + ucast inside)))"

definition read_page :: "u64 \<Rightarrow> InMemInode \<Rightarrow> (u64 \<times> u64) \<times> nat \<Rightarrow> u64 \<times> read_state \<Rightarrow> (u64 \<times> read_state) res" where
  "read_page now mi = (\<lambda>((bi, len), dst) (realBytes, rio, req, db, cm).
     if getBlockIoDone dst req then Inr (realBytes, rio, req, db, cm)
     else res_bind (page_block mi (ucast bi)) (\<lambda>d.
          res_bind (FsImpl_getBlock False now (device_block d) True (i_no mi) req db) (\<lambda>(i, _, req', db').
            if inMem (items db' i)
            then res_bind (setBlockIoDone dst req') (\<lambda>req2.
                   Inr (realBytes + len, rio, req2, db'\<lparr>items := snd (releaseBlock i (items db'))\<rparr>,
                        store dst (take (unat len) (mem db' i)) cm))
            else Inr (realBytes, Suc rio, req', db', cm))))"

definition readInodeToUCache ::
    "u64 \<Rightarrow> InMemInode \<Rightarrow> (u64 \<times> u64) list \<Rightarrow> nat list \<Rightarrow> IoReq \<Rightarrow> DataBuf \<Rightarrow> client_mem \<Rightarrow>
     (int \<times> IoReq \<times> DataBuf \<times> client_mem) res" where
  "readInodeToUCache now mi pagesToRead dstVec req db cm =
     (if length pagesToRead \<noteq> length dstVec then Inl Abort
      else res_bind (fold_res (read_page now mi) (zip pagesToRead dstVec) (0, 0, req, db, cm)) (\<lambda>(realBytes, rio, rest).
             Inr (if 0 < rio then 0 else sint realBytes, rest)))"

text \<open>
  \<open>writeEntireInode\<close>: the data of block \<open>i\<close> is at address \<open>ptrs ! i\<close> of the client, and a block that
  would have to be read is an error.
\<close>

definition write_entire_block :: "u64 \<Rightarrow> client_mem \<Rightarrow> nat list \<Rightarrow> u64 \<Rightarrow> u32 \<Rightarrow> write_state \<Rightarrow> write_state res" where
  "write_entire_block now cm ptrs off m = (\<lambda>(req, mi, db).
     let curBlockIdx = unat (ucast (off div BSIZE_w) :: u32)
     in if length ptrs \<le> curBlockIdx then Inl Abort
        else res_bind (data_block mi off) (\<lambda>r. case r of
          None \<Rightarrow> Inl Abort
        | Some d \<Rightarrow>
            if d = 0 then Inl Abort
            else if \<not> (off mod BSIZE_w = 0 \<and> (ucast m = BSIZE_w \<or> off + ucast m > d_size (inodeData mi)))
            then Inl (Throw ''writeEntireInode does not need to do RIO'')
            else res_bind (FsImpl_getBlock False now (device_block d) False (i_no mi) req db) (\<lambda>(i, can, req', db').
              if \<not> (inMem (items db' i) \<or> can) then Inl Abort
              else res_bind (fill_item i (unat (off mod BSIZE_w)) (load (ptrs ! curBlockIdx) (unat m) cm) (i_no mi) db') (\<lambda>db2.
                   res_bind (setBlockIoDone (ptrs ! curBlockIdx) req') (\<lambda>req2. Inr (req2, mi, db2))))))"

partial_function (option) write_entire_loop ::
    "u64 \<Rightarrow> client_mem \<Rightarrow> nat list \<Rightarrow> u64 \<Rightarrow> u32 \<Rightarrow> u64 \<Rightarrow> write_state \<Rightarrow> write_state res option" where
  "write_entire_loop now cm ptrs realBytes tot off st =
     (if ucast tot < realBytes
      then let m = chunk realBytes (ucast tot) off
           in case write_entire_block now cm ptrs off m st of
                Inl e \<Rightarrow> Some (Inl e)
              | Inr st' \<Rightarrow> write_entire_loop now cm ptrs realBytes (tot + m) (off + ucast m) st'
      else Some (Inr st))"

definition writeEntireInode ::
    "u64 \<Rightarrow> client_mem \<Rightarrow> nat list \<Rightarrow> u64 \<Rightarrow> IoReq \<Rightarrow> InMemInode \<Rightarrow> DataBuf \<Rightarrow> (int \<times> write_state) res option" where
  "writeEntireInode now cm ptrs file_size req mi db =
     (case write_entire_loop now cm ptrs file_size 0 0 (req, mi, db) of
        None \<Rightarrow> None
      | Some (Inl e) \<Rightarrow> Some (Inl e)
      | Some (Inr st) \<Rightarrow> Some (Inr (sint file_size, st)))"

text \<open>\<open>writeFileInode\<close> without the pointer to the inode, as the handlers call it; \<open>sb\<close> is the
  buffer of inode sectors.\<close>

definition writeFileInode :: "u64 \<Rightarrow> u32 \<Rightarrow> IoReq \<Rightarrow> FsImpl \<Rightarrow> DataBuf \<Rightarrow> (int \<times> IoReq \<times> FsImpl \<times> DataBuf) res" where
  "writeFileInode now ino req fs sb =
     (case map_of (inodeMap fs) ino of
        Some mi \<Rightarrow> Inr (1, req, fs\<lparr>inodeMap := AList.update ino (mi\<lparr>inodeDirty := True\<rparr>) (inodeMap fs),
                              dirtyInodeSet := List.insert ino (dirtyInodeSet fs)\<rparr>, sb)
      | None \<Rightarrow>
          if Ufs_Alloc.idx fs \<noteq> 0 then Inl (Throw ''writeFileInode: idx_ != 0'')
          else res_bind (FsImpl_getBlock True now (calcSectorForInode ino) True 0 req sb) (\<lambda>(i, _, req', sb').
            if inMem (items sb' i)
            then res_bind (setItemDirty i True 0 (items sb', cache sb')) (\<lambda>(_, h, b).
                 res_bind (releaseBlockNo (calcSectorForInode ino) (h, b)) (\<lambda>(_, h').
                   Inr (1, req', fs, sb'\<lparr>items := h', cache := b\<rparr>)))
            else Inr (0, req', fs, sb')))"

end
