(* ===== verification/Ufs_FileProps.thy ===== *)
theory Ufs_FileProps
  imports Ufs_FileData
begin

text \<open>
  What reading and writing a file do, in terms of the bytes of its blocks that the cache holds:
  each step of the loops, whether it finds the block or has to wait for it; the result of a
  read, of a write, and of reading what was written.
\<close>

subsection \<open>The blocks of the cache\<close>

definition cached :: "DataBuf \<Rightarrow> u32 \<Rightarrow> item \<Rightarrow> bool" where
  "cached db c i \<longleftrightarrow> (c, i) \<in> snd ` set (cache_items_list (cache db))"

definition contents :: "DataBuf \<Rightarrow> u32 \<Rightarrow> bytes option" where
  "contents db c =
     (case find (\<lambda>e. blk e = c) (cache_items_list (cache db)) of
        None \<Rightarrow> None
      | Some e \<Rightarrow> if inMem (items db (itm e)) then Some (mem db (itm e)) else None)"

definition data_ok :: "DataBuf \<Rightarrow> bool" where
  "data_ok db \<longleftrightarrow> buf_ok (items db) (cache db) \<and> (\<forall>i. length (mem db i) = 4096)"

definition idle :: "DataBuf \<Rightarrow> u32 \<Rightarrow> bool" where
  "idle db c \<longleftrightarrow> (\<forall>i. cached db c i \<longrightarrow> status (items db i) \<noteq> BLOCK_BUF_LOCKED)"

text \<open>Dirty blocks of a file carry its inode number.\<close>

definition own :: "DataBuf \<Rightarrow> u32 \<Rightarrow> u32 set \<Rightarrow> bool" where
  "own db ino C \<longleftrightarrow> (\<forall>c \<in> C. \<forall>i. cached db c i \<and> isDirty (items db i) \<longrightarrow> itemIndex (items db i) = ino)"

lemma data_okD: "data_ok db \<Longrightarrow> cache_ok (items db) (cache db)" "data_ok db \<Longrightarrow> buf_ok (items db) (cache db)"
  by (simp_all add: data_ok_def buf_ok_def)

lemma cached_unique:
  assumes "data_ok db" "cached db c i"
  shows "cached db c j \<Longrightarrow> j = i" "cached db c' i \<Longrightarrow> c' = c"
proof -
  have ok: "entries_ok (cache_items_list (cache db)) (next_node (cache db))"
    using data_okD(1) [OF assms(1)] by (simp add: cache_ok_def)
  obtain n where n: "(n, c, i) \<in> set (cache_items_list (cache db))" using assms(2) by (auto simp: cached_def)
  show "j = i" if "cached db c j"
  proof -
    obtain m where "(m, c, j) \<in> set (cache_items_list (cache db))" using \<open>cached db c j\<close> by (auto simp: cached_def)
    from entry_unique(2) [OF ok n this] show ?thesis by simp
  qed
  show "c' = c" if "cached db c' i"
  proof -
    obtain m where "(m, c', i) \<in> set (cache_items_list (cache db))" using \<open>cached db c' i\<close> by (auto simp: cached_def)
    from entry_unique(3) [OF ok n this] show ?thesis by simp
  qed
qed

lemma find_cached:
  assumes "data_ok db"
  shows "cached db c i \<Longrightarrow> \<exists>n. find (\<lambda>e. blk e = c) (cache_items_list (cache db)) = Some (n, c, i)"
    "(\<forall>i. \<not> cached db c i) \<Longrightarrow> find (\<lambda>e. blk e = c) (cache_items_list (cache db)) = None"
proof -
  note f = find_block [OF data_okD(1) [OF assms]]
  show "\<exists>n. find (\<lambda>e. blk e = c) (cache_items_list (cache db)) = Some (n, c, i)" if "cached db c i"
    using that f(1) by (auto simp: cached_def)
  show "find (\<lambda>e. blk e = c) (cache_items_list (cache db)) = None" if "\<forall>i. \<not> cached db c i"
    using that f(2) by (force simp: cached_def blocks_of_def)
qed

lemma contents_cached:
  assumes "data_ok db"
  shows "cached db c i \<Longrightarrow> contents db c = (if inMem (items db i) then Some (mem db i) else None)"
    "(\<forall>i. \<not> cached db c i) \<Longrightarrow> contents db c = None"
  using find_cached [OF assms] by (fastforce simp: contents_def)+

lemma contents_Some:
  assumes "data_ok db"
  shows "contents db c = Some bs \<longleftrightarrow> (\<exists>i. cached db c i \<and> inMem (items db i) \<and> bs = mem db i)"
proof (cases "\<exists>i. cached db c i")
  case True
  then obtain i where i: "cached db c i" by blast
  have "(\<exists>k. cached db c k \<and> inMem (items db k) \<and> bs = mem db k) \<longleftrightarrow> inMem (items db i) \<and> bs = mem db i"
    using cached_unique(1) [OF assms i] i by metis
  with contents_cached(1) [OF assms i] show ?thesis by auto
next
  case False
  with contents_cached(2) [OF assms, of c] show ?thesis by simp
qed

subsection \<open>Getting a block\<close>

definition db_of :: "DataBuf \<Rightarrow> heap \<times> BlockBuffer \<Rightarrow> DataBuf" where
  "db_of db s = db\<lparr>items := fst s, cache := snd s\<rparr>"

lemma db_of_simps [simp]: "items (db_of db s) = fst s" "cache (db_of db s) = snd s" "mem (db_of db s) = mem db"
  by (simp_all add: db_of_def)

text \<open>What holds after a block was obtained or found locked; \<open>i\<close> is its item.\<close>

definition got :: "u32 \<Rightarrow> u32 \<Rightarrow> item \<Rightarrow> DataBuf \<Rightarrow> DataBuf \<Rightarrow> bool" where
  "got c ino i db db' \<longleftrightarrow> data_ok db' \<and> mem db' = mem db \<and> cached db' c i \<and> contents db' c = contents db c \<and>
     (\<forall>c' j. c' \<noteq> c \<and> cached db' c' j \<longrightarrow> cached db c' j \<and> items db' j = items db j) \<and>
     (\<forall>c' j. cached db c' j \<and> isDirty (items db j) \<longrightarrow> cached db' c' j) \<and>
     ((\<exists>j. cached db c j) \<longrightarrow> (\<forall>c' j. cached db' c' j \<longleftrightarrow> cached db c' j)) \<and>
     isDirty (items db' i) = isDirty (items db i) \<and> (isDirty (items db' i) \<longrightarrow> itemIndex (items db' i) = ino)"

lemma got_obtained:
  assumes "data_ok db" "obtained c ino i (items db, cache db) s"
  shows "got c ino i db (db_of db s)" "status (fst s i) = BLOCK_BUF_LOCKED" "itemIndex (fst s i) = ino" "blockNo (fst s i) = c"
proof -
  obtain h b where s: "s = (h, b)" by (cases s)
  note o = assms(2) [unfolded obtained_def s, simplified]
  show "status (fst s i) = BLOCK_BUF_LOCKED" "itemIndex (fst s i) = ino" "blockNo (fst s i) = c" using o by (simp_all add: s)
  have ok: "data_ok (db_of db s)" using o assms(1) by (simp add: data_ok_def s)
  have parts: "snd ` set (cache_items_list b) \<subseteq> insert (c, i) (snd ` set (cache_items_list (cache db)))"
    "\<forall>e \<in> set (cache_items_list (cache db)). isDirty (items db (itm e)) \<longrightarrow> snd e \<in> snd ` set (cache_items_list b)"
    using o by simp_all
  have ci: "cached (db_of db s) c i"
    using o hd_in_set [of "cache_items_list b"] by (auto simp: cached_def s image_iff intro!: bexI [of _ "hd (cache_items_list b)"])
  have sub: "cached (db_of db s) c' j \<Longrightarrow> c' \<noteq> c \<Longrightarrow> cached db c' j" for c' j
    using subsetD [OF parts(1), of "(c', j)"] by (simp add: cached_def s)
  have same: "h j = items db j" if "cached (db_of db s) c' j" "c' \<noteq> c" for c' j
  proof -
    have "j \<noteq> i" using cached_unique(2) [OF ok ci] that by blast
    then show ?thesis using o by simp
  qed
  have dirty: "cached (db_of db s) c' j" if a: "cached db c' j" "isDirty (items db j)" for c' j
  proof -
    obtain n where "(n, c', j) \<in> set (cache_items_list (cache db))" using a(1) by (auto simp: cached_def)
    with bspec [OF parts(2) this] a(2) show ?thesis by (simp add: cached_def s)
  qed
  have all: "cached (db_of db s) c' j \<longleftrightarrow> cached db c' j" if "cached db c k" for c' j k
  proof -
    have "c \<in> set (blocks_of (cache db))" using that by (force simp: cached_def blocks_of_def)
    then show ?thesis using o by (simp add: cached_def s)
  qed
  have "contents (db_of db s) c = contents db c"
  proof (cases "cached db c i")
    case True
    then have "inMem (h i) = inMem (items db i)" using o by (simp add: cached_def)
    then show ?thesis using contents_cached(1) [OF ok ci] contents_cached(1) [OF assms(1) True] by (simp add: s)
  next
    case False
    then have "\<not> inMem (h i)" using o by (simp add: cached_def)
    moreover have "\<not> cached db c j" for j using all [of j c i] ci False by (cases "cached db c j") simp_all
    ultimately show ?thesis using contents_cached(1) [OF ok ci] contents_cached(2) [OF assms(1), of c] by (simp add: s)
  qed
  moreover have "itemIndex (h i) = ino" "isDirty (h i) = isDirty (items db i)" using o by simp_all
  ultimately show "got c ino i db (db_of db s)"
    unfolding got_def
  proof (intro conjI allI impI)
    show "cached db c' j" "items (db_of db s) j = items db j" if "c' \<noteq> c \<and> cached (db_of db s) c' j" for c' j
      using sub [of c' j] same [of c' j] that by (simp_all add: s)
    show "cached (db_of db s) c' j" if "cached db c' j \<and> isDirty (items db j)" for c' j using dirty that by blast
    show "cached (db_of db s) c' j = cached db c' j" if "\<exists>j. cached db c j" for c' j using all that by blast
  qed (use ok ci in \<open>simp_all add: s\<close>)
qed


text \<open>
  The result of \<open>FsImpl::getBlock\<close> on the data buffer: the caller holds the lock of a block in
  memory, or of one that it may overwrite, or the request waits for the block.
\<close>

lemma get_cases:
  assumes ok: "data_ok db" and own: "own db ino {c}"
    and get: "FsImpl_getBlock False now c sub ino req db = Inr (i, can, req', db')"
  obtains (wait) "cached db c i" "status (items db i) = BLOCK_BUF_LOCKED" "\<not> inMem (items db i)"
      "\<not> can" "req' = addIoUnitReq False c req" "db' = db_of db (items db, count_hit (count_request now (cache db)))"
    | (lock) s where "obtained c ino i (items db, cache db) s" "db' = db_of db s"
      "if inMem (fst s i) \<or> \<not> sub then can \<and> req' = req else \<not> can \<and> req' = addIoUnitReq False c req"
proof -
  have hit: "cached db c j" if j: "select_item c (items db) (cache db) = Hit j" for j
  proof -
    obtain e where "find (\<lambda>e. blk e = c) (cache_items_list (cache db)) = Some e" "itm e = j"
      using j by (auto simp: select_item_def split: option.splits list.splits if_splits)
    from find_SomeD [OF this(1)] this(2) show ?thesis by (force simp: cached_def)
  qed
  have pre: "\<forall>i. select_item c (items db) (cache db) = Hit i \<and> isDirty (items db i) \<longrightarrow> itemIndex (items db i) = ino"
    using hit own by (simp add: own_def)
  note out = getBlock_outcome [OF data_okD(2) [OF ok] pre, of now]
  have locked: thesis if "getBlock now c ino (items db, cache db) = Inr ((Some j, 1, d), s)"
    "obtained c ino j (items db, cache db) s" for j d s
    using that get lock [of s]
    by (cases s) (auto simp: FsImpl_getBlock_def Let_def db_of_def split: if_splits)
  show thesis
  proof (cases "select_item c (items db) (cache db)")
    case (Hit j)
    show thesis
    proof (cases "status (items db j) = BLOCK_BUF_LOCKED")
      case True
      with out Hit have g: "getBlock now c ino (items db, cache db) = Inr ((Some j, 0, False), items db, count_hit (count_request now (cache db)))"
        by simp
      from get have "j = i" "\<not> inMem (items db i)" "\<not> can" "req' = addIoUnitReq False c req"
        "db' = db_of db (items db, count_hit (count_request now (cache db)))"
        by (auto simp: FsImpl_getBlock_def g Let_def db_of_def split: if_splits)
      with wait hit [OF Hit] True show thesis by simp
    next
      case False
      with out Hit locked show thesis by auto
    qed
  next
    case (Fresh j)
    with out locked show thesis by auto
  next
    case (Evict j)
    with out locked show thesis by auto
  next
    case Empty_cache
    with out get show thesis by (simp add: FsImpl_getBlock_def Let_def)
  next
    case All_busy
    with out get show thesis by (simp add: FsImpl_getBlock_def Let_def)
  qed
qed

lemma get_result:
  assumes ok: "data_ok db" and own: "own db ino {c}"
    and get: "FsImpl_getBlock False now c sub ino req db = Inr (i, can, req', db')"
  shows "got c ino i db db'"
    "inMem (items db' i) \<Longrightarrow> contents db c = Some (mem db i) \<and> req' = req"
    "\<not> inMem (items db' i) \<Longrightarrow> contents db c = None \<and> (if can then \<not> sub \<and> req' = req else req' = addIoUnitReq False c req)"
    "can \<or> inMem (items db' i) \<Longrightarrow> status (items db' i) = BLOCK_BUF_LOCKED \<and> itemIndex (items db' i) = ino"
proof -
  have all: "got c ino i db db' \<and>
    (inMem (items db' i) \<longrightarrow> req' = req) \<and>
    (\<not> inMem (items db' i) \<longrightarrow> (if can then \<not> sub \<and> req' = req else req' = addIoUnitReq False c req)) \<and>
    (can \<or> inMem (items db' i) \<longrightarrow> status (items db' i) = BLOCK_BUF_LOCKED \<and> itemIndex (items db' i) = ino)"
    using ok own get
  proof (cases rule: get_cases)
    case wait
    have ok': "data_ok db'" using ok buf_ok_fields [OF data_okD(2) [OF ok], of "cache db'"] by (simp add: data_ok_def wait(6))
    have same: "cached db' c' j = cached db c' j" for c' j by (simp add: cached_def wait(6))
    have "contents db' c = contents db c" by (simp add: contents_def wait(6) split: option.split)
    with ok' same wait own show ?thesis by (simp add: got_def own_def)
  next
    case (lock s)
    with got_obtained [OF ok lock(1)] show ?thesis by (auto split: if_splits)
  qed
  then show g: "got c ino i db db'"
    and "can \<or> inMem (items db' i) \<Longrightarrow> status (items db' i) = BLOCK_BUF_LOCKED \<and> itemIndex (items db' i) = ino"
    by blast+
  have "data_ok db'" "cached db' c i" "contents db' c = contents db c" "mem db' = mem db" using g by (simp_all add: got_def)
  with contents_cached(1) [of db' c i] have c: "contents db c = (if inMem (items db' i) then Some (mem db i) else None)" by simp
  show "inMem (items db' i) \<Longrightarrow> contents db c = Some (mem db i) \<and> req' = req"
    "\<not> inMem (items db' i) \<Longrightarrow> contents db c = None \<and> (if can then \<not> sub \<and> req' = req else req' = addIoUnitReq False c req)"
    using c all by simp_all
qed


lemma get_resident:
  assumes ok: "data_ok db" and own: "own db ino {c}" and c: "contents db c = Some bs" "idle db c"
  shows "\<exists>i db'. FsImpl_getBlock False now c sub ino req db = Inr (i, True, req, db') \<and> inMem (items db' i) \<and>
    (\<forall>c' j. cached db' c' j \<longleftrightarrow> cached db c' j)"
proof -
  obtain i where i: "cached db c i" "inMem (items db i)" using contents_Some [OF ok] c(1) by blast
  obtain n where n: "(n, c, i) \<in> set (cache_items_list (cache db))" using i(1) by (auto simp: cached_def)
  have "status (items db i) \<noteq> BLOCK_BUF_LOCKED" "isDirty (items db i) \<Longrightarrow> itemIndex (items db i) = ino"
    using c(2) i(1) own by (simp_all add: idle_def own_def)
  from getBlock_hit [OF data_okD(2) [OF ok] n this, of now]
  obtain s where s: "getBlock now c ino (items db, cache db) = Inr ((Some i, 1, False), s)" "obtained c ino i (items db, cache db) s"
    by blast
  note g = got_obtained [OF ok s(2)]
  have m: "inMem (fst s i)" using s(2) i by (cases s) (simp add: obtained_def cached_def)
  have "FsImpl_getBlock False now c sub ino req db = Inr (i, True, req, db_of db s)"
    using s(1) m g(4) by (cases s) (simp add: FsImpl_getBlock_def Let_def db_of_def)
  moreover have "\<forall>c' j. cached (db_of db s) c' j \<longleftrightarrow> cached db c' j" using g(1) i(1) unfolding got_def by blast
  ultimately show ?thesis using m by (intro exI [of _ i] exI [of _ "db_of db s"]) simp
qed

subsection \<open>What reading keeps\<close>

definition reads :: "u32 \<Rightarrow> u32 set \<Rightarrow> DataBuf \<Rightarrow> DataBuf \<Rightarrow> bool" where
  "reads ino C db db' \<longleftrightarrow> data_ok db' \<and> mem db' = mem db \<and> own db' ino C \<and>
     (\<forall>c bs. contents db' c = Some bs \<longrightarrow> contents db c = Some bs) \<and>
     (\<forall>c j. cached db c j \<and> isDirty (items db j) \<longrightarrow>
        cached db' c j \<and> isDirty (items db' j) \<and> inMem (items db' j) = inMem (items db j))"

lemma reads_refl: "data_ok db \<Longrightarrow> own db ino C \<Longrightarrow> reads ino C db db"
  by (simp add: reads_def)

lemma reads_trans: "reads ino C db db' \<Longrightarrow> reads ino C db' db'' \<Longrightarrow> reads ino C db db''"
  by (simp add: reads_def) metis

lemma got_reads:
  assumes ok: "data_ok db" "own db ino C" and g: "got c ino i db db'"
  shows "reads ino C db db'"
proof -
  note g' = g [unfolded got_def]
  have ok': "data_ok db'" and ci: "cached db' c i" and cc: "contents db' c = contents db c" using g' by blast+
  have other: "cached db c' j" "items db' j = items db j" if "cached db' c' j" "c' \<noteq> c" for c' j
    using g' that by blast+
  have "own db' ino C"
    unfolding own_def
  proof (intro ballI allI impI)
    fix c' j assume "c' \<in> C" and j: "cached db' c' j \<and> isDirty (items db' j)"
    show "itemIndex (items db' j) = ino"
    proof (cases "c' = c")
      case True
      with j cached_unique(1) [OF ok' ci] have "j = i" by blast
      with j g' show ?thesis by blast
    next
      case False
      with other [of c' j] j ok(2) \<open>c' \<in> C\<close> show ?thesis by (simp add: own_def)
    qed
  qed
  moreover have "contents db c' = Some bs" if b: "contents db' c' = Some bs" for c' bs
  proof (cases "c' = c")
    case False
    obtain j where j: "cached db' c' j" "inMem (items db' j)" "bs = mem db' j" using contents_Some [OF ok'] b by blast
    with other [OF j(1) False] contents_Some [OF ok(1)] g' show ?thesis by metis
  qed (use b cc in simp)
  moreover have "cached db' c' j \<and> isDirty (items db' j) \<and> inMem (items db' j) = inMem (items db j)"
    if d: "cached db c' j" "isDirty (items db j)" for c' j
  proof -
    have k: "cached db' c' j" using g' d by blast
    show ?thesis
    proof (cases "c' = c")
      case True
      with k cached_unique(1) [OF ok' ci] have ji: "j = i" by blast
      have "inMem (items db' i) = inMem (items db i)"
        using cc contents_cached(1) [OF ok' ci] contents_cached(1) [OF ok(1), of c i] d True ji by (simp split: if_splits)
      with k ji g' d(2) show ?thesis by simp
    qed (use k other [OF k] d in simp)
  qed
  ultimately show ?thesis using ok' g' unfolding reads_def by blast
qed


text \<open>Releasing changes the state of the lock only.\<close>

definition relock :: "DataBuf \<Rightarrow> item \<Rightarrow> DataBuf" where
  "relock db i = db\<lparr>items := snd (releaseBlock i (items db))\<rparr>"

lemma relock_same [simp]: "cached (relock db i) = cached db" "contents (relock db i) = contents db"
  "mem (relock db i) = mem db" "isDirty (items (relock db i) j) = isDirty (items db j)"
  "inMem (items (relock db i) j) = inMem (items db j)" "itemIndex (items (relock db i) j) = itemIndex (items db j)"
  "cache (relock db i) = cache db"
  by (auto simp: relock_def cached_def contents_def releaseBlock_def fun_eq_iff split: option.split)

lemma relock_idle: "status (items (relock db i) j) \<noteq> BLOCK_BUF_LOCKED \<longleftrightarrow> j = i \<or> status (items db j) \<noteq> BLOCK_BUF_LOCKED"
  by (auto simp: relock_def releaseBlock_def)

lemma relock_ok: "data_ok db \<Longrightarrow> data_ok (relock db i)" "own (relock db i) = own db"
  using releaseBlock_ok [of "items db" "cache db" i]
  by (simp add: data_ok_def, simp add: relock_def) (simp add: own_def fun_eq_iff)

lemma relock_reads: "reads ino C db db' \<Longrightarrow> reads ino C db (relock db' i)"
  unfolding reads_def by (simp add: relock_ok) blast

subsection \<open>Reading\<close>

text \<open>The device block of byte \<open>x\<close> of a file, and the byte, if it is in memory.\<close>

definition file_block :: "InMemInode \<Rightarrow> nat \<Rightarrow> u32 option" where
  "file_block mi x = (case data_block mi (of_nat x) of Inr (Some d) \<Rightarrow> Some (device_block d) | _ \<Rightarrow> None)"

definition file_byte :: "DataBuf \<Rightarrow> InMemInode \<Rightarrow> nat \<Rightarrow> u8 option" where
  "file_byte db mi x = (case file_block mi x of None \<Rightarrow> None | Some c \<Rightarrow> map_option (\<lambda>bs. bs ! (x mod 4096)) (contents db c))"

definition blocks_between :: "InMemInode \<Rightarrow> nat \<Rightarrow> nat \<Rightarrow> u32 set" where
  "blocks_between mi a b = {c. \<exists>x. a \<le> x \<and> x < b \<and> file_block mi x = Some c}"

lemma file_block_same:
  assumes "x div 4096 = y div 4096" "x < 2 ^ 64" "y < 2 ^ 64"
  shows "file_block mi x = file_block mi y"
proof -
  have "(of_nat x :: u64) div BSIZE_w = of_nat y div BSIZE_w"
    using assms by (simp add: word_unat_eq_iff BSIZE_w_def unat_div unat_of_nat)
  then show ?thesis by (simp add: file_block_def data_block_def)
qed

lemma read_block_result:
  assumes ok: "data_ok db" "own db (i_no mi) C" "c \<in> C"
    and c: "data_block mi off = Inr (Some d)" "c = device_block d" and new: "p \<notin> set (blockIoDoneMap req)"
    and r: "read_block now False dst mi off m p (rio, req, db, cm) = Inr (rio', req', db', cm')"
  shows "reads (i_no mi) C db db' \<and>
    (case contents db c of
       Some bs \<Rightarrow> rio' = rio \<and> req' = req\<lparr>blockIoDoneMap := List.insert p (blockIoDoneMap req)\<rparr> \<and>
                  cm' = store p (take (unat m) (drop (unat (off mod BSIZE_w)) bs)) cm
     | None \<Rightarrow> rio' = Suc rio \<and> req' = addIoUnitReq False c req \<and> cm' = cm)"
proof -
  obtain i can req1 db1 where g: "FsImpl_getBlock False now c True (i_no mi) req db = Inr (i, can, req1, db1)"
    using r c by (cases "FsImpl_getBlock False now c True (i_no mi) req db") (auto simp: read_block_def)
  have own: "own db (i_no mi) {c}" using ok(2,3) by (simp add: own_def)
  note get = get_result [OF ok(1) own g]
  note rd = got_reads [OF ok(1,2) get(1)]
  have mem: "mem db1 = mem db" using get(1) by (simp add: got_def)
  show ?thesis
  proof (cases "inMem (items db1 i)")
    case True
    with get(2) have q: "contents db c = Some (mem db i)" "req1 = req" by simp_all
    from r c g True new q mem have "rio' = rio" "req' = req\<lparr>blockIoDoneMap := List.insert p (blockIoDoneMap req)\<rparr>"
      "cm' = store p (take (unat m) (drop (unat (off mod BSIZE_w)) (mem db i))) cm" "db' = relock db1 i"
      by (auto simp: read_block_def setBlockIoDone_def relock_def)
    with q relock_reads [OF rd] show ?thesis by simp
  next
    case False
    with get(3) have "contents db c = None" "req1 = addIoUnitReq False c req" by (auto split: if_splits)
    moreover from r c g False have "rio' = Suc rio" "req' = req1" "cm' = cm" "db' = db1" by (auto simp: read_block_def)
    ultimately show ?thesis using rd by simp
  qed
qed


text \<open>The chunks of the loops, as natural numbers.\<close>

lemma chunk_nat:
  assumes "unat tot < unat rb"
  shows "unat (chunk rb tot off) = min (unat rb - unat tot) (4096 - unat off mod 4096)" "0 < unat (chunk rb tot off)"
proof -
  have b: "unat (BSIZE_w - off mod BSIZE_w) = 4096 - unat off mod 4096"
    using unat_sub_no_underflow [of "off mod 4096" "4096 :: u64"]
    by (simp add: BSIZE_w_def unat_mod word_le_nat_alt less_imp_le)
  have r: "unat (rb - tot) = unat rb - unat tot"
    using assms by (intro unat_sub_no_underflow) (simp add: word_le_nat_alt)
  have "unat (min (rb - tot) (BSIZE_w - off mod BSIZE_w)) = min (unat rb - unat tot) (4096 - unat off mod 4096)"
    using b r by (simp add: min_def word_le_nat_alt)
  moreover have "min (unat rb - unat tot) (4096 - unat off mod 4096) < 2 ^ 32" by simp
  ultimately show "unat (chunk rb tot off) = min (unat rb - unat tot) (4096 - unat off mod 4096)"
    by (simp add: chunk_def unat_ucast_down)
  then show "0 < unat (chunk rb tot off)" using assms by simp
qed

lemma mod_chunk:
  assumes "k < (4096 :: nat) - a mod 4096"
  shows "(a + k) mod 4096 = a mod 4096 + k" "(a + k) div 4096 = a div 4096"
proof -
  have eq: "a + k = (a mod 4096 + k) + 4096 * (a div 4096)" by simp
  have "a mod 4096 + k < 4096" using assms by simp
  then show "(a + k) mod 4096 = a mod 4096 + k" "(a + k) div 4096 = a div 4096"
    by (subst eq, simp only: mod_mult_self2 div_mult_self2 mod_less div_less add_0_right zero_neq_numeral not_False_eq_True)+
qed


lemma file_byte_reads:
  "reads ino C db db' \<Longrightarrow> file_byte db' mi x = Some v \<Longrightarrow> file_byte db mi x = Some v"
  by (auto simp: reads_def file_byte_def split: option.splits)

text \<open>What the rest of the loop does, from byte \<open>t\<close> of the request on.\<close>

definition read_post :: "u32 set \<Rightarrow> nat \<Rightarrow> InMemInode \<Rightarrow> nat \<Rightarrow> nat \<Rightarrow> nat \<Rightarrow> read_state \<Rightarrow> read_state \<Rightarrow> bool" where
  "read_post C dst mi o_start t n = (\<lambda>(rio, req, db, cm) (rio', req', db', cm').
     reads (i_no mi) C db db' \<and> (\<forall>a. a < dst + t \<or> dst + n \<le> a \<longrightarrow> cm' a = cm a) \<and>
     rio \<le> rio' \<and> set (blockPendingMap req) \<subseteq> set (blockPendingMap req') \<and>
     sectorPendingMap req' = sectorPendingMap req \<and>
     (\<forall>k. t \<le> k \<and> k < n \<longrightarrow> file_byte db mi (o_start + k) = Some (cm' (dst + k)) \<or>
        rio < rio' \<and> cm' (dst + k) = cm (dst + k) \<and> (\<exists>c \<in> set (blockPendingMap req'). file_block mi (o_start + k) = Some c)) \<and>
     (if rio' = rio then blockPendingMap req' = blockPendingMap req else blockPendingMap req' \<noteq> []))"

lemma read_post_step:
  assumes blk: "file_block mi (o_start + t) = Some c" and ok: "data_ok db"
    and m: "0 < m" "t + m \<le> n" "m \<le> 4096 - (o_start + t) mod 4096" and lim: "o_start + n < 2 ^ 64"
    and step: "reads (i_no mi) C db db1 \<and>
      (case contents db c of
         Some bs \<Rightarrow> rio1 = rio \<and> req1 = req\<lparr>blockIoDoneMap := d\<rparr> \<and>
                    cm1 = store (dst + t) (take m (drop ((o_start + t) mod 4096) bs)) cm
       | None \<Rightarrow> rio1 = Suc rio \<and> req1 = addIoUnitReq False c req \<and> cm1 = cm)"
    and rest: "read_post C dst mi o_start (t + m) n (rio1, req1, db1, cm1) (rio', req', db', cm')"
  shows "read_post C dst mi o_start t n (rio, req, db, cm) (rio', req', db', cm')"
proof -
  note p = rest [unfolded read_post_def, simplified]
  have rd: "reads (i_no mi) C db db1" using step by blast
  have fb: "file_block mi (o_start + k) = Some c" if "t \<le> k" "k < t + m" for k
  proof -
    have "(o_start + t + (k - t)) div 4096 = (o_start + t) div 4096" using that m by (intro mod_chunk) simp
    then have "(o_start + k) div 4096 = (o_start + t) div 4096" using that by simp
    then show ?thesis using file_block_same [of "o_start + k" "o_start + t" mi] that m lim blk by simp
  qed
  have md: "(o_start + k) mod 4096 = (o_start + t) mod 4096 + (k - t)" if "t \<le> k" "k < t + m" for k
  proof -
    have "(o_start + t + (k - t)) mod 4096 = (o_start + t) mod 4096 + (k - t)" using that m by (intro mod_chunk) simp
    then show ?thesis using that by simp
  qed
  have cm: "cm' a = cm1 a" if "a < dst + (t + m) \<or> dst + n \<le> a" for a using p that by blast
  have later: "file_byte db mi (o_start + k) = Some (cm' (dst + k)) \<or>
      rio < rio' \<and> cm' (dst + k) = cm (dst + k) \<and> (\<exists>c \<in> set (blockPendingMap req'). file_block mi (o_start + k) = Some c)"
    if "t + m \<le> k" "k < n" and eq: "rio \<le> rio1" "cm1 (dst + k) = cm (dst + k)" for k
    using p that file_byte_reads [OF rd, of mi "o_start + k"] by (metis le_less_trans)
  show ?thesis
  proof (cases "contents db c")
    case None
    with step have s: "rio1 = Suc rio" "req1 = addIoUnitReq False c req" "cm1 = cm" by simp_all
    have pend: "c \<in> set (blockPendingMap req')" "set (blockPendingMap req) \<subseteq> set (blockPendingMap req')"
      using p by (auto simp: s addIoUnitReq_def)
    have "file_byte db mi (o_start + k) = Some (cm' (dst + k)) \<or>
        rio < rio' \<and> cm' (dst + k) = cm (dst + k) \<and> (\<exists>c \<in> set (blockPendingMap req'). file_block mi (o_start + k) = Some c)"
      if "t \<le> k" "k < n" for k
    proof (cases "k < t + m")
      case True
      with fb that pend cm [of "dst + k"] p show ?thesis by (auto simp: s)
    qed (use later that s in simp)
    moreover have "blockPendingMap req' \<noteq> []" using pend by auto
    ultimately show ?thesis
      using p pend reads_trans [OF rd] m by (simp add: read_post_def s addIoUnitReq_def)
  next
    case (Some bs)
    with step have s: "rio1 = rio" "req1 = req\<lparr>blockIoDoneMap := d\<rparr>"
      "cm1 = store (dst + t) (take m (drop ((o_start + t) mod 4096) bs)) cm" by simp_all
    have "length bs = 4096" using contents_Some [OF ok] Some ok by (auto simp: data_ok_def)
    then have len: "length (take m (drop ((o_start + t) mod 4096) bs)) = m" using m by simp
    have out: "cm1 a = cm a" if "a < dst + t \<or> dst + (t + m) \<le> a" for a using that by (auto simp: s store_def len)
    have "file_byte db mi (o_start + k) = Some (cm' (dst + k))" if "t \<le> k" "k < t + m" for k
    proof -
      have "cm1 (dst + k) = bs ! ((o_start + t) mod 4096 + (k - t))"
        using that m \<open>length bs = 4096\<close> by (simp add: s store_def len)
      then show ?thesis using fb [OF that] md [OF that] Some cm [of "dst + k"] that(2) by (simp add: file_byte_def)
    qed
    then have "file_byte db mi (o_start + k) = Some (cm' (dst + k)) \<or>
        rio < rio' \<and> cm' (dst + k) = cm (dst + k) \<and> (\<exists>c \<in> set (blockPendingMap req'). file_block mi (o_start + k) = Some c)"
      if "t \<le> k" "k < n" for k
      using later [of k] that out [of "dst + k"] s(1) by (cases "k < t + m") simp_all
    moreover have "cm' a = cm a" if "a < dst + t \<or> dst + n \<le> a" for a
      using that cm [of a] out [of a] m by auto
    ultimately show ?thesis using p reads_trans [OF rd] by (simp add: read_post_def s)
  qed
qed


lemma read_post_refl:
  "data_ok db \<Longrightarrow> own db (i_no mi) C \<Longrightarrow> read_post C dst mi o_start n n (rio, req, db, cm) (rio, req, db, cm)"
  by (auto simp: read_post_def reads_refl)

lemma file_block_data: "unat off = x \<Longrightarrow> data_block mi off = Inr (Some d) \<Longrightarrow> file_block mi x = Some (device_block d)"
  by (auto simp: file_block_def)

lemma read_block_found:
  "read_block now nocpy dst mi off m p st = Inr st' \<Longrightarrow> \<exists>d. data_block mi off = Inr (Some d)"
  by (cases st; cases "data_block mi off") (auto simp: read_block_def split: option.splits)

text \<open>The addresses that a loop still needs are not marked as done.\<close>

definition undone :: "nat \<Rightarrow> nat \<Rightarrow> nat \<Rightarrow> IoReq \<Rightarrow> bool" where
  "undone base t n req \<longleftrightarrow> (\<forall>p \<in> set (blockIoDoneMap req). p < base + t \<or> base + n \<le> p)"

lemma undone_next: "undone base t n req \<Longrightarrow> t < t' \<Longrightarrow> set (blockIoDoneMap req') \<subseteq> insert (base + t) (set (blockIoDoneMap req)) \<Longrightarrow> undone base t' n req'"
  unfolding undone_def by fastforce

lemma read_loop_result:
  assumes lim: "o_start + unat rb < 2 ^ 64"
  shows "data_ok db \<Longrightarrow> own db (i_no mi) C \<Longrightarrow> blocks_between mi o_start (o_start + unat rb) \<subseteq> C \<Longrightarrow>
    unat off = o_start + unat tot \<Longrightarrow> unat tot \<le> unat rb \<Longrightarrow> undone dst (unat tot) (unat rb) req \<Longrightarrow>
    \<exists>r. read_loop now False dst mi rb tot off (rio, req, db, cm) = Some r \<and>
      (\<forall>st. r = Inr st \<longrightarrow> read_post C dst mi o_start (unat tot) (unat rb) (rio, req, db, cm) st)"
proof (induction "unat rb - unat tot" arbitrary: tot off rio req db cm rule: less_induct)
  case less
  let ?st = "(rio, req, db, cm)" and ?m = "chunk rb tot off"
  show ?case
  proof (cases "tot < rb")
    case False
    then have "unat tot = unat rb" using less.prems(5) by (simp add: word_less_nat_alt)
    moreover have "read_loop now False dst mi rb tot off ?st = Some (Inr ?st)" using False by (subst read_loop.simps) simp
    ultimately show ?thesis using read_post_refl [OF less.prems(1,2)] by simp
  next
    case True
    then have t: "unat tot < unat rb" by (simp add: word_less_nat_alt)
    note m = chunk_nat [OF t, of off]
    have tot': "unat (tot + ucast ?m) = unat tot + unat ?m" and off': "unat (off + ucast ?m) = unat off + unat ?m"
      using m(1) t lim less.prems(4) unat_below [of rb]
      by (simp_all add: unat_ucast_up unat_add_no_overflow)
    have fresh: "dst + unat tot \<notin> set (blockIoDoneMap req)" using less.prems(6) t by (auto simp: undone_def)
    show ?thesis
    proof (cases "read_block now False dst mi off ?m (dst + unat tot) ?st")
      case (Inl e)
      then have "read_loop now False dst mi rb tot off ?st = Some (Inl e)"
        using True fresh by (subst read_loop.simps) (simp add: Let_def getBlockIoDone_def)
      then show ?thesis by simp
    next
      case (Inr st1)
      obtain rio1 req1 db1 cm1 where st1: "st1 = (rio1, req1, db1, cm1)" by (cases st1)
      obtain d where d: "data_block mi off = Inr (Some d)" using read_block_found [OF Inr] by blast
      define c where "c = device_block d"
      have blk: "file_block mi (o_start + unat tot) = Some c" using file_block_data [OF less.prems(4) d] by (simp add: c_def)
      then have "c \<in> C" using less.prems(3) t by (auto simp: blocks_between_def intro!: exI [of _ "o_start + unat tot"])
      note step = read_block_result [OF less.prems(1,2) this d c_def fresh Inr [unfolded st1]]
      have ok1: "data_ok db1" "own db1 (i_no mi) C" using step by (simp_all add: reads_def)
      have und: "undone dst (unat (tot + ucast ?m)) (unat rb) req1"
        using step m(2) tot' by (intro undone_next [OF less.prems(6)]) (auto simp: addIoUnitReq_def split: option.splits)
      have dec: "unat rb - unat (tot + ucast ?m) < unat rb - unat tot" "unat (tot + ucast ?m) \<le> unat rb"
        "unat (off + ucast ?m) = o_start + unat (tot + ucast ?m)"
        unfolding tot' off' using m t less.prems(4) by linarith+
      have "\<exists>r. read_loop now False dst mi rb (tot + ucast ?m) (off + ucast ?m) st1 = Some r \<and>
          (\<forall>st. r = Inr st \<longrightarrow> read_post C dst mi o_start (unat (tot + ucast ?m)) (unat rb) st1 st)"
        unfolding st1 by (rule less.hyps [OF dec(1) ok1 less.prems(3) dec(3,2) und])
      moreover have "read_loop now False dst mi rb tot off ?st = read_loop now False dst mi rb (tot + ucast ?m) (off + ucast ?m) st1"
        using True fresh Inr by (subst read_loop.simps) (simp add: Let_def getBlockIoDone_def)
      moreover have "read_post C dst mi o_start (unat tot) (unat rb) ?st st"
        if "read_post C dst mi o_start (unat (tot + ucast ?m)) (unat rb) st1 st" for st
      proof -
        obtain rio' req' db' cm' where st: "st = (rio', req', db', cm')" by (cases st)
        have eq: "unat (off mod BSIZE_w) = (o_start + unat tot) mod 4096" using less.prems(4) by (simp add: BSIZE_w_def unat_mod)
        from step [unfolded eq] have s: "reads (i_no mi) C db db1 \<and>
          (case contents db c of
             Some bs \<Rightarrow> rio1 = rio \<and> req1 = req\<lparr>blockIoDoneMap := List.insert (dst + unat tot) (blockIoDoneMap req)\<rparr> \<and>
                        cm1 = store (dst + unat tot) (take (unat ?m) (drop ((o_start + unat tot) mod 4096) bs)) cm
           | None \<Rightarrow> rio1 = Suc rio \<and> req1 = addIoUnitReq False c req \<and> cm1 = cm)" .
        show ?thesis unfolding st
          by (rule read_post_step [OF blk less.prems(1) m(2) _ _ lim s])
             (use m(1) t less.prems(4) that in \<open>simp_all add: st st1 tot'\<close>)
      qed
      ultimately show ?thesis by metis
    qed
  qed
qed


text \<open>A range of a file whose blocks are in memory and not locked.\<close>

definition ready :: "DataBuf \<Rightarrow> InMemInode \<Rightarrow> nat \<Rightarrow> nat \<Rightarrow> bool" where
  "ready db mi a b \<longleftrightarrow> (\<forall>x. a \<le> x \<and> x < b \<longrightarrow>
     (\<exists>c. file_block mi x = Some c \<and> contents db c \<noteq> None \<and> idle db c))"

lemma got_all:
  assumes ok: "data_ok db" and g: "got c ino i db db'" and all: "\<forall>c' j. cached db' c' j \<longleftrightarrow> cached db c' j"
  shows "contents (relock db' i) = contents db" "idle db c' \<Longrightarrow> idle (relock db' i) c'"
proof -
  note g' = g [unfolded got_def]
  have ok': "data_ok db'" and ci: "cached db' c i" and cc: "contents db' c = contents db c" and mm: "mem db' = mem db"
    using g' by blast+
  have same: "items db' j = items db j" if "cached db' c' j" "c' \<noteq> c" for c' j using g' that by blast
  have "contents db' c' = contents db c'" for c'
  proof (cases "c' = c \<or> (\<forall>j. \<not> cached db c' j)")
    case True
    then show ?thesis using cc all contents_cached(2) [OF ok, of c'] contents_cached(2) [OF ok', of c'] by auto
  next
    case False
    then obtain j where j: "cached db c' j" "cached db' c' j" "c' \<noteq> c" using all by blast
    from contents_cached(1) [OF ok j(1)] contents_cached(1) [OF ok' j(2)] same [OF j(2,3)] mm show ?thesis by simp
  qed
  then show "contents (relock db' i) = contents db" by (simp add: fun_eq_iff)
  show "idle (relock db' i) c'" if "idle db c'"
    unfolding idle_def relock_idle relock_same
  proof (intro allI impI)
    fix j assume j: "cached db' c' j"
    show "j = i \<or> status (items db' j) \<noteq> BLOCK_BUF_LOCKED"
    proof (cases "c' = c")
      case True
      with j cached_unique(1) [OF ok' ci] show ?thesis by blast
    next
      case False
      with same [OF j] \<open>idle db c'\<close> j all show ?thesis by (simp add: idle_def)
    qed
  qed
qed

lemma read_block_ready:
  assumes ok: "data_ok db" "own db (i_no mi) C" "c \<in> C" and d: "data_block mi off = Inr (Some d)" "c = device_block d"
    and c: "contents db c \<noteq> None" "idle db c" and new: "p \<notin> set (blockIoDoneMap req)"
  shows "\<exists>req' db' cm'. read_block now False dst mi off m p (rio, req, db, cm) = Inr (rio, req', db', cm') \<and>
    contents db' = contents db \<and> (\<forall>c'. idle db c' \<longrightarrow> idle db' c')"
proof -
  have own: "own db (i_no mi) {c}" using ok(2,3) by (simp add: own_def)
  obtain bs where "contents db c = Some bs" using c(1) by blast
  from get_resident [OF ok(1) own this c(2), of now True req] obtain i db1 where
    g: "FsImpl_getBlock False now c True (i_no mi) req db = Inr (i, True, req, db1)" "inMem (items db1 i)"
      "\<forall>c' j. cached db1 c' j \<longleftrightarrow> cached db c' j" by blast
  note a = got_all [OF ok(1) get_result(1) [OF ok(1) own g(1)] g(3)]
  have "\<exists>req' cm'. read_block now False dst mi off m p (rio, req, db, cm) = Inr (rio, req', relock db1 i, cm')"
    using d g new by (simp add: read_block_def setBlockIoDone_def relock_def)
  with a show ?thesis by blast
qed

lemma read_loop_ready:
  assumes lim: "o_start + unat rb < 2 ^ 64"
  shows "data_ok db \<Longrightarrow> own db (i_no mi) C \<Longrightarrow> blocks_between mi o_start (o_start + unat rb) \<subseteq> C \<Longrightarrow>
    unat off = o_start + unat tot \<Longrightarrow> unat tot \<le> unat rb \<Longrightarrow> undone dst (unat tot) (unat rb) req \<Longrightarrow>
    ready db mi o_start (o_start + unat rb) \<Longrightarrow>
    \<exists>req' db' cm'. read_loop now False dst mi rb tot off (rio, req, db, cm) = Some (Inr (rio, req', db', cm')) \<and>
      contents db' = contents db"
proof (induction "unat rb - unat tot" arbitrary: tot off req db cm rule: less_induct)
  case less
  let ?m = "chunk rb tot off"
  show ?case
  proof (cases "tot < rb")
    case False
    then show ?thesis by (subst read_loop.simps) simp
  next
    case True
    then have t: "unat tot < unat rb" by (simp add: word_less_nat_alt)
    note m = chunk_nat [OF t, of off]
    have tot': "unat (tot + ucast ?m) = unat tot + unat ?m" and off': "unat (off + ucast ?m) = unat off + unat ?m"
      using m(1) t lim less.prems(4) unat_below [of rb]
      by (simp_all add: unat_ucast_up unat_add_no_overflow)
    have fresh: "dst + unat tot \<notin> set (blockIoDoneMap req)" using less.prems(6) t by (auto simp: undone_def)
    obtain c where c: "file_block mi (o_start + unat tot) = Some c" "contents db c \<noteq> None" "idle db c"
      using less.prems(7) t unfolding ready_def by (metis add_less_cancel_left le_add1)
    then have "c \<in> C" using less.prems(3) t by (auto simp: blocks_between_def intro!: exI [of _ "o_start + unat tot"])
    have o: "of_nat (o_start + unat tot) = off" by (simp flip: less.prems(4))
    obtain d where d: "data_block mi off = Inr (Some d)" "c = device_block d"
      using c(1) unfolding file_block_def o by (auto split: sum.splits option.splits)
    obtain req1 db1 cm1 where st1: "read_block now False dst mi off ?m (dst + unat tot) (rio, req, db, cm) = Inr (rio, req1, db1, cm1)"
      "contents db1 = contents db" "\<forall>c'. idle db c' \<longrightarrow> idle db1 c'"
      using read_block_ready [OF less.prems(1,2) \<open>c \<in> C\<close> d c(2,3) fresh, of now dst ?m rio cm] by blast
    note step = read_block_result [OF less.prems(1,2) \<open>c \<in> C\<close> d fresh st1(1)]
    have ok1: "data_ok db1" "own db1 (i_no mi) C" using step by (simp_all add: reads_def)
    have und: "undone dst (unat (tot + ucast ?m)) (unat rb) req1"
      using step m(2) tot' by (intro undone_next [OF less.prems(6)]) (auto simp: addIoUnitReq_def split: option.splits)
    have dec: "unat rb - unat (tot + ucast ?m) < unat rb - unat tot" "unat (tot + ucast ?m) \<le> unat rb"
      "unat (off + ucast ?m) = o_start + unat (tot + ucast ?m)"
      unfolding tot' off' using m t less.prems(4) by linarith+
    have "ready db1 mi o_start (o_start + unat rb)" using less.prems(7) st1(2,3) unfolding ready_def by metis
    from less.hyps [OF dec(1) ok1 less.prems(3) dec(3,2) und this, of cm1]
    show ?thesis using True fresh st1(1,2) by (subst read_loop.simps) (simp add: Let_def getBlockIoDone_def)
  qed
qed


lemma real_bytes_nat:
  assumes "unat off \<le> unat (d_size (inodeData mi))" "unat off + unat n < 2 ^ 64"
  shows "unat (real_bytes mi off n) = min (unat n) (unat (d_size (inodeData mi)) - unat off)"
  using assms by (auto simp: real_bytes_def word_less_nat_alt word_le_nat_alt unat_add_no_overflow unat_sub_no_underflow)

definition no_io :: "IoReq \<Rightarrow> bool" where
  "no_io req \<longleftrightarrow> blockPendingMap req = [] \<and> sectorPendingMap req = [] \<and> blockIoDoneMap req = []"

lemma sint_small:
  assumes "unat (w :: u64) < 2 ^ 63"
  shows "sint w = int (unat w)"
proof -
  have "int (unat w) < 2 ^ 63" using assms by (metis of_nat_less_iff of_nat_numeral of_nat_power)
  moreover have "- (2 ^ 63) \<le> int (unat w)" by (rule order_trans [of _ 0]) simp_all
  ultimately have "signed_take_bit 63 (int (unat w)) = int (unat w)" by (intro signed_take_bit_int_eq_self)
  moreover have "sint w = signed_take_bit 63 (int (unat w))" by (simp add: sint_uint)
  ultimately show ?thesis by simp
qed

lemma read_result:
  assumes ok: "data_ok db" "own db (i_no mi) (blocks_between mi (unat off) (unat off + n))" and req: "no_io req"
    and n: "n = min (unat nBytes) (unat (d_size (inodeData mi)) - unat off)"
    and off: "unat off \<le> unat (d_size (inodeData mi))" "unat off + unat nBytes < 2 ^ 63"
  shows "\<exists>r. readInode now mi dst off nBytes False req db cm = Some r \<and>
    (\<forall>ret req' db' cm'. r = Inr (ret, req', db', cm') \<longrightarrow>
       reads (i_no mi) (blocks_between mi (unat off) (unat off + n)) db db' \<and>
       (\<forall>a. a < dst \<or> dst + n \<le> a \<longrightarrow> cm' a = cm a) \<and>
       (if numTotalPendingIoReq req' = 0
        then ret = int n \<and> (\<forall>k < n. file_byte db mi (unat off + k) = Some (cm' (dst + k)))
        else ret = 0 \<and> (\<forall>k < n. file_byte db mi (unat off + k) = Some (cm' (dst + k)) \<or> cm' (dst + k) = cm (dst + k)))) \<and>
    (ready db mi (unat off) (unat off + n) \<longrightarrow>
       (\<exists>req' db' cm'. r = Inr (int n, req', db', cm') \<and> numTotalPendingIoReq req' = 0 \<and> contents db' = contents db))"
proof -
  let ?C = "blocks_between mi (unat off) (unat off + n)" and ?rb = "real_bytes mi off nBytes"
  have rb: "unat ?rb = n" "sint ?rb = int n"
    using real_bytes_nat [OF off(1)] off(2) n sint_small [of ?rb] by simp_all
  have lim: "unat off + unat ?rb < 2 ^ 64" using rb n off(2) by simp
  have und: "undone dst (unat (0 :: u64)) (unat ?rb) req" using req by (simp add: undone_def no_io_def)
  have sub: "blocks_between mi (unat off) (unat off + unat ?rb) \<subseteq> ?C" by (simp add: rb)
  have st: "unat off = unat off + unat (0 :: u64)" "unat (0 :: u64) \<le> unat ?rb" by simp_all
  obtain r where r: "read_loop now False dst mi ?rb 0 off (0, req, db, cm) = Some r"
    "\<forall>st. r = Inr st \<longrightarrow> read_post ?C dst mi (unat off) 0 n (0, req, db, cm) st"
    using read_loop_result [OF lim ok sub st und, of now 0 cm] by (auto simp: rb)
  show ?thesis
  proof (cases r)
    case (Inl e)
    then have nr: "\<not> ready db mi (unat off) (unat off + n)"
      using read_loop_ready [OF lim ok sub st und, of now 0 cm] r(1) by (auto simp: rb)
    show ?thesis using r(1) nr Inl by (simp add: readInode_def)
  next
    case (Inr st)
    obtain rio req' db' cm' where s: "st = (rio, req', db', cm')" by (cases st)
    have post: "read_post ?C dst mi (unat off) 0 n (0, req, db, cm) (rio, req', db', cm')" using r(2) Inr s by simp
    have rd: "readInode now mi dst off nBytes False req db cm = Some (Inr (if 0 < rio then 0 else int n, req', db', cm'))"
      using r(1) Inr s rb(2) by (simp add: readInode_def)
    have pend: "numTotalPendingIoReq req' = 0 \<longleftrightarrow> rio = 0"
      using post req by (auto simp: read_post_def numTotalPendingIoReq_def no_io_def split: if_splits)
    have rdy: "rio = 0 \<and> contents db' = contents db" if "ready db mi (unat off) (unat off + n)"
      using read_loop_ready [OF lim ok sub st und, of now 0 cm] that r(1) Inr s by (auto simp: rb)
    show ?thesis
      by (intro exI [of _ "Inr (if 0 < rio then 0 else int n, req', db', cm')"] conjI)
         (use rd post pend rdy in \<open>auto simp: read_post_def\<close>)
  qed
qed

end
