(* ===== verification/Ufs_FileWrite.thy ===== *)
theory Ufs_FileWrite
  imports Ufs_FileProps
begin

text \<open>
  What writing a file does: which bytes of the file and which blocks of the cache a write changes,
  and that a read returns what was written.
\<close>

subsection \<open>Filling a block\<close>

lemma setItemDirty_result:
  assumes "buf_ok h b" "i \<in> set (items_of b)"
  shows "\<exists>b'. setItemDirty i True (itemIndex (h i)) (h, b) = Inr (isDirty (h i), h(i := (h i)\<lparr>isDirty := True\<rparr>), b') \<and>
    buf_ok (h(i := (h i)\<lparr>isDirty := True\<rparr>)) b' \<and> cache_items_list b' = cache_items_list b"
proof (cases "isDirty (h i)")
  case True
  then have "h(i := (h i)\<lparr>isDirty := True\<rparr>) = h" by (auto simp: fun_eq_iff)
  with True assms(1) show ?thesis by (simp add: setItemDirty_def setDirty_def Let_def)
next
  case False
  have "0 \<le> dirtyItemNum b" using assms(1) by (simp add: buf_ok_def dirty_ok_def)
  with False set_dirty_ok [OF assms False refl] show ?thesis
    by (simp add: setItemDirty_def setDirty_def adjustDirtyItemNum_def Let_def)
qed

definition filled :: "item \<Rightarrow> DataBuf \<Rightarrow> BlockBufferItem" where
  "filled i db = (items db i)\<lparr>isDirty := True, inMem := True, status := BLOCK_BUF_VALID\<rparr>"

lemma length_overlay: "k + length bs \<le> length old \<Longrightarrow> length (overlay k bs old) = length old"
  by (simp add: overlay_def)

lemma nth_overlay:
  assumes "k + length bs \<le> length old" "j < length old"
  shows "overlay k bs old ! j = (if k \<le> j \<and> j < k + length bs then bs ! (j - k) else old ! j)"
  using assms by (auto simp: overlay_def nth_append min_def)

lemma fill_result:
  assumes ok: "data_ok db" and i: "cached db c i" "status (items db i) = BLOCK_BUF_LOCKED" "itemIndex (items db i) = ino"
    and k: "k + length bs \<le> 4096"
  shows "\<exists>db'. fill_item i k bs ino db = Inr db' \<and> data_ok db' \<and> cached db' = cached db \<and>
    items db' = (items db)(i := filled i db) \<and> mem db' = (mem db)(i := overlay k bs (mem db i))"
proof -
  let ?h = "(items db)(i := (items db i)\<lparr>isDirty := True\<rparr>)" and ?m = "(mem db)(i := overlay k bs (mem db i))"
  have it: "i \<in> set (items_of (cache db))" using i(1) by (force simp: cached_def items_of_def)
  obtain b where b: "setItemDirty i True ino (items db, cache db) = Inr (isDirty (items db i), ?h, b)" "buf_ok ?h b"
    "cache_items_list b = cache_items_list (cache db)"
    using setItemDirty_result [OF data_okD(2) [OF ok] it] i(3) by auto
  let ?db = "\<lparr>items = (items db)(i := filled i db), cache = b, mem = ?m\<rparr>"
  have "fill_item i k bs ino db = Inr ?db"
    using b(1) i(2) by (cases "inMem (items db i)")
      (auto simp: fill_item_def Let_def blockFetchedCallback_def releaseBlock_def filled_def fun_eq_iff
        intro!: DataBuf.equality BlockBufferItem.equality)
  moreover have "buf_ok ((items db)(i := filled i db)) b" by (rule buf_ok_heap [OF b(2)]) (simp add: filled_def)
  then have "data_ok ?db" using ok k by (simp add: data_ok_def length_overlay)
  ultimately show ?thesis using b(3) by (intro exI [of _ ?db]) (simp add: cached_def fun_eq_iff)
qed

subsection \<open>Writing a block\<close>

text \<open>A block with changes that are in memory and that nobody has locked.\<close>

definition solid :: "DataBuf \<Rightarrow> u32 \<Rightarrow> bool" where
  "solid db c \<longleftrightarrow> (\<exists>j. cached db c j \<and> isDirty (items db j) \<and> inMem (items db j) \<and> status (items db j) \<noteq> BLOCK_BUF_LOCKED)"

text \<open>The effect on all blocks other than \<open>c\<close>.\<close>

definition frames :: "u32 \<Rightarrow> DataBuf \<Rightarrow> DataBuf \<Rightarrow> bool" where
  "frames c db db' \<longleftrightarrow> (\<forall>c' bs. c' \<noteq> c \<and> contents db' c' = Some bs \<longrightarrow> contents db c' = Some bs) \<and>
     (\<forall>c'. c' \<noteq> c \<and> solid db c' \<longrightarrow> solid db' c' \<and> contents db' c' = contents db c')"

definition wrote :: "u32 \<Rightarrow> u32 set \<Rightarrow> u32 \<Rightarrow> bytes \<Rightarrow> DataBuf \<Rightarrow> DataBuf \<Rightarrow> bool" where
  "wrote ino C c bs db db' \<longleftrightarrow> data_ok db' \<and> own db' ino C \<and> solid db' c \<and> contents db' c = Some bs \<and> frames c db db'"

lemma got_frames:
  assumes ok: "data_ok db" and g: "got c ino i db db'"
  shows "frames c db db'"
proof -
  note g' = g [unfolded got_def]
  have ok': "data_ok db'" and mm: "mem db' = mem db" using g' by blast+
  have "contents db c' = Some bs" if c: "c' \<noteq> c" "contents db' c' = Some bs" for c' bs
  proof -
    obtain j where j: "cached db' c' j" "inMem (items db' j)" "bs = mem db' j" using contents_Some [OF ok'] c(2) by blast
    then have "cached db c' j" "items db' j = items db j" using g' c(1) by blast+
    with j mm contents_cached(1) [OF ok, of c' j] show ?thesis by simp
  qed
  moreover have "solid db' c' \<and> contents db' c' = contents db c'" if c: "c' \<noteq> c" "solid db c'" for c'
  proof -
    obtain j where j: "cached db c' j" "isDirty (items db j)" "inMem (items db j)" "status (items db j) \<noteq> BLOCK_BUF_LOCKED"
      using c(2) by (auto simp: solid_def)
    have k: "cached db' c' j" using g' j(1,2) by blast
    then have e: "items db' j = items db j" using g' c(1) by blast
    have "contents db' c' = contents db c'" using contents_cached(1) [OF ok j(1)] contents_cached(1) [OF ok' k] e mm by simp
    with j k e show ?thesis by (auto simp: solid_def)
  qed
  ultimately show ?thesis unfolding frames_def by blast
qed

lemma fill_frames:
  assumes ok: "data_ok db" "data_ok db'" and i: "cached db c i" and same: "cached db' = cached db"
    "items db' = (items db)(i := filled i db)" "mem db' = (mem db)(i := bs)"
  shows "frames c db db'" "solid db' c" "contents db' c = Some bs" "itemIndex (items db i) = ino \<Longrightarrow> own db ino C \<Longrightarrow> own db' ino C"
proof -
  have ne: "j \<noteq> i" if "cached db c' j" "c' \<noteq> c" for c' j using cached_unique(2) [OF ok(1) i] that by blast
  have eq: "contents db' c' = contents db c'" if "c' \<noteq> c" for c'
  proof (cases "\<exists>j. cached db c' j")
    case True
    then obtain j where j: "cached db c' j" by blast
    then have "cached db' c' j" by (simp add: same)
    from contents_cached(1) [OF ok(1) j] contents_cached(1) [OF ok(2) this] ne [OF j that] show ?thesis by (simp add: same)
  next
    case False
    then show ?thesis using contents_cached(2) [OF ok(1), of c'] contents_cached(2) [OF ok(2), of c'] by (simp add: same)
  qed
  have "solid db' c'" if c: "c' \<noteq> c" "solid db c'" for c'
  proof -
    obtain j where j: "cached db c' j" "isDirty (items db j)" "inMem (items db j)" "status (items db j) \<noteq> BLOCK_BUF_LOCKED"
      using c(2) by (auto simp: solid_def)
    with ne [OF j(1) c(1)] show ?thesis by (auto simp: solid_def same)
  qed
  with eq show "frames c db db'" unfolding frames_def by metis
  show "solid db' c" using i by (auto simp: solid_def same filled_def)
  show "contents db' c = Some bs" using contents_cached(1) [OF ok(2), of c i] i by (simp add: same filled_def)
  show "own db' ino C" if a: "itemIndex (items db i) = ino" "own db ino C"
    using a by (auto simp: own_def same filled_def)
qed

lemma frames_trans: "frames c db db' \<Longrightarrow> frames c db' db'' \<Longrightarrow> frames c db db''"
  unfolding frames_def by metis

definition whole :: "InMemInode \<Rightarrow> u64 \<Rightarrow> u32 \<Rightarrow> bool" where
  "whole mi off m \<longleftrightarrow> off mod BSIZE_w = 0 \<and> (ucast m = BSIZE_w \<or> off + ucast m > d_size (inodeData mi))"

lemma write_got:
  assumes ok: "data_ok db" "own db ino C" and g: "got c ino i db db1"
    and l: "status (items db1 i) = BLOCK_BUF_LOCKED" "itemIndex (items db1 i) = ino" and k: "k + length bs \<le> 4096"
  shows "\<exists>db'. fill_item i k bs ino db1 = Inr db' \<and> wrote ino C c (overlay k bs (mem db i)) db db'"
proof -
  have ok1: "data_ok db1" and ci: "cached db1 c i" and mm: "mem db1 = mem db" using g by (simp_all add: got_def)
  have own1: "own db1 ino C" using got_reads [OF ok g] by (simp add: reads_def)
  obtain db' where f: "fill_item i k bs ino db1 = Inr db'" and ok': "data_ok db'"
    and e: "cached db' = cached db1" "items db' = (items db1)(i := filled i db1)" "mem db' = (mem db1)(i := overlay k bs (mem db1 i))"
    using fill_result [OF ok1 ci l k] by blast
  note ff = fill_frames [OF ok1 ok' ci e]
  have "wrote ino C c (overlay k bs (mem db i)) db db'"
    unfolding wrote_def using ok' ff(2,3) ff(4) [OF l(2) own1] frames_trans [OF got_frames [OF ok(1) g] ff(1)] mm by simp
  with f show ?thesis by blast
qed

lemma length_load [simp]: "length (load a n m) = n"
  by (simp add: load_def)

lemma nth_load: "j < n \<Longrightarrow> load a n m ! j = m (a + j)"
  by (simp add: load_def)

lemma write_block_result:
  assumes ok: "data_ok db" "own db (i_no mi) C" "c \<in> C"
    and c: "data_block mi off = Inr (Some d)" "c = device_block d" and new: "p \<notin> set (blockIoDoneMap req)"
    and m: "unat (off mod BSIZE_w) + unat m \<le> 4096"
    and w: "write_block now cm off m p (req, mi, db) = Inr (doWrite, req', mi', db')"
  shows "if doWrite
    then mi' = grow_size (off + ucast m) mi \<and> req' = req\<lparr>blockIoDoneMap := List.insert p (blockIoDoneMap req)\<rparr> \<and>
      (\<exists>base. length base = 4096 \<and> wrote (i_no mi) C c (overlay (unat (off mod BSIZE_w)) (load p (unat m) cm) base) db db' \<and>
        (case contents db c of Some old \<Rightarrow> base = old | None \<Rightarrow> whole mi off m))
    else mi' = mi \<and> req' = addIoUnitReq False c req \<and> contents db c = None \<and> reads (i_no mi) C db db' \<and> frames c db db'"
proof -
  let ?w = "whole mi off m"
  have d: "d \<noteq> 0" using w c by (auto simp: write_block_def)
  obtain i can req1 db1 where g: "FsImpl_getBlock False now c (\<not> ?w) (i_no mi) req db = Inr (i, can, req1, db1)"
    using w c d by (cases "FsImpl_getBlock False now c (\<not> ?w) (i_no mi) req db") (auto simp: write_block_def whole_def Let_def)
  have own: "own db (i_no mi) {c}" using ok(2,3) by (simp add: own_def)
  note get = get_result [OF ok(1) own g]
  show ?thesis
  proof (cases "inMem (items db1 i) \<or> can")
    case True
    then have "status (items db1 i) = BLOCK_BUF_LOCKED" "itemIndex (items db1 i) = i_no mi" using get(4) by blast+
    from write_got [OF ok(1,2) get(1) this, of "unat (off mod BSIZE_w)" "load p (unat m) cm"] m
    obtain db2 where f: "fill_item i (unat (off mod BSIZE_w)) (load p (unat m) cm) (i_no mi) db1 = Inr db2"
      "wrote (i_no mi) C c (overlay (unat (off mod BSIZE_w)) (load p (unat m) cm) (mem db i)) db db2" by auto
    have q: "req1 = req" "if inMem (items db1 i) then contents db c = Some (mem db i) else contents db c = None \<and> ?w"
      using get(2,3) True by (cases "inMem (items db1 i)"; simp split: if_splits)+
    have "doWrite \<and> mi' = grow_size (off + ucast m) mi \<and> db' = db2 \<and> req' = req\<lparr>blockIoDoneMap := List.insert p (blockIoDoneMap req)\<rparr>"
      using w c d g f(1) q new True
      by (cases ?w; cases "inMem (items db1 i)") (simp_all add: write_block_def whole_def [symmetric] Let_def setBlockIoDone_def)
    moreover have "length (mem db i) = 4096" using ok(1) by (simp add: data_ok_def)
    ultimately show ?thesis using f(2) q(2) by (auto intro!: exI [of _ "mem db i"] split: if_splits)
  next
    case False
    then have q: "contents db c = None" "req1 = addIoUnitReq False c req" using get(3) by auto
    have "\<not> doWrite \<and> mi' = mi \<and> db' = db1 \<and> req' = req1"
      using w c d g False by (cases ?w) (auto simp: write_block_def whole_def [symmetric] Let_def split: if_splits)
    with q got_reads [OF ok(1,2) get(1)] got_frames [OF ok(1) get(1)] show ?thesis by simp
  qed
qed

subsection \<open>The loop\<close>

abbreviation fsize :: "InMemInode \<Rightarrow> nat" where
  "fsize mi \<equiv> unat (d_size (inodeData mi))"

text \<open>Different blocks of a file are different blocks of the device.\<close>

definition blocks_inj :: "InMemInode \<Rightarrow> nat \<Rightarrow> bool" where
  "blocks_inj mi L \<longleftrightarrow> (\<forall>x y c. x < L \<and> y < L \<and> file_block mi x = Some c \<and> file_block mi y = Some c \<longrightarrow> x div 4096 = y div 4096)"

definition same_file :: "InMemInode \<Rightarrow> InMemInode \<Rightarrow> bool" where
  "same_file mi mi' \<longleftrightarrow> i_no mi' = i_no mi \<and> d_ext_array (inodeData mi') = d_ext_array (inodeData mi)"

lemma same_data_block: "same_file mi mi' \<Longrightarrow> data_block mi' = data_block mi"
  by (intro ext) (simp add: data_block_def same_file_def split: prod.split)

lemma same_file_block: "same_file mi mi' \<Longrightarrow> file_block mi' = file_block mi"
  by (simp add: fun_eq_iff file_block_def same_data_block)

lemma same_file_simps: "same_file mi mi' \<Longrightarrow> file_byte db mi' = file_byte db mi"
  "same_file mi mi' \<Longrightarrow> blocks_between mi' = blocks_between mi" "same_file mi mi' \<Longrightarrow> blocks_inj mi' = blocks_inj mi"
  by (simp_all add: fun_eq_iff file_byte_def blocks_between_def blocks_inj_def same_file_block)

lemma grow_same: "same_file mi (grow_size e mi)" "fsize (grow_size e mi) = max (fsize mi) (unat e)"
  by (simp_all add: same_file_def grow_size_def Let_def max_def word_le_nat_alt)

definition in_range :: "nat \<Rightarrow> nat \<Rightarrow> nat \<Rightarrow> bool" where
  "in_range a b x \<longleftrightarrow> a \<le> x \<and> x < b"

text \<open>
  What writing the bytes from \<open>t\<close> to \<open>n\<close> of a request does. Every byte of the file is the new
  one, or it is what it was before and, if the loop ran to its end, outside the range.
\<close>

definition write_post ::
    "u32 set \<Rightarrow> client_mem \<Rightarrow> nat \<Rightarrow> nat \<Rightarrow> nat \<Rightarrow> nat \<Rightarrow> write_state \<Rightarrow> bool \<times> write_state \<Rightarrow> bool" where
  "write_post C cm src o_start t n = (\<lambda>(req, mi, db) (fin, req', mi', db').
     data_ok db' \<and> own db' (i_no mi) C \<and> same_file mi mi' \<and>
     fsize mi \<le> fsize mi' \<and> fsize mi' \<le> max (fsize mi) (o_start + n) \<and> (fin \<and> t < n \<longrightarrow> o_start + n \<le> fsize mi') \<and>
     (\<forall>x v. (x < fsize mi \<or> in_range (o_start + t) (o_start + n) x) \<and> file_byte db' mi x = Some v \<longrightarrow>
        in_range (o_start + t) (o_start + n) x \<and> v = cm (src + (x - o_start)) \<or>
        \<not> (fin \<and> in_range (o_start + t) (o_start + n) x) \<and> file_byte db mi x = Some v) \<and>
     (fin \<longrightarrow> (\<forall>x. in_range (o_start + t) (o_start + n) x \<longrightarrow> (\<exists>c. file_block mi x = Some c \<and> solid db' c))) \<and>
     (\<forall>c. c \<notin> blocks_between mi (o_start + t) (o_start + n) \<longrightarrow>
        (\<forall>bs. contents db' c = Some bs \<longrightarrow> contents db c = Some bs) \<and>
        (solid db c \<longrightarrow> solid db' c \<and> contents db' c = contents db c)) \<and>
     sectorPendingMap req' = sectorPendingMap req \<and>
     (if fin then blockPendingMap req' = blockPendingMap req else blockPendingMap req' \<noteq> []))"

lemma write_post_refl:
  "data_ok db \<Longrightarrow> own db (i_no mi) C \<Longrightarrow> write_post C cm src o_start n n (req, mi, db) (True, req, mi, db)"
  by (auto simp: write_post_def same_file_def in_range_def)

lemma solid_contents: "data_ok db \<Longrightarrow> solid db c \<Longrightarrow> contents db c \<noteq> None"
  using contents_Some by (fastforce simp: solid_def)

lemma write_post_wait:
  assumes ok: "data_ok db" and c: "contents db c = None" and rd: "reads (i_no mi) C db db'" and fr: "frames c db db'"
  shows "write_post C cm src o_start t n (req, mi, db) (False, addIoUnitReq False c req, mi, db')"
proof -
  have keep: "solid db' c' \<and> contents db' c' = contents db c'" if "solid db c'" for c'
    using solid_contents [OF ok that] c fr that unfolding frames_def by metis
  have r: "data_ok db'" "own db' (i_no mi) C" "\<And>c' bs. contents db' c' = Some bs \<Longrightarrow> contents db c' = Some bs"
    using rd by (simp_all add: reads_def)
  have pend: "blockPendingMap (addIoUnitReq False c req) \<noteq> []" "sectorPendingMap (addIoUnitReq False c req) = sectorPendingMap req"
    by (auto simp: addIoUnitReq_def List.insert_def)
  show ?thesis
    unfolding write_post_def prod.case
  proof (intro conjI allI impI)
    show "in_range (o_start + t) (o_start + n) x \<and> v = cm (src + (x - o_start)) \<or>
        \<not> (False \<and> in_range (o_start + t) (o_start + n) x) \<and> file_byte db mi x = Some v"
      if "(x < fsize mi \<or> in_range (o_start + t) (o_start + n) x) \<and> file_byte db' mi x = Some v" for x v
      using file_byte_reads [OF rd] that by blast
  qed (use r keep pend in \<open>blast | simp add: same_file_def\<close>)+
qed

lemma chunk_block:
  assumes "file_block mi (o_start + t) = Some c" "t \<le> k" "k < t + m" "m \<le> 4096 - (o_start + t) mod 4096" "o_start + t + m < 2 ^ 64"
  shows "file_block mi (o_start + k) = Some c" "(o_start + k) mod 4096 = (o_start + t) mod 4096 + (k - t)"
proof -
  have e: "(o_start + t + (k - t)) div 4096 = (o_start + t) div 4096" "(o_start + t + (k - t)) mod 4096 = (o_start + t) mod 4096 + (k - t)"
    using assms by (intro mod_chunk; simp)+
  then have "(o_start + k) div 4096 = (o_start + t) div 4096" using assms by simp
  then show "file_block mi (o_start + k) = Some c"
    using file_block_same [of "o_start + k" "o_start + t" mi] assms by simp
  show "(o_start + k) mod 4096 = (o_start + t) mod 4096 + (k - t)" using e(2) assms by simp
qed


text \<open>One block, then the rest. A block that is filled without having been read has no bytes of
  the file beside the new ones.\<close>

lemma wrote_byte:
  assumes blk: "file_block mi (o_start + t) = Some c" and inj: "blocks_inj mi L" "o_start + t < L"
    and m: "0 < m" "m \<le> 4096 - (o_start + t) mod 4096" "o_start + t + m < 2 ^ 64"
    and base: "length base = 4096" "case contents db c of Some old \<Rightarrow> base = old
      | None \<Rightarrow> (o_start + t) mod 4096 = 0 \<and> (m = 4096 \<or> fsize mi < o_start + t + m)"
    and w: "wrote ino C c (overlay ((o_start + t) mod 4096) (load (src + t) m cm) base) db db1"
    and x: "x < L" "x < fsize mi \<or> in_range (o_start + t) (o_start + t + m) x" "file_byte db1 mi x = Some v"
  shows "if in_range (o_start + t) (o_start + t + m) x then v = cm (src + (x - o_start)) else file_byte db mi x = Some v"
proof -
  let ?k = "(o_start + t) mod 4096"
  obtain cx bs where cx: "file_block mi x = Some cx" "contents db1 cx = Some bs" "v = bs ! (x mod 4096)"
    using x(3) by (auto simp: file_byte_def split: option.splits)
  have km: "?k + length (load (src + t) m cm) \<le> length base" using m(2) base(1) by simp
  show ?thesis
  proof (cases "cx = c")
    case False
    then have "contents db cx = Some bs" using w cx(2) by (simp add: wrote_def frames_def)
    moreover have "\<not> in_range (o_start + t) (o_start + t + m) x"
    proof
      assume r: "in_range (o_start + t) (o_start + t + m) x"
      have "file_block mi (o_start + (x - o_start)) = Some c"
        by (rule chunk_block(1) [OF blk _ _ m(2,3)]) (use r in \<open>auto simp: in_range_def\<close>)
      with False cx(1) r show False by (simp add: in_range_def)
    qed
    ultimately show ?thesis using cx by (simp add: file_byte_def)
  next
    case True
    have bs: "bs = overlay ?k (load (src + t) m cm) base" using w cx(2) True by (simp add: wrote_def)
    have "x div 4096 = (o_start + t) div 4096" using inj x(1) blk cx(1) True unfolding blocks_inj_def by blast
    then have pos: "int x - int (x mod 4096) = int (o_start + t) - int ?k"
      by (metis minus_mod_eq_mult_div of_nat_diff mod_less_eq_dividend)
    have v: "v = (if ?k \<le> x mod 4096 \<and> x mod 4096 < ?k + m then load (src + t) m cm ! (x mod 4096 - ?k) else base ! (x mod 4096))"
      using nth_overlay [OF km, of "x mod 4096"] base(1) cx(3) bs by simp
    have in_r: "in_range (o_start + t) (o_start + t + m) x \<longleftrightarrow> ?k \<le> x mod 4096 \<and> x mod 4096 < ?k + m"
      unfolding in_range_def using pos by linarith
    show ?thesis
    proof (cases "in_range (o_start + t) (o_start + t + m) x")
      case r: True
      have "src + t + (x mod 4096 - ?k) = src + (x - o_start)" using r pos in_r by (simp add: in_range_def)
      moreover have "load (src + t) m cm ! (x mod 4096 - ?k) = cm (src + t + (x mod 4096 - ?k))"
      proof (rule nth_load)
        show "x mod 4096 - ?k < m" using r in_r by linarith
      qed
      moreover have "v = load (src + t) m cm ! (x mod 4096 - ?k)" unfolding v using r in_r by (intro if_P) blast
      ultimately show ?thesis using r by (simp only: if_True)
    next
      case r: False
      then have s: "x < fsize mi" using x(2) by blast
      have "contents db c = Some base"
      proof (cases "contents db c")
        case None
        with base(2) have "?k = 0" "m = 4096 \<or> fsize mi < o_start + t + m" by simp_all
        moreover have "x mod 4096 < 4096" by simp
        ultimately show ?thesis using r in_r s pos by (auto simp: in_range_def)
      qed (use base(2) in simp)
      moreover have "v = base ! (x mod 4096)" unfolding v using r in_r by (intro if_not_P) blast
      ultimately show ?thesis using r cx(1) True by (simp add: file_byte_def)
    qed
  qed
qed


lemma later_block:
  assumes "blocks_inj mi L" "o_start + n \<le> L" "file_block mi (o_start + t) = Some c"
    "t + m = n \<or> m = 4096 - (o_start + t) mod 4096" "t < n" "in_range (o_start + (t + m)) (o_start + n) x"
  shows "file_block mi x \<noteq> Some c"
proof
  assume "file_block mi x = Some c"
  then have eq: "x div 4096 = (o_start + t) div 4096"
    using assms(1) [unfolded blocks_inj_def, rule_format, of x "o_start + t" c] assms(2,3,5,6) by (simp add: in_range_def)
  have "m = 4096 - (o_start + t) mod 4096" using assms(4,6) by (auto simp: in_range_def)
  moreover have "o_start + (t + m) \<le> x" using assms(6) by (simp add: in_range_def)
  moreover have "4096 * ((o_start + t) div 4096) + (o_start + t) mod 4096 = o_start + t" "(o_start + t) mod 4096 < 4096" by simp_all
  ultimately have "4096 * ((o_start + t) div 4096) + 4096 \<le> x" by linarith
  then have "(o_start + t) div 4096 + 1 \<le> x div 4096" using div_le_mono [of "4096 * ((o_start + t) div 4096) + 4096" x 4096] by simp
  with eq show False by simp
qed

lemma write_post_step:
  assumes blk: "file_block mi (o_start + t) = Some c" and inj: "blocks_inj mi L" "o_start + n \<le> L" "fsize mi \<le> L"
    and m: "0 < m" "m \<le> 4096 - (o_start + t) mod 4096" "t + m \<le> n" "t + m = n \<or> m = 4096 - (o_start + t) mod 4096"
    and lim: "o_start + n < 2 ^ 64"
    and base: "length base = 4096" "case contents db c of Some old \<Rightarrow> base = old
      | None \<Rightarrow> (o_start + t) mod 4096 = 0 \<and> (m = 4096 \<or> fsize mi < o_start + t + m)"
    and w: "wrote (i_no mi) C c (overlay ((o_start + t) mod 4096) (load (src + t) m cm) base) db db1"
    and mi1: "same_file mi mi1" "fsize mi1 = max (fsize mi) (o_start + t + m)"
    and req1: "blockPendingMap req1 = blockPendingMap req" "sectorPendingMap req1 = sectorPendingMap req"
    and rest: "write_post C cm src o_start (t + m) n (req1, mi1, db1) (fin, req', mi', db')"
  shows "write_post C cm src o_start t n (req, mi, db) (fin, req', mi', db')"
proof -
  note same = same_file_block [OF mi1(1)] same_file_simps [OF mi1(1)]
  have ino: "i_no mi1 = i_no mi" using mi1(1) by (simp add: same_file_def)
  note p = rest [unfolded write_post_def prod.case same ino]
  have tn: "t < n" using m by simp
  have fr: "frames c db db1" and sc: "solid db1 c" using w by (simp_all add: wrote_def)
  have chunk: "file_block mi x = Some c" if "in_range (o_start + t) (o_start + (t + m)) x" for x
  proof -
    have "t \<le> x - o_start" "x - o_start < t + m" "o_start + (x - o_start) = x" using that by (auto simp: in_range_def)
    then show ?thesis using chunk_block(1) [OF blk, of "x - o_start" m] m lim by simp
  qed
  note wb = wrote_byte [OF blk inj(1) _ m(1,2) _ base w]
  have new: "c \<notin> blocks_between mi (o_start + (t + m)) (o_start + n)"
    using later_block [OF inj(1,2) blk m(4) tn] by (auto simp: blocks_between_def in_range_def)
  have split: "in_range (o_start + t) (o_start + n) x \<longleftrightarrow>
      in_range (o_start + t) (o_start + (t + m)) x \<or> in_range (o_start + (t + m)) (o_start + n) x" for x
    using m by (auto simp: in_range_def)
  have pl: "(\<forall>bs. contents db' c' = Some bs \<longrightarrow> contents db1 c' = Some bs) \<and>
      (solid db1 c' \<longrightarrow> solid db' c' \<and> contents db' c' = contents db1 c')"
    if "c' \<notin> blocks_between mi (o_start + (t + m)) (o_start + n)" for c' using p that by blast
  have p1: "in_range (o_start + t) (o_start + n) x \<and> v = cm (src + (x - o_start)) \<or>
      \<not> (fin \<and> in_range (o_start + t) (o_start + n) x) \<and> file_byte db mi x = Some v"
    if x: "x < fsize mi \<or> in_range (o_start + t) (o_start + n) x" "file_byte db' mi x = Some v" for x v
  proof (cases "in_range (o_start + (t + m)) (o_start + n) x")
    case True
    have "file_block mi x \<noteq> Some c" using later_block [OF inj(1,2) blk m(4) tn True] .
    then have "file_byte db mi x = Some v" if "file_byte db1 mi x = Some v"
      using that fr by (auto simp: file_byte_def frames_def split: option.splits)
    moreover have "v = cm (src + (x - o_start)) \<or> \<not> (fin \<and> in_range (o_start + (t + m)) (o_start + n) x) \<and> file_byte db1 mi x = Some v"
      using p x(2) True by blast
    ultimately show ?thesis using True split by blast
  next
    case False
    have "x < fsize mi1" using x(1) False split [of x] mi1(2) by (auto simp: in_range_def)
    then have b1: "file_byte db1 mi x = Some v" using p x(2) False by blast
    have "x < L" using x(1) inj(2,3) by (auto simp: in_range_def)
    then have "if in_range (o_start + t) (o_start + t + m) x then v = cm (src + (x - o_start)) else file_byte db mi x = Some v"
      using wb [of x v] b1 x(1) False split tn inj(2) m(3) lim by (auto simp: add.assoc)
    then show ?thesis using False split [of x] by (auto simp: add.assoc split: if_splits)
  qed
  have p2: "\<exists>c. file_block mi x = Some c \<and> solid db' c" if "fin" "in_range (o_start + t) (o_start + n) x" for x
  proof (cases "in_range (o_start + (t + m)) (o_start + n) x")
    case False
    then have "file_block mi x = Some c" using chunk that(2) split by blast
    with pl [OF new] sc show ?thesis by blast
  qed (use p that(1) in blast)
  have p3: "(\<forall>bs. contents db' c' = Some bs \<longrightarrow> contents db c' = Some bs) \<and>
      (solid db c' \<longrightarrow> solid db' c' \<and> contents db' c' = contents db c')"
    if "c' \<notin> blocks_between mi (o_start + t) (o_start + n)" for c'
  proof -
    have "c' \<noteq> c" using that blk tn by (auto simp: blocks_between_def)
    moreover have "c' \<notin> blocks_between mi (o_start + (t + m)) (o_start + n)"
      using that m(3) by (auto simp: blocks_between_def)
    ultimately show ?thesis using pl [of c'] fr unfolding frames_def by metis
  qed
  have sz: "fsize mi \<le> fsize mi'" "fsize mi' \<le> max (fsize mi) (o_start + n)" "fin \<Longrightarrow> o_start + n \<le> fsize mi'"
    using p mi1(2) m(3) by (auto simp: max_def split: if_splits)
  have sf: "same_file mi mi'" using p mi1(1) by (simp add: same_file_def)
  show ?thesis
    unfolding write_post_def prod.case
    using p p1 p2 p3 sz sf req1 by (intro conjI) (blast | simp)+
qed


lemma write_block_found:
  "write_block now cm off m p (req, mi, db) = Inr r \<Longrightarrow> \<exists>d. data_block mi off = Inr (Some d)"
  by (cases "data_block mi off") (auto simp: write_block_def split: option.splits)

lemma whole_nat:
  assumes "unat off = x" "x + unat m < 2 ^ 64"
  shows "whole mi off m \<longleftrightarrow> x mod 4096 = 0 \<and> (unat m = 4096 \<or> fsize mi < x + unat m)" "unat (off mod BSIZE_w) = x mod 4096"
proof -
  have "unat (off + ucast m) = x + unat m" using assms by (simp add: unat_add_no_overflow unat_ucast_up)
  moreover have "ucast m = BSIZE_w \<longleftrightarrow> unat m = 4096"
    by (simp add: BSIZE_w_def word_unat_eq_iff unat_ucast_up)
  moreover show e: "unat (off mod BSIZE_w) = x mod 4096" using assms(1) by (simp add: BSIZE_w_def unat_mod)
  moreover have "off mod BSIZE_w = 0 \<longleftrightarrow> unat (off mod BSIZE_w) = 0" by (simp add: word_unat_eq_iff)
  ultimately show "whole mi off m \<longleftrightarrow> x mod 4096 = 0 \<and> (unat m = 4096 \<or> fsize mi < x + unat m)"
    by (simp add: whole_def word_less_nat_alt)
qed

text \<open>One round of the loop, for the chunk of \<open>m\<close> bytes at byte \<open>t\<close> of the request.\<close>

lemma write_round:
  assumes ok: "data_ok db" "own db (i_no mi) C" "blocks_between mi o_start (o_start + n) \<subseteq> C"
    and inj: "blocks_inj mi L" "o_start + n \<le> L" "fsize mi \<le> L" and lim: "o_start + n < 2 ^ 64"
    and off: "unat off = o_start + t" "t < n" and m: "unat m = min (n - t) (4096 - (o_start + t) mod 4096)"
    and und: "undone src t n req" and w: "write_block now cm off m (src + t) (req, mi, db) = Inr (doWrite, req1, mi1, db1)"
  shows "if doWrite
    then data_ok db1 \<and> own db1 (i_no mi1) C \<and> same_file mi mi1 \<and> fsize mi1 \<le> L \<and> undone src (t + unat m) n req1 \<and>
      (\<forall>res. write_post C cm src o_start (t + unat m) n (req1, mi1, db1) res \<longrightarrow> write_post C cm src o_start t n (req, mi, db) res)
    else write_post C cm src o_start t n (req, mi, db) (False, req1, mi1, db1)"
proof -
  have mm: "0 < unat m" "unat m \<le> 4096 - (o_start + t) mod 4096" "t + unat m \<le> n"
    "t + unat m = n \<or> unat m = 4096 - (o_start + t) mod 4096"
    using m off(2) by (auto simp: min_def)
  have fresh: "src + t \<notin> set (blockIoDoneMap req)" using und off(2) by (auto simp: undone_def)
  obtain d where d: "data_block mi off = Inr (Some d)" using write_block_found [OF w] by blast
  define c where "c = device_block d"
  have blk: "file_block mi (o_start + t) = Some c" using file_block_data [OF off(1) d] by (simp add: c_def)
  then have cC: "c \<in> C" using ok(3) off(2) by (auto simp: blocks_between_def intro!: exI [of _ "o_start + t"])
  have fit: "o_start + t + unat m < 2 ^ 64" using mm(3) lim by simp
  note wn = whole_nat [OF off(1) fit]
  have "(o_start + t) mod 4096 < 4096" by simp
  then have "unat (off mod BSIZE_w) + unat m \<le> 4096" unfolding wn(2) using mm(2) by linarith
  note step = write_block_result [OF ok(1,2) cC d c_def fresh this w, unfolded wn]
  show ?thesis
  proof (cases doWrite)
    case False
    then show ?thesis using step write_post_wait [OF ok(1)] by simp
  next
    case True
    with step obtain base where s: "mi1 = grow_size (off + ucast m) mi"
      "req1 = req\<lparr>blockIoDoneMap := List.insert (src + t) (blockIoDoneMap req)\<rparr>" "length base = 4096"
      "wrote (i_no mi) C c (overlay ((o_start + t) mod 4096) (load (src + t) (unat m) cm) base) db db1"
      "case contents db c of Some old \<Rightarrow> base = old
        | None \<Rightarrow> (o_start + t) mod 4096 = 0 \<and> (unat m = 4096 \<or> fsize mi < o_start + t + unat m)"
      by auto
    have "unat (off + ucast m) = o_start + t + unat m" using off(1) fit by (simp add: unat_ucast_up unat_add_no_overflow)
    then have sf: "same_file mi mi1" "fsize mi1 = max (fsize mi) (o_start + t + unat m)"
      using grow_same(1) [of mi "off + ucast m"] grow_same(2) [of "off + ucast m" mi] by (simp_all add: s(1))
    have ok1: "data_ok db1" "own db1 (i_no mi1) C" using s(4) sf(1) by (simp_all add: wrote_def same_file_def)
    have und1: "undone src (t + unat m) n req1" by (rule undone_next [OF und]) (use mm(1) s(2) in auto)
    have sz: "fsize mi1 \<le> L" unfolding sf(2) using mm(3) inj(2,3) by (intro max.boundedI) linarith+
    have rq: "blockPendingMap req1 = blockPendingMap req" "sectorPendingMap req1 = sectorPendingMap req" by (simp_all add: s(2))
    have "write_post C cm src o_start t n (req, mi, db) res"
      if "write_post C cm src o_start (t + unat m) n (req1, mi1, db1) res" for res
      using that by (cases res) (auto intro: write_post_step [OF blk inj mm lim s(3,5,4) sf rq])
    with True ok1 sf(1) sz und1 show ?thesis by simp
  qed
qed

subsection \<open>Writing blocks that are in memory\<close>

lemma solid_idle: "data_ok db \<Longrightarrow> solid db c \<Longrightarrow> idle db c"
  unfolding solid_def idle_def using cached_unique(1) by metis

definition present :: "DataBuf \<Rightarrow> u32 \<Rightarrow> bool" where
  "present db c \<longleftrightarrow> contents db c \<noteq> None \<and> idle db c"

lemma write_block_ready:
  assumes ok: "data_ok db" "own db (i_no mi) C" "c \<in> C" and d: "data_block mi off = Inr (Some d)" "c = device_block d" "d \<noteq> 0"
    and c: "present db c" and new: "p \<notin> set (blockIoDoneMap req)" and m: "unat (off mod BSIZE_w) + unat m \<le> 4096"
  shows "\<exists>st'. write_block now cm off m p (req, mi, db) = Inr (True, st') \<and>
    (\<forall>c'. present db c' \<longrightarrow> present (snd (snd st')) c')"
proof -
  let ?w = "whole mi off m"
  have own: "own db (i_no mi) {c}" using ok(2,3) by (simp add: own_def)
  obtain bs where "contents db c = Some bs" "idle db c" using c by (auto simp: present_def)
  from get_resident [OF ok(1) own this, of now "\<not> ?w" req] obtain i db1 where
    g: "FsImpl_getBlock False now c (\<not> ?w) (i_no mi) req db = Inr (i, True, req, db1)" "inMem (items db1 i)"
      "\<forall>c' j. cached db1 c' j \<longleftrightarrow> cached db c' j" by blast
  note get = get_result [OF ok(1) own g(1)]
  have ok1: "data_ok db1" and ci: "cached db1 c i" using get(1) by (simp_all add: got_def)
  have l: "status (items db1 i) = BLOCK_BUF_LOCKED" "itemIndex (items db1 i) = i_no mi" using get(4) by simp_all
  obtain db2 where f: "fill_item i (unat (off mod BSIZE_w)) (load p (unat m) cm) (i_no mi) db1 = Inr db2" and ok2: "data_ok db2"
    and e: "cached db2 = cached db1" "items db2 = (items db1)(i := filled i db1)"
      "mem db2 = (mem db1)(i := overlay (unat (off mod BSIZE_w)) (load p (unat m) cm) (mem db1 i))"
    using fill_result [OF ok1 ci l, of "unat (off mod BSIZE_w)" "load p (unat m) cm"] m by auto
  have w: "write_block now cm off m p (req, mi, db) =
      Inr (True, req\<lparr>blockIoDoneMap := List.insert p (blockIoDoneMap req)\<rparr>, grow_size (off + ucast m) mi, db2)"
    using d g f new by (simp add: write_block_def whole_def [symmetric] Let_def setBlockIoDone_def)
  note all = got_all [OF ok(1) get(1) g(3)]
  have "present db2 c'" if p: "present db c'" for c'
  proof (cases "c' = c")
    case True
    then show ?thesis
      using fill_frames(2,3) [OF ok1 ok2 ci e] solid_idle [OF ok2, of c] by (simp add: present_def)
  next
    case False
    obtain j where j: "cached db c' j" "inMem (items db j)" using p contents_Some [OF ok(1)] by (fastforce simp: present_def)
    have j1: "cached db1 c' j" using g(3) j(1) by blast
    have ne: "j \<noteq> i" using cached_unique(2) [OF ok1 ci] j1 False by blast
    have same: "items db1 j = items db j" using get(1) False j1 unfolding got_def by blast
    have j2: "cached db2 c' j" using j1 by (simp add: e(1))
    have "contents db2 c' \<noteq> None" using contents_cached(1) [OF ok2 j2] j(2) same ne by (simp add: e(2))
    moreover have "idle db2 c'"
      unfolding idle_def
    proof (intro allI impI)
      fix k assume "cached db2 c' k"
      then have "k = j" using cached_unique(1) [OF ok2 j2] by blast
      then show "status (items db2 k) \<noteq> BLOCK_BUF_LOCKED" using p j(1) ne same by (simp add: present_def idle_def e(2))
    qed
    ultimately show ?thesis by (simp add: present_def)
  qed
  with w show ?thesis by auto
qed

text \<open>Data block 0 is reserved, and the code asserts that no file has it.\<close>

definition writable :: "DataBuf \<Rightarrow> InMemInode \<Rightarrow> nat \<Rightarrow> nat \<Rightarrow> bool" where
  "writable db mi a b \<longleftrightarrow> (\<forall>x. in_range a b x \<longrightarrow>
     (\<exists>d. data_block mi (of_nat x) = Inr (Some d) \<and> d \<noteq> 0 \<and> present db (device_block d)))"

lemma writable_step:
  assumes "writable db mi a b" "same_file mi mi'" "\<forall>c. present db c \<longrightarrow> present db' c"
  shows "writable db' mi' a b"
  using assms unfolding writable_def same_data_block [OF assms(2)] by metis


lemma write_round_ready:
  assumes ok: "data_ok db" "own db (i_no mi) C" "blocks_between mi o_start (o_start + n) \<subseteq> C" and lim: "o_start + n < 2 ^ 64"
    and off: "unat off = o_start + t" "t < n" and m: "unat m = min (n - t) (4096 - (o_start + t) mod 4096)"
    and und: "undone src t n req" and wr: "writable db mi o_start (o_start + n)"
  shows "\<exists>st'. write_block now cm off m (src + t) (req, mi, db) = Inr (True, st') \<and> (\<forall>c. present db c \<longrightarrow> present (snd (snd st')) c)"
proof -
  have fresh: "src + t \<notin> set (blockIoDoneMap req)" using und off(2) by (auto simp: undone_def)
  have o: "of_nat (o_start + t) = off" by (simp flip: off(1))
  obtain d where d: "data_block mi off = Inr (Some d)" "d \<noteq> 0" "present db (device_block d)"
    using wr off(2) unfolding writable_def in_range_def by (metis o le_add1 nat_add_left_cancel_less)
  have "file_block mi (o_start + t) = Some (device_block d)" by (rule file_block_data [OF off(1) d(1)])
  then have cC: "device_block d \<in> C" using ok(3) off(2) by (auto simp: blocks_between_def intro!: exI [of _ "o_start + t"])
  have "(o_start + t) mod 4096 < 4096" "unat m \<le> 4096 - (o_start + t) mod 4096" using m by simp_all
  then have "unat (off mod BSIZE_w) + unat m \<le> 4096"
    using off(1) by (simp add: BSIZE_w_def unat_mod)
  then show ?thesis by (rule write_block_ready [OF ok(1,2) cC d(1) refl d(2,3) fresh])
qed

lemma write_loop_result:
  assumes lim: "o_start + unat rb < 2 ^ 64" "unat rb < 2 ^ 32"
  shows "data_ok db \<Longrightarrow> own db (i_no mi) C \<Longrightarrow> blocks_between mi o_start (o_start + unat rb) \<subseteq> C \<Longrightarrow>
    blocks_inj mi L \<Longrightarrow> o_start + unat rb \<le> L \<Longrightarrow> fsize mi \<le> L \<Longrightarrow>
    unat off = o_start + unat tot \<Longrightarrow> unat tot \<le> unat rb \<Longrightarrow> undone src (unat tot) (unat rb) req \<Longrightarrow>
    \<exists>r. write_loop now cm src rb tot off (req, mi, db) = Some r \<and>
      (\<forall>res. r = Inr res \<longrightarrow> write_post C cm src o_start (unat tot) (unat rb) (req, mi, db) res) \<and>
      (writable db mi o_start (o_start + unat rb) \<longrightarrow> (\<exists>st. r = Inr (True, st)))"
proof (induction "unat rb - unat tot" arbitrary: tot off req mi db rule: less_induct)
  case less
  let ?m = "chunk rb (ucast tot) off" and ?p = "src + unat tot"
  note pre = less.prems
  show ?case
  proof (cases "ucast tot < rb")
    case False
    then have "unat tot = unat rb" using pre(8) by (simp add: word_less_nat_alt unat_ucast_up)
    then show ?thesis using False write_post_refl [OF pre(1,2)] by (subst write_loop.simps) simp
  next
    case True
    then have t: "unat tot < unat rb" by (simp add: word_less_nat_alt unat_ucast_up)
    then have "unat (ucast tot :: u64) < unat rb" by (simp add: unat_ucast_up)
    note m = chunk_nat [OF this, of off, unfolded unat_ucast_up pre(7)]
    have tot': "unat (tot + ?m) = unat tot + unat ?m" and off': "unat (off + ucast ?m) = o_start + (unat tot + unat ?m)"
      using m(1) t lim pre(7) by (simp_all add: unat_ucast_up unat_add_no_overflow)
    have "?p \<notin> set (blockIoDoneMap req)" using pre(9) t by (auto simp: undone_def)
    then have unf: "write_loop now cm src rb tot off (req, mi, db) =
        (case write_block now cm off ?m ?p (req, mi, db) of Inl e \<Rightarrow> Some (Inl e)
         | Inr (doWrite, st') \<Rightarrow> if doWrite then write_loop now cm src rb (tot + ?m) (off + ucast ?m) st' else Some (Inr (False, st')))"
      using True by (subst write_loop.simps) (simp add: Let_def getBlockIoDone_def)
    have rdy: "\<exists>st'. write_block now cm off ?m ?p (req, mi, db) = Inr (True, st') \<and> (\<forall>c. present db c \<longrightarrow> present (snd (snd st')) c)"
      if "writable db mi o_start (o_start + unat rb)"
      by (rule write_round_ready [OF pre(1,2,3) lim(1) pre(7) t m(1) pre(9) that])
    show ?thesis
    proof (cases "write_block now cm off ?m ?p (req, mi, db)")
      case (Inr res)
      obtain doWrite req1 mi1 db1 where res: "res = (doWrite, req1, mi1, db1)" by (cases res)
      note round = write_round [OF pre(1-6) lim(1) pre(7) t m(1) pre(9) Inr [unfolded res]]
      show ?thesis
      proof (cases doWrite)
        case dw: True
        note rd = round [unfolded if_P [OF dw]]
        have sf: "same_file mi mi1" using rd by blast
        have dec: "unat rb - unat (tot + ?m) < unat rb - unat tot" "unat (tot + ?m) \<le> unat rb"
          unfolding tot' using m t by linarith+
        obtain r where r: "write_loop now cm src rb (tot + ?m) (off + ucast ?m) (req1, mi1, db1) = Some r"
          "\<And>res. r = Inr res \<Longrightarrow> write_post C cm src o_start (unat tot + unat ?m) (unat rb) (req1, mi1, db1) res"
          "writable db1 mi1 o_start (o_start + unat rb) \<Longrightarrow> \<exists>st. r = Inr (True, st)"
          using less.hyps [OF dec(1) _ _ _ _ pre(5) _ _ dec(2), of db1 mi1 "off + ucast ?m" req1] rd pre(3,4) off'
          by (auto simp: same_file_simps [OF sf] tot')
        have "write_loop now cm src rb tot off (req, mi, db) = Some r" using unf Inr res dw r(1) by simp
        moreover have "\<exists>st. r = Inr (True, st)" if "writable db mi o_start (o_start + unat rb)"
          using writable_step [OF that sf, of db1] rdy [OF that] r(3) Inr res by auto
        ultimately show ?thesis using r(2) rd by blast
      qed (use unf Inr res round rdy in auto)
    qed (use unf rdy in auto)
  qed
qed

end
