(* ===== verification/Ufs_FileIo.thy ===== *)
theory Ufs_FileIo
  imports Ufs_FileWrite
begin

text \<open>
  The contract of file data: what a read returns, what a write changes, that a read returns what
  was written, and that writing one file leaves all others alone.
\<close>

subsection \<open>Reading\<close>

text \<open>A read whose blocks are all in memory.\<close>

lemma read_ready:
  assumes "data_ok db" "own db (i_no mi) (blocks_between mi (unat off) (unat off + n))" "no_io req"
    "n = min (unat nBytes) (unat (d_size (inodeData mi)) - unat off)"
    "unat off \<le> unat (d_size (inodeData mi))" "unat off + unat nBytes < 2 ^ 63" "ready db mi (unat off) (unat off + n)"
  shows "\<exists>req' db' cm'. readInode now mi dst off nBytes False req db cm = Some (Inr (int n, req', db', cm')) \<and>
    numTotalPendingIoReq req' = 0 \<and> (\<forall>k < n. file_byte db mi (unat off + k) = Some (cm' (dst + k)))"
proof -
  obtain r where r: "readInode now mi dst off nBytes False req db cm = Some r"
    "\<forall>ret req' db' cm'. r = Inr (ret, req', db', cm') \<longrightarrow>
       reads (i_no mi) (blocks_between mi (unat off) (unat off + n)) db db' \<and>
       (\<forall>a. a < dst \<or> dst + n \<le> a \<longrightarrow> cm' a = cm a) \<and>
       (if numTotalPendingIoReq req' = 0
        then ret = int n \<and> (\<forall>k < n. file_byte db mi (unat off + k) = Some (cm' (dst + k)))
        else ret = 0 \<and> (\<forall>k < n. file_byte db mi (unat off + k) = Some (cm' (dst + k)) \<or> cm' (dst + k) = cm (dst + k)))"
    "ready db mi (unat off) (unat off + n) \<longrightarrow>
       (\<exists>req' db' cm'. r = Inr (int n, req', db', cm') \<and> numTotalPendingIoReq req' = 0 \<and> contents db' = contents db)"
    using read_result [OF assms(1-6), of now dst cm] by (elim exE conjE) (rule that)
  from r(3) assms(7) obtain req' db' cm' where e: "r = Inr (int n, req', db', cm')" "numTotalPendingIoReq req' = 0" by blast
  have "\<forall>k < n. file_byte db mi (unat off + k) = Some (cm' (dst + k))"
    using r(2) [rule_format, OF e(1)] unfolding if_P [OF e(2)] by blast
  with r(1) e show ?thesis by blast
qed


text \<open>A file of one block and 10 bytes, with the block in memory.\<close>

definition demo_file :: InMemInode where
  "demo_file = demo_inode\<lparr>inodeData := (inodeData demo_inode)\<lparr>d_size := 10, d_block_count := 1,
     d_ext_array := \<lparr>e_i_block_offset = 0, e_num_blocks = 1, e_block_no = 5\<rparr> # tl (d_ext_array (inodeData demo_inode))\<rparr>\<rparr>"

definition demo_db :: DataBuf where
  "demo_db = (case run (getBlock 0 (device_block 5) 7 demo_new) demo_new of (h, b) \<Rightarrow>
     \<lparr>items = h(0 := snd (blockFetchedCallback (h 0))), cache = b, mem = (\<lambda>_. replicate blk_len 9)\<rparr>)"

definition demo_req :: IoReq where
  "demo_req = \<lparr>blockPendingMap = [], sectorPendingMap = [], blockIoDoneMap = [], append_start_off = 0\<rparr>"

lemma demo_block: "x < 4096 \<Longrightarrow> data_block demo_file (of_nat x) = Inr (Some 5)"
proof -
  assume "x < 4096"
  then have "(of_nat x :: u64) div BSIZE_w = 0" by (simp add: word_unat_eq_iff BSIZE_w_def unat_div unat_of_nat)
  moreover have "getCurrentExtentArrIdx 0 = (0, 0, 1)" by code_simp
  ultimately show ?thesis by (simp add: data_block_def demo_file_def demo_inode_def)
qed

lemma demo_db_lists: "\<exists>n. cache_items_list (cache demo_db) = [(n, device_block 5, 0)]"
  "items demo_db 0 = (demo_heap 0)\<lparr>dataPtr := dataPtr (items demo_db 0), idx := idx (items demo_db 0),
     blockSize := blockSize (items demo_db 0), blockNo := device_block 5, itemIndex := 7, inMem := True, status := BLOCK_BUF_VALID\<rparr>"
  "mem demo_db i = replicate blk_len 9"
  by (simp_all add: demo_db_def demo_defs blockFetchedCallback_def Let_def)

lemma demo_db_ok: "data_ok demo_db"
proof -
  let ?c = "device_block 5"
  have sel: "select_item ?c (fst demo_new) (snd demo_new) = Fresh 0" by (simp add: demo_defs select_item_def)
  obtain h b where n: "demo_new = (h, b)" by (cases demo_new)
  have "\<exists>s'. getBlock 0 ?c 7 (h, b) = Inr ((Some 0, 1, False), s') \<and> obtained ?c 7 0 (h, b) s'"
    using getBlock_outcome [of h b ?c 7 0] demo_ok(1) sel by (simp add: n)
  then obtain h' b' where g: "getBlock 0 ?c 7 demo_new = Inr ((Some 0, 1, False), h', b')" "buf_ok h' b'"
    by (auto simp: n obtained_def)
  then show ?thesis
    using fetched_ok [OF g(2), of 0] by (simp add: demo_db_def run_def data_ok_def blk_len_def)
qed

lemma demo_db_facts: "cached demo_db c i \<longleftrightarrow> c = device_block 5 \<and> i = 0"
  "contents demo_db (device_block 5) = Some (replicate blk_len 9)" "present demo_db (device_block 5)" "own demo_db 7 C"
proof -
  obtain n where l: "cache_items_list (cache demo_db) = [(n, device_block 5, 0)]" using demo_db_lists(1) by blast
  show c: "cached demo_db c i \<longleftrightarrow> c = device_block 5 \<and> i = 0" for c i by (auto simp: cached_def l)
  have m: "inMem (items demo_db 0)" "status (items demo_db 0) = BLOCK_BUF_VALID" "itemIndex (items demo_db 0) = 7"
    by (subst demo_db_lists(2), simp)+
  show k: "contents demo_db (device_block 5) = Some (replicate blk_len 9)" by (simp add: contents_def l m(1) demo_db_lists(3))
  show "present demo_db (device_block 5)" by (simp add: present_def k idle_def c m)
  show "own demo_db 7 C" by (simp add: own_def c m)
qed

lemma demo_file_block: "x < 4096 \<Longrightarrow> file_block demo_file x = Some (device_block 5)"
  by (simp add: file_block_def demo_block)



subsection \<open>Writing\<close>

lemma write_result:
  assumes alloc: "writeInodeAllocDataBlock req off nBytes mi fs = Some (Inr (r, mi1, fs1))" "0 \<le> sint (ucast r :: u32)"
      "pendingIo fs1 = pendingIo fs"
    and ok: "data_ok db" "own db (i_no mi1) (blocks_between mi1 (unat off) (unat off + n))" and req: "no_io req"
    and inj: "blocks_inj mi1 (max (fsize mi1) (unat off + n))"
    and n: "n = unat nBytes" "n < 2 ^ 32" "unat off + n < 2 ^ 64"
  shows "\<exists>r'. writeInode now cm src off nBytes req mi fs db = Some r' \<and>
    (\<forall>ret req' mi' fs' db'. r' = Inr (ret, req', mi', fs', db') \<longrightarrow>
       ret = (if numTotalPendingIoReq req' = 0 then int n else 0) \<and>
       write_post (blocks_between mi1 (unat off) (unat off + n)) cm src (unat off) 0 n (req, mi1, db)
         (numTotalPendingIoReq req' = 0, req', mi', db')) \<and>
    (writable db mi1 (unat off) (unat off + n) \<longrightarrow> (\<exists>req' mi' fs' db'. r' = Inr (int n, req', mi', fs', db') \<and> numTotalPendingIoReq req' = 0))"
proof -
  let ?C = "blocks_between mi1 (unat off) (unat off + n)" and ?L = "max (fsize mi1) (unat off + n)"
  have sn: "sint nBytes = int n" using n sint_small [of nBytes] by simp
  have lim: "unat off + unat nBytes < 2 ^ 64" "unat nBytes < 2 ^ 32" using n by simp_all
  have und: "undone src (unat (0 :: u32)) (unat nBytes) req" using req by (simp add: undone_def no_io_def)
  have st: "?C = blocks_between mi1 (unat off) (unat off + unat nBytes)" "unat off + unat nBytes \<le> ?L" "fsize mi1 \<le> ?L"
    "unat off = unat off + unat (0 :: u32)" "unat (0 :: u32) \<le> unat nBytes" by (simp_all add: n(1))
  obtain r' where l: "write_loop now cm src nBytes 0 off (req, mi1, db) = Some r'"
    "\<And>res. r' = Inr res \<Longrightarrow> write_post ?C cm src (unat off) 0 n (req, mi1, db) res"
    "writable db mi1 (unat off) (unat off + n) \<longrightarrow> (\<exists>st. r' = Inr (True, st))"
    using write_loop_result [OF lim ok equalityD2 [OF st(1)] inj st(2-5) und, of now cm] by (auto simp: n(1))
  have same: "req\<lparr>blockPendingMap := []\<rparr> = req" using req by (simp add: no_io_def)
  have w: "writeInode now cm src off nBytes req mi fs db = (case r' of Inl e \<Rightarrow> Some (Inl e)
      | Inr (fin, req2, mi2, db2) \<Rightarrow> Some (Inr (if fin then int n else 0, req2, mi2, fs1, db2)))"
    using alloc l(1) sn req by (simp add: writeInode_def numTotalPendingIoReq_def no_io_def same split: sum.split)
  show ?thesis
  proof (cases r')
    case (Inl e)
    then show ?thesis using w l(3) by simp
  next
    case (Inr res)
    obtain fin req2 mi2 db2 where e: "res = (fin, req2, mi2, db2)" by (cases res)
    have post: "write_post ?C cm src (unat off) 0 n (req, mi1, db) (fin, req2, mi2, db2)" using l(2) Inr e by simp
    then have "sectorPendingMap req2 = sectorPendingMap req"
      "if fin then blockPendingMap req2 = blockPendingMap req else blockPendingMap req2 \<noteq> []"
      unfolding write_post_def prod.case by blast+
    then have fin: "fin \<longleftrightarrow> numTotalPendingIoReq req2 = 0" using req by (cases fin) (simp_all add: numTotalPendingIoReq_def no_io_def)
    show ?thesis using w l(3) Inr e post fin by (intro exI [of _ "Inr (if fin then int n else 0, req2, mi2, fs1, db2)"]) simp
  qed
qed


text \<open>What a finished write leaves: the new bytes, in blocks that a read finds.\<close>

lemma write_post_parts:
  assumes "write_post C cm src o_start 0 n (req, mi, db) (fin, req', mi', db')"
  shows "data_ok db'" "own db' (i_no mi) C" "same_file mi mi'" "fsize mi \<le> fsize mi'" "fsize mi' \<le> max (fsize mi) (o_start + n)"
    "fin \<Longrightarrow> 0 < n \<Longrightarrow> o_start + n \<le> fsize mi'"
    "(x < fsize mi \<or> in_range o_start (o_start + n) x) \<Longrightarrow> file_byte db' mi x = Some v \<Longrightarrow>
       in_range o_start (o_start + n) x \<and> v = cm (src + (x - o_start)) \<or>
       \<not> (fin \<and> in_range o_start (o_start + n) x) \<and> file_byte db mi x = Some v"
    "fin \<Longrightarrow> in_range o_start (o_start + n) x \<Longrightarrow> \<exists>c. file_block mi x = Some c \<and> solid db' c"
    "c \<notin> blocks_between mi o_start (o_start + n) \<Longrightarrow> contents db' c = Some bs \<Longrightarrow> contents db c = Some bs"
  using assms unfolding write_post_def prod.case by simp_all

lemma write_post_bytes:
  assumes w: "write_post C cm src o_start 0 n (req, mi, db) (True, req', mi', db')" and k: "k < n"
  shows "file_byte db' mi (o_start + k) = Some (cm (src + k))"
proof -
  note p = write_post_parts [OF w]
  have r: "in_range o_start (o_start + n) (o_start + k)" using k by (simp add: in_range_def)
  obtain c where c: "file_block mi (o_start + k) = Some c" "solid db' c" using p(8) r by blast
  obtain bs where "contents db' c = Some bs" using solid_contents [OF p(1) c(2)] by blast
  then have v: "file_byte db' mi (o_start + k) = Some (bs ! ((o_start + k) mod 4096))" using c(1) by (simp add: file_byte_def)
  with p(7) [OF _ v] r show ?thesis by simp
qed

lemma write_post_ready:
  assumes w: "write_post C cm src o_start 0 n (req, mi, db) (True, req', mi', db')"
  shows "ready db' mi o_start (o_start + n)"
  unfolding ready_def
proof (intro allI impI)
  fix x assume "o_start \<le> x \<and> x < o_start + n"
  then obtain c where "file_block mi x = Some c" "solid db' c"
    using write_post_parts(8) [OF w, of x] by (auto simp: in_range_def)
  then show "\<exists>c. file_block mi x = Some c \<and> contents db' c \<noteq> None \<and> idle db' c"
    using solid_contents solid_idle write_post_parts(1) [OF w] by blast
qed



text \<open>C31: A read returns what was written. When a write has finished without waiting, a read of
  the same range by any client, into any buffer, succeeds at once and returns exactly the bytes
  of the write.\<close>

theorem write_then_read:
  assumes "writeInodeAllocDataBlock req off nBytes mi fs = Some (Inr (r, mi1, fs1))" "0 \<le> sint (ucast r :: u32)"
    "pendingIo fs1 = pendingIo fs"
    "data_ok db" "own db (i_no mi1) (blocks_between mi1 (unat off) (unat off + n))" "no_io req"
    "blocks_inj mi1 (max (fsize mi1) (unat off + n))" "n = unat nBytes" "n < 2 ^ 32" "unat off + n < 2 ^ 63"
    and w: "writeInode now cm src off nBytes req mi fs db = Some (Inr (ret, req', mi', fs', db'))"
      "numTotalPendingIoReq req' = 0" "0 < n"
    and req2: "no_io req2"
  shows "\<exists>req3 db3 cm3. readInode now2 mi' dst off nBytes False req2 db' cm2 = Some (Inr (int n, req3, db3, cm3)) \<and>
    numTotalPendingIoReq req3 = 0 \<and> (\<forall>k < n. cm3 (dst + k) = cm (src + k))"
proof -
  have lim: "unat off + n < 2 ^ 64" using assms(10) by simp
  have "write_post (blocks_between mi1 (unat off) (unat off + n)) cm src (unat off) 0 n (req, mi1, db)
      (numTotalPendingIoReq req' = 0, req', mi', db')"
    using write_result [OF assms(1-9) lim, of now cm src] w(1) by (elim exE conjE) simp
  then have post: "write_post (blocks_between mi1 (unat off) (unat off + n)) cm src (unat off) 0 n (req, mi1, db) (True, req', mi', db')"
    using w(2) by simp
  note p = write_post_parts [OF post]
  note same = same_file_block [OF p(3)] same_file_simps [OF p(3)]
  have sz: "unat off + n \<le> fsize mi'" using p(6) w(3) by simp
  have own: "own db' (i_no mi') (blocks_between mi' (unat off) (unat off + n))"
    using p(2,3) by (simp add: same same_file_def)
  have n: "n = min (unat nBytes) (fsize mi' - unat off)" using sz assms(8) by simp
  have off: "unat off \<le> fsize mi'" "unat off + unat nBytes < 2 ^ 63" using sz assms(8,10) by simp_all
  have rdy: "ready db' mi' (unat off) (unat off + n)" using write_post_ready [OF post] by (simp add: ready_def same)
  obtain req3 db3 cm3 where rd: "readInode now2 mi' dst off nBytes False req2 db' cm2 = Some (Inr (int n, req3, db3, cm3))"
    "numTotalPendingIoReq req3 = 0" "\<forall>k < n. file_byte db' mi' (unat off + k) = Some (cm3 (dst + k))"
    using read_ready [OF p(1) own req2 n off rdy, of now2 dst cm2] by blast
  have "cm3 (dst + k) = cm (src + k)" if "k < n" for k
    using write_post_bytes [OF post that] rd(3) that by (simp add: same)
  with rd(1,2) show ?thesis by blast
qed

text \<open>Writing four bytes at offset 2 of the file above.\<close>

lemma demo_write_pre:
  "writeInodeAllocDataBlock demo_req 2 4 demo_file fs = Some (Inr (0, demo_file, fs))" "no_io demo_req"
  "blocks_inj demo_file (max (fsize demo_file) (unat (2 :: u64) + 4))" "writable demo_db demo_file (unat (2 :: u64)) (unat (2 :: u64) + 4)"
  "own demo_db (i_no demo_file) C"
proof -
  have size: "d_size (inodeData demo_file) = 10" "i_no demo_file = 7" by (simp_all add: demo_file_def demo_inode_def)
  show "writeInodeAllocDataBlock demo_req 2 4 demo_file fs = Some (Inr (0, demo_file, fs))"
    by (simp add: writeInodeAllocDataBlock_def Let_def size)
  show "no_io demo_req" by (simp add: no_io_def demo_req_def)
  show "blocks_inj demo_file (max (fsize demo_file) (unat (2 :: u64) + 4))" by (auto simp: blocks_inj_def size)
  show "writable demo_db demo_file (unat (2 :: u64)) (unat (2 :: u64) + 4)"
    by (auto simp: writable_def in_range_def demo_block demo_db_facts(3))
  show "own demo_db (i_no demo_file) C" using demo_db_facts(4) by (simp add: size)
qed



theorem write_then_read_witness:
  "\<exists>req' mi' fs' db' req3 db3 cm3.
     writeInode 0 (\<lambda>a. of_nat a) 50 2 4 demo_req demo_file (demo_wk 0) demo_db = Some (Inr (4, req', mi', fs', db')) \<and>
     readInode 0 mi' 100 2 4 False demo_req db' (\<lambda>_. 0) = Some (Inr (4, req3, db3, cm3)) \<and> cm3 101 = 51"
proof -
  have h: "4 = unat (4 :: u64)" "(4 :: nat) < 2 ^ 32" "unat (2 :: u64) + 4 < 2 ^ 63" "0 \<le> sint (ucast (0 :: u64) :: u32)"
    "unat (2 :: u64) + 4 < 2 ^ 64" "0 < (4 :: nat)" by simp_all
  obtain req' mi' fs' db' where e: "writeInode 0 (\<lambda>a. of_nat a) 50 2 4 demo_req demo_file (demo_wk 0) demo_db =
      Some (Inr (int 4, req', mi', fs', db'))" "numTotalPendingIoReq req' = 0"
    using write_result [OF demo_write_pre(1) h(4) refl demo_db_ok demo_write_pre(5,2,3) h(1,2,5), of 0 "\<lambda>a. of_nat a" 50 "demo_wk 0"]
      demo_write_pre(4) by blast
  obtain req3 db3 cm3 where r: "readInode 0 mi' 100 2 4 False demo_req db' (\<lambda>_. 0) = Some (Inr (int 4, req3, db3, cm3))"
    "\<forall>k < 4. cm3 (100 + k) = of_nat (50 + k)"
    using write_then_read [OF demo_write_pre(1) h(4) refl demo_db_ok demo_write_pre(5,2,3) h(1-3) e h(6) demo_write_pre(2), of 0 100 "\<lambda>_. 0"]
    by blast
  from r(2) have "cm3 (100 + 1) = of_nat (50 + 1)" by (rule allE [of _ 1]) simp
  with e(1) r(1) show ?thesis by auto
qed

end
