(* ===== verification/Ufs_Ring.thy ===== *)
theory Ufs_Ring
  imports Ufs_Fifo
begin

text \<open>
  The buffer ring between applications and workers (\<open>util_buf_ring.h\<close>, \<open>util_ring_c11_mem.h\<close>,
  \<open>util_common.h\<close>, \<open>util_buf_ring.c\<close>) and its use for slot numbers (\<open>OpRingBuffer\<close> of
  \<open>FsLibShared.cc\<close>). Head and tail counters run over all 32-bit numbers and are masked on
  access. The list \<open>slots\<close> is the memory behind the ring's header; an access behind its end is
  undefined. Here every operation runs alone; \<open>Ufs_RingMt\<close> interleaves the atomic accesses of
  many threads. Waiting for another thread, which does not come here, is \<^const>\<open>Spin\<close>.
\<close>

subsection \<open>Data and initialisation\<close>

datatype util_ring_queue_behavior = UTIL_RING_QUEUE_FIXED | UTIL_RING_QUEUE_VARIABLE

record util_ring_headtail =
  head :: u32
  tail :: u32
  single :: bool

record 'a util_ring =
  ring_name :: string
  ring_flags :: u32
  ring_size :: u32
  ring_mask :: u32
  capacity :: u32
  producer :: util_ring_headtail
  consumer :: util_ring_headtail
  slots :: "'a list"

definition POWEROF2 :: "u32 \<Rightarrow> bool" where
  "POWEROF2 x = (((x - 1) AND x) = 0)"

definition UTIL_RING_SZ_MASK :: u32 where
  "UTIL_RING_SZ_MASK = 0x7fffffff"

definition sizeof_util_ring :: nat where
  "sizeof_util_ring = 384"

definition UTIL_ALIGN :: "nat \<Rightarrow> nat \<Rightarrow> nat" where
  "UTIL_ALIGN v a = (v + (a - 1)) div a * a"

definition util_ring_get_memsize :: "u32 \<Rightarrow> int" where
  "util_ring_get_memsize count =
     (if \<not> POWEROF2 count \<or> count > UTIL_RING_SZ_MASK then -22
      else int (UTIL_ALIGN (sizeof_util_ring + unat count * 8) 64))"

definition util_combine32ms1b :: "u32 \<Rightarrow> u32" where
  "util_combine32ms1b x0 =
     (let x1 = x0 OR drop_bit 1 x0;
          x2 = x1 OR drop_bit 2 x1;
          x3 = x2 OR drop_bit 4 x2;
          x4 = x3 OR drop_bit 8 x3
      in x4 OR drop_bit 16 x4)"

definition util_align32pow2 :: "u32 \<Rightarrow> u32" where
  "util_align32pow2 x = util_combine32ms1b (x - 1) + 1"

definition RING_F_SP_ENQ :: u32 where "RING_F_SP_ENQ = 1"
definition RING_F_SC_DEQ :: u32 where "RING_F_SC_DEQ = 2"
definition RING_F_EXACT_SZ :: u32 where "RING_F_EXACT_SZ = 4"

text \<open>\<open>mem\<close> is what lies behind the header; \<open>memset\<close> clears the header only.\<close>

definition util_ring_init :: "string \<Rightarrow> u32 \<Rightarrow> u32 \<Rightarrow> 'a list \<Rightarrow> int \<times> 'a util_ring" where
  "util_ring_init name count flags mem =
     (let zero = \<lparr>head = 0, tail = 0, single = False\<rparr>;
          r0 = \<lparr>ring_name = take 31 name, ring_flags = 0, ring_size = 0, ring_mask = 0, capacity = 0,
                producer = zero, consumer = zero, slots = mem\<rparr>
      in if length name \<ge> 32 then (-36, r0)
         else let r = r0\<lparr>ring_flags := flags,
                         producer := zero\<lparr>single := flags AND RING_F_SP_ENQ \<noteq> 0\<rparr>,
                         consumer := zero\<lparr>single := flags AND RING_F_SC_DEQ \<noteq> 0\<rparr>\<rparr>
              in if flags AND RING_F_EXACT_SZ \<noteq> 0
                 then let sz = util_align32pow2 (count + 1)
                      in (0, r\<lparr>ring_size := sz, ring_mask := sz - 1, capacity := count\<rparr>)
                 else if \<not> POWEROF2 count \<or> count > UTIL_RING_SZ_MASK then (-22, r)
                 else (0, r\<lparr>ring_size := count, ring_mask := count - 1, capacity := count - 1\<rparr>))"

subsection \<open>Copying objects\<close>

text \<open>Storing objects at consecutive places, four at a time and the rest by the switch.\<close>

fun put_objs :: "nat \<Rightarrow> 'a list \<Rightarrow> 'a list \<Rightarrow> 'a list res" where
  "put_objs i [] ring = Inr ring"
| "put_objs i (x # xs) ring =
     (if i < length ring then put_objs (i + 1) xs (ring[i := x]) else Inl Abort)"

fun put_quads :: "nat \<Rightarrow> 'a list \<Rightarrow> 'a list \<Rightarrow> 'a list res" where
  "put_quads i (a # b # c # d # xs) ring =
     res_bind (put_objs i [a, b, c, d] ring) (put_quads (i + 4) xs)"
| "put_quads i xs ring = put_objs i xs ring"

text \<open>The first loop of the other branch reads as many objects as there are places to the end.\<close>

definition ENQUEUE_PTRS :: "'a util_ring \<Rightarrow> u32 \<Rightarrow> 'a list \<Rightarrow> 'a util_ring res" where
  "ENQUEUE_PTRS r prod_head objs =
     (let i = prod_head AND ring_mask r
      in res_bind
           (if i + of_nat (length objs) < ring_size r then put_quads (unat i) objs (slots r)
            else let k = unat (ring_size r) - unat i
                 in if k > length objs then Inl Abort
                    else res_bind (put_objs (unat i) (take k objs) (slots r)) (put_objs 0 (drop k objs)))
           (\<lambda>ring. Inr (r\<lparr>slots := ring\<rparr>)))"

fun get_objs :: "nat \<Rightarrow> nat \<Rightarrow> 'a list \<Rightarrow> 'a list res" where
  "get_objs i 0 ring = Inr []"
| "get_objs i (Suc n) ring =
     (if i < length ring then res_bind (get_objs (i + 1) n ring) (\<lambda>xs. Inr (ring ! i # xs)) else Inl Abort)"

fun get_quads :: "nat \<Rightarrow> nat \<Rightarrow> 'a list \<Rightarrow> 'a list res" where
  "get_quads i (Suc (Suc (Suc (Suc n)))) ring =
     res_bind (get_objs i 4 ring) (\<lambda>xs. res_bind (get_quads (i + 4) n ring) (\<lambda>ys. Inr (xs @ ys)))"
| "get_quads i n ring = get_objs i n ring"

definition DEQUEUE_PTRS :: "'a util_ring \<Rightarrow> u32 \<Rightarrow> u32 \<Rightarrow> 'a list res" where
  "DEQUEUE_PTRS r cons_head n =
     (let i = cons_head AND ring_mask r
      in if i + n < ring_size r then get_quads (unat i) (unat n) (slots r)
         else let k = unat (ring_size r) - unat i
              in if k > unat n then Inl Abort
                 else res_bind (get_objs (unat i) k (slots r)) (\<lambda>xs.
                        res_bind (get_objs 0 (unat n - k) (slots r)) (\<lambda>ys. Inr (xs @ ys))))"

subsection \<open>Moving the heads and tails\<close>

definition choose_n :: "util_ring_queue_behavior \<Rightarrow> u32 \<Rightarrow> u32 \<Rightarrow> u32" where
  "choose_n behavior n room =
     (if n > room then (if behavior = UTIL_RING_QUEUE_FIXED then 0 else room) else n)"

definition free_entries :: "'a util_ring \<Rightarrow> u32 \<Rightarrow> u32" where
  "free_entries r old_head = capacity r + tail (consumer r) - old_head"

definition entries :: "'a util_ring \<Rightarrow> u32 \<Rightarrow> u32" where
  "entries r old_head = tail (producer r) - old_head"

text \<open>Nobody else moves the head, so the compare-and-swap succeeds at once. The result is the
  number of objects, the old head and the room before the move.\<close>

definition move_prod_head ::
    "u32 \<Rightarrow> util_ring_queue_behavior \<Rightarrow> 'a util_ring \<Rightarrow> (u32 \<times> u32 \<times> u32) \<times> 'a util_ring" where
  "move_prod_head n0 behavior r =
     (let old_head = head (producer r);
          room = free_entries r old_head;
          n = choose_n behavior n0 room
      in if n = 0 then ((0, old_head, room), r)
         else ((n, old_head, room), r\<lparr>producer := (producer r)\<lparr>head := old_head + n\<rparr>\<rparr>))"

definition move_cons_head ::
    "u32 \<Rightarrow> util_ring_queue_behavior \<Rightarrow> 'a util_ring \<Rightarrow> (u32 \<times> u32 \<times> u32) \<times> 'a util_ring" where
  "move_cons_head n0 behavior r =
     (let old_head = head (consumer r);
          room = entries r old_head;
          n = choose_n behavior n0 room
      in if n = 0 then ((0, old_head, room), r)
         else ((n, old_head, room), r\<lparr>consumer := (consumer r)\<lparr>head := old_head + n\<rparr>\<rparr>))"

definition update_tail :: "u32 \<Rightarrow> u32 \<Rightarrow> bool \<Rightarrow> util_ring_headtail \<Rightarrow> util_ring_headtail res" where
  "update_tail old_val new_val is_single ht =
     (if \<not> is_single \<and> tail ht \<noteq> old_val then Inl Spin else Inr (ht\<lparr>tail := new_val\<rparr>))"

subsection \<open>Enqueue and dequeue\<close>

text \<open>The results: the number of objects moved, the room that is left (\<open>free_space\<close>,
  \<open>available\<close>), the dequeued objects.\<close>

definition do_enqueue ::
    "'a list \<Rightarrow> u32 \<Rightarrow> util_ring_queue_behavior \<Rightarrow> bool \<Rightarrow> 'a util_ring \<Rightarrow> ((u32 \<times> u32) \<times> 'a util_ring) res" where
  "do_enqueue obj_table n0 behavior is_sp r =
     (case move_prod_head n0 behavior r of ((n, prod_head, room), r1) \<Rightarrow>
        if n = 0 then Inr ((0, room), r1)
        else if length obj_table < unat n then Inl Abort
        else res_bind (ENQUEUE_PTRS r1 prod_head (take (unat n) obj_table)) (\<lambda>r2.
               res_bind (update_tail prod_head (prod_head + n) is_sp (producer r2)) (\<lambda>ht.
                 Inr ((n, room - n), r2\<lparr>producer := ht\<rparr>))))"

definition do_dequeue ::
    "u32 \<Rightarrow> util_ring_queue_behavior \<Rightarrow> bool \<Rightarrow> 'a util_ring \<Rightarrow> ((u32 \<times> u32 \<times> 'a list) \<times> 'a util_ring) res" where
  "do_dequeue n0 behavior is_sc r =
     (case move_cons_head n0 behavior r of ((n, cons_head, room), r1) \<Rightarrow>
        if n = 0 then Inr ((0, room, []), r1)
        else res_bind (DEQUEUE_PTRS r1 cons_head n) (\<lambda>objs.
               res_bind (update_tail cons_head (cons_head + n) is_sc (consumer r1)) (\<lambda>ht.
                 Inr ((n, room - n, objs), r1\<lparr>consumer := ht\<rparr>))))"

definition mp_enqueue_bulk :: "'a list \<Rightarrow> u32 \<Rightarrow> 'a util_ring \<Rightarrow> ((u32 \<times> u32) \<times> 'a util_ring) res" where
  "mp_enqueue_bulk obj_table n = do_enqueue obj_table n UTIL_RING_QUEUE_FIXED False"

definition sp_enqueue_bulk :: "'a list \<Rightarrow> u32 \<Rightarrow> 'a util_ring \<Rightarrow> ((u32 \<times> u32) \<times> 'a util_ring) res" where
  "sp_enqueue_bulk obj_table n = do_enqueue obj_table n UTIL_RING_QUEUE_FIXED True"

definition enqueue_bulk :: "'a list \<Rightarrow> u32 \<Rightarrow> 'a util_ring \<Rightarrow> ((u32 \<times> u32) \<times> 'a util_ring) res" where
  "enqueue_bulk obj_table n r = do_enqueue obj_table n UTIL_RING_QUEUE_FIXED (single (producer r)) r"

definition enqueue_burst :: "'a list \<Rightarrow> u32 \<Rightarrow> 'a util_ring \<Rightarrow> ((u32 \<times> u32) \<times> 'a util_ring) res" where
  "enqueue_burst obj_table n r = do_enqueue obj_table n UTIL_RING_QUEUE_VARIABLE (single (producer r)) r"

definition mp_enqueue_burst :: "'a list \<Rightarrow> u32 \<Rightarrow> 'a util_ring \<Rightarrow> ((u32 \<times> u32) \<times> 'a util_ring) res" where
  "mp_enqueue_burst obj_table n = do_enqueue obj_table n UTIL_RING_QUEUE_VARIABLE False"

definition sp_enqueue_burst :: "'a list \<Rightarrow> u32 \<Rightarrow> 'a util_ring \<Rightarrow> ((u32 \<times> u32) \<times> 'a util_ring) res" where
  "sp_enqueue_burst obj_table n = do_enqueue obj_table n UTIL_RING_QUEUE_VARIABLE True"

definition ENOBUFS :: int where "ENOBUFS = 105"
definition ENOENT :: int where "ENOENT = 2"

definition mp_enqueue :: "'a \<Rightarrow> 'a util_ring \<Rightarrow> (int \<times> 'a util_ring) res" where
  "mp_enqueue obj r = res_bind (mp_enqueue_bulk [obj] 1 r) (\<lambda>((n, _), r'). Inr (if n \<noteq> 0 then 0 else - ENOBUFS, r'))"

definition sp_enqueue :: "'a \<Rightarrow> 'a util_ring \<Rightarrow> (int \<times> 'a util_ring) res" where
  "sp_enqueue obj r = res_bind (sp_enqueue_bulk [obj] 1 r) (\<lambda>((n, _), r'). Inr (if n \<noteq> 0 then 0 else - ENOBUFS, r'))"

definition ring_enqueue :: "'a \<Rightarrow> 'a util_ring \<Rightarrow> (int \<times> 'a util_ring) res" where
  "ring_enqueue obj r = res_bind (enqueue_bulk [obj] 1 r) (\<lambda>((n, _), r'). Inr (if n \<noteq> 0 then 0 else - ENOBUFS, r'))"

definition mc_dequeue_bulk :: "u32 \<Rightarrow> 'a util_ring \<Rightarrow> ((u32 \<times> u32 \<times> 'a list) \<times> 'a util_ring) res" where
  "mc_dequeue_bulk n = do_dequeue n UTIL_RING_QUEUE_FIXED False"

definition sc_dequeue_bulk :: "u32 \<Rightarrow> 'a util_ring \<Rightarrow> ((u32 \<times> u32 \<times> 'a list) \<times> 'a util_ring) res" where
  "sc_dequeue_bulk n = do_dequeue n UTIL_RING_QUEUE_FIXED True"

definition dequeue_bulk :: "u32 \<Rightarrow> 'a util_ring \<Rightarrow> ((u32 \<times> u32 \<times> 'a list) \<times> 'a util_ring) res" where
  "dequeue_bulk n r = do_dequeue n UTIL_RING_QUEUE_FIXED (single (consumer r)) r"

definition dequeue_burst :: "u32 \<Rightarrow> 'a util_ring \<Rightarrow> ((u32 \<times> u32 \<times> 'a list) \<times> 'a util_ring) res" where
  "dequeue_burst n r = do_dequeue n UTIL_RING_QUEUE_VARIABLE (single (consumer r)) r"

definition mc_dequeue_burst :: "u32 \<Rightarrow> 'a util_ring \<Rightarrow> ((u32 \<times> u32 \<times> 'a list) \<times> 'a util_ring) res" where
  "mc_dequeue_burst n = do_dequeue n UTIL_RING_QUEUE_VARIABLE False"

definition sc_dequeue_burst :: "u32 \<Rightarrow> 'a util_ring \<Rightarrow> ((u32 \<times> u32 \<times> 'a list) \<times> 'a util_ring) res" where
  "sc_dequeue_burst n = do_dequeue n UTIL_RING_QUEUE_VARIABLE True"

definition mc_dequeue :: "'a util_ring \<Rightarrow> ((int \<times> 'a list) \<times> 'a util_ring) res" where
  "mc_dequeue r = res_bind (mc_dequeue_bulk 1 r) (\<lambda>((n, _, objs), r'). Inr ((if n \<noteq> 0 then 0 else - ENOENT, objs), r'))"

definition sc_dequeue :: "'a util_ring \<Rightarrow> ((int \<times> 'a list) \<times> 'a util_ring) res" where
  "sc_dequeue r = res_bind (sc_dequeue_bulk 1 r) (\<lambda>((n, _, objs), r'). Inr ((if n \<noteq> 0 then 0 else - ENOENT, objs), r'))"

definition ring_dequeue :: "'a util_ring \<Rightarrow> ((int \<times> 'a list) \<times> 'a util_ring) res" where
  "ring_dequeue r = res_bind (dequeue_bulk 1 r) (\<lambda>((n, _, objs), r'). Inr ((if n \<noteq> 0 then 0 else - ENOENT, objs), r'))"

definition util_ring_count :: "'a util_ring \<Rightarrow> u32" where
  "util_ring_count r =
     (let count = (tail (producer r) - tail (consumer r)) AND ring_mask r
      in if count > capacity r then capacity r else count)"

definition util_ring_free_count :: "'a util_ring \<Rightarrow> u32" where
  "util_ring_free_count r = capacity r - util_ring_count r"

definition util_ring_full :: "'a util_ring \<Rightarrow> bool" where
  "util_ring_full r \<longleftrightarrow> util_ring_free_count r = 0"

definition util_ring_empty :: "'a util_ring \<Rightarrow> bool" where
  "util_ring_empty r \<longleftrightarrow> util_ring_count r = 0"

definition util_ring_get_size :: "'a util_ring \<Rightarrow> u32" where
  "util_ring_get_size r = ring_size r"

definition util_ring_get_capacity :: "'a util_ring \<Rightarrow> u32" where
  "util_ring_get_capacity r = capacity r"

subsection \<open>Rings of slot numbers\<close>

text \<open>The object at place \<open>idx\<close> of the source table is the number \<open>idx\<close> itself. A dequeue that
  gets nothing leaves the null pointer, slot 0, in its result.\<close>

record OpRingBuffer =
  ringSize :: u32
  srcDstMaxNo :: int
  ringPtr :: "u64 util_ring"

definition OpRingBuffer_enqueue :: "int \<Rightarrow> OpRingBuffer \<Rightarrow> (u32 \<times> OpRingBuffer) res" where
  "OpRingBuffer_enqueue i q =
     (if \<not> (0 \<le> i \<and> i < srcDstMaxNo q) then Inl Abort
      else res_bind (mp_enqueue_bulk [of_int i] 1 (ringPtr q)) (\<lambda>((n, _), r). Inr (n, q\<lparr>ringPtr := r\<rparr>)))"

definition OpRingBuffer_dequeue :: "OpRingBuffer \<Rightarrow> ((u32 \<times> int) \<times> OpRingBuffer) res" where
  "OpRingBuffer_dequeue q =
     res_bind (mc_dequeue_bulk 1 (ringPtr q)) (\<lambda>((n, _, objs), r).
       Inr ((n, case objs of [] \<Rightarrow> 0 | x # _ \<Rightarrow> sint (ucast x :: u32)), q\<lparr>ringPtr := r\<rparr>))"

text \<open>The result of \<open>util_ring_init\<close> is ignored.\<close>

definition initRingMemory :: "string \<Rightarrow> u64 list \<Rightarrow> OpRingBuffer \<Rightarrow> OpRingBuffer" where
  "initRingMemory name mem q = q\<lparr>ringPtr := snd (util_ring_init name (ringSize q) 0 mem)\<rparr>"

subsection \<open>Circular storage\<close>

text \<open>Reference versions of the copies: object \<open>i\<close> of a batch that starts at counter \<open>s\<close> is at
  place \<open>(s + i) mod S\<close>.\<close>

fun wr :: "nat \<Rightarrow> nat \<Rightarrow> 'a list \<Rightarrow> 'a list \<Rightarrow> 'a list" where
  "wr S s [] ring = ring"
| "wr S s (x # xs) ring = wr S (s + 1) xs (ring[s mod S := x])"

definition rd :: "nat \<Rightarrow> nat \<Rightarrow> nat \<Rightarrow> 'a list \<Rightarrow> 'a list" where
  "rd S s n ring = map (\<lambda>i. ring ! ((s + i) mod S)) [0..<n]"

lemma length_wr [simp]: "length (wr S s xs ring) = length ring"
  by (induction S s xs ring rule: wr.induct) simp_all

lemma length_rd [simp]: "length (rd S s n ring) = n"
  by (simp add: rd_def)

lemma wr_append: "wr S s (xs @ ys) ring = wr S (s + length xs) ys (wr S s xs ring)"
  by (induction S s xs ring rule: wr.induct) simp_all

lemma wr_mod: "a mod S = b mod S \<Longrightarrow> wr S a xs ring = wr S b xs ring"
proof (induction xs arbitrary: a b ring)
  case (Cons x xs)
  have "Suc a mod S = Suc b mod S" using mod_shift [OF Cons.prems, of 1] by simp
  from Cons.IH [OF this] Cons.prems show ?case by simp
qed simp

lemma rd_mod: "a mod S = b mod S \<Longrightarrow> rd S a n ring = rd S b n ring"
  by (simp add: rd_def mod_shift [of a S b])

lemma nth_wr_out:
  assumes "\<forall>i < length xs. q \<noteq> (s + i) mod S"
  shows "wr S s xs ring ! q = ring ! q"
  using assms
proof (induction xs arbitrary: s ring)
  case (Cons x xs)
  have "\<forall>i < length xs. q \<noteq> (Suc s + i) mod S" using Cons.prems by force
  moreover have "q \<noteq> s mod S" using Cons.prems by force
  ultimately show ?case using Cons.IH [of "Suc s" "ring[s mod S := x]"] by simp
qed simp

lemma nth_wr_in:
  assumes "i < length xs" "length xs \<le> S" "S \<le> length ring"
  shows "wr S s xs ring ! ((s + i) mod S) = xs ! i"
  using assms
proof (induction xs arbitrary: s i ring)
  case (Cons x xs)
  show ?case
  proof (cases i)
    case 0
    have "s mod S \<noteq> (Suc s + j) mod S" if "j < length xs" for j
      using mod_distinct [of 0 "Suc j" S s] that Cons.prems(2) by simp
    moreover have "s mod S < S" using Cons.prems(2) by (intro mod_less_divisor) simp
    then have "s mod S < length ring" using Cons.prems(3) by simp
    ultimately show ?thesis using 0 nth_wr_out [of xs "s mod S" "Suc s" S "ring[s mod S := x]"] by simp
  next
    case (Suc j)
    then show ?thesis using Cons.IH [of j "ring[s mod S := x]" "Suc s"] Cons.prems by simp
  qed
qed simp

lemma rd_wr:
  assumes "u + length xs \<le> S" "S \<le> length ring"
  shows "rd S s (u + length xs) (wr S (s + u) xs ring) = rd S s u ring @ xs"
proof (rule nth_equalityI)
  fix j assume "j < length (rd S s (u + length xs) (wr S (s + u) xs ring))"
  then have j: "j < u + length xs" by simp
  show "rd S s (u + length xs) (wr S (s + u) xs ring) ! j = (rd S s u ring @ xs) ! j"
  proof (cases "j < u")
    case True
    have "(s + j) mod S \<noteq> (s + u + i) mod S" if "i < length xs" for i
      using mod_distinct [of j "u + i" S s] True that assms(1) by (simp add: add.assoc)
    then have "wr S (s + u) xs ring ! ((s + j) mod S) = ring ! ((s + j) mod S)" by (intro nth_wr_out) simp
    then show ?thesis using True j by (simp add: rd_def nth_append)
  next
    case False
    then have "(s + j) mod S = (s + u + (j - u)) mod S" by simp
    moreover have "wr S (s + u) xs ring ! ((s + u + (j - u)) mod S) = xs ! (j - u)"
      using nth_wr_in [of "j - u" xs S ring "s + u"] False j assms by simp
    ultimately show ?thesis using False j by (simp add: rd_def nth_append)
  qed
qed simp

lemma rd_split: "n \<le> u \<Longrightarrow> rd S s n ring = take n (rd S s u ring)"
  "n \<le> u \<Longrightarrow> rd S (s + n) (u - n) ring = drop n (rd S s u ring)"
  by (auto simp: rd_def take_map drop_map intro!: nth_equalityI) (simp add: add.assoc)

subsection \<open>The copies store and load circularly\<close>

lemma put_objs_append: "put_objs i (xs @ ys) ring = res_bind (put_objs i xs ring) (put_objs (i + length xs) ys)"
  by (induction i xs ring rule: put_objs.induct) simp_all

lemma put_quads_eq: "put_quads i xs ring = put_objs i xs ring"
proof (induction i xs ring rule: put_quads.induct)
  case (1 i a b c d xs ring)
  then have "put_quads (i + 4) xs = put_objs (i + 4) xs" by (simp add: fun_eq_iff)
  moreover have "i + length [a, b, c, d] = i + 4" by simp
  with put_objs_append [of i "[a, b, c, d]" xs ring]
  have "put_objs i (a # b # c # d # xs) ring = res_bind (put_objs i [a, b, c, d] ring) (put_objs (i + 4) xs)"
    by (simp only: append.simps)
  ultimately show ?case by (simp only: put_quads.simps)
qed simp_all

lemma put_objs_wr:
  "i + length xs \<le> S \<Longrightarrow> S \<le> length ring \<Longrightarrow> put_objs i xs ring = Inr (wr S i xs ring)"
  by (induction i xs ring rule: put_objs.induct) simp_all

lemma get_objs_rd: "i + n \<le> S \<Longrightarrow> S \<le> length ring \<Longrightarrow> get_objs i n ring = Inr (rd S i n ring)"
proof (induction i n ring rule: get_objs.induct)
  case (2 i n ring)
  then have "get_objs (i + 1) n ring = Inr (rd S (i + 1) n ring)" by simp
  moreover have "rd S i (Suc n) ring = ring ! i # rd S (i + 1) n ring"
    using 2 by (simp add: rd_def upt_conv_Cons map_Suc_upt [symmetric] comp_def del: upt_Suc)
  ultimately show ?case using 2 by simp
qed (simp add: rd_def)

lemma rd_append: "rd S s (n + m) ring = rd S s n ring @ rd S (s + n) m ring"
  using rd_split [of n "n + m" S s ring] by (metis add_diff_cancel_left' append_take_drop_id le_add1)

lemma get_quads_rd: "i + n \<le> S \<Longrightarrow> S \<le> length ring \<Longrightarrow> get_quads i n ring = Inr (rd S i n ring)"
proof (induction i n ring rule: get_quads.induct)
  case (1 i n ring)
  then show ?case using get_objs_rd [of i 4 S ring] rd_append [of S i 4 n ring] by (simp add: numeral_eq_Suc)
qed (simp_all add: get_objs_rd del: get_objs.simps)

text \<open>A ring as \<open>util_ring_init\<close> leaves it: a power of two of places, all in memory.\<close>

definition ring_shape :: "'a util_ring \<Rightarrow> bool" where
  "ring_shape r \<longleftrightarrow> (\<exists>k \<le> 31. unat (ring_size r) = 2 ^ k) \<and> ring_mask r = ring_size r - 1 \<and>
     capacity r < ring_size r \<and> unat (ring_size r) \<le> length (slots r)"

lemma masked:
  assumes "ring_shape r"
  shows "unat (w AND ring_mask r) = unat w mod unat (ring_size r)"
proof -
  obtain k where "unat (ring_size r) = 2 ^ k" using assms by (auto simp: ring_shape_def)
  from unat_and_pow2 [OF this] assms show ?thesis by (simp add: ring_shape_def)
qed

lemma ring_size_pos:
  assumes "ring_shape r"
  shows "0 < unat (ring_size r)" "unat (ring_size r) \<le> 2 ^ 31" "unat (ring_size r) dvd 2 ^ 32"
proof -
  obtain k where k: "k \<le> 31" "unat (ring_size r) = 2 ^ k" using assms by (auto simp: ring_shape_def)
  show "0 < unat (ring_size r)" by (simp add: k(2))
  show "unat (ring_size r) \<le> 2 ^ 31" using k(1) unfolding k(2) by (intro power_increasing) simp_all
  show "unat (ring_size r) dvd 2 ^ 32" using k(1) unfolding k(2) by (intro le_imp_power_dvd) simp
qed

lemma fits_check:
  assumes "ring_shape r" "n < unat (ring_size r)"
  shows "(h AND ring_mask r) + of_nat n < ring_size r \<longleftrightarrow> unat h mod unat (ring_size r) + n < unat (ring_size r)"
proof -
  have lt: "unat (h AND ring_mask r) < unat (ring_size r)"
    using ring_size_pos(1) [OF assms(1)] by (simp add: masked [OF assms(1)])
  have n: "unat (of_nat n :: u32) = n" using assms(2) ring_size_pos(2) [OF assms(1)] by (simp add: unat_of_nat)
  have "unat ((h AND ring_mask r) + of_nat n) = unat (h AND ring_mask r) + n"
    using lt assms(2) ring_size_pos(2) [OF assms(1)] n by (simp add: unat_add_no_overflow)
  then show ?thesis by (simp add: word_less_nat_alt masked [OF assms(1)])
qed

lemma ENQUEUE_PTRS_wr:
  assumes "ring_shape r" "length objs < unat (ring_size r)"
  shows "ENQUEUE_PTRS r h objs = Inr (r\<lparr>slots := wr (unat (ring_size r)) (unat h) objs (slots r)\<rparr>)"
proof -
  let ?S = "unat (ring_size r)" and ?i = "unat h mod unat (ring_size r)"
  have S: "?S \<le> length (slots r)" "0 < ?S" using assms(1) ring_size_pos(1) by (simp_all add: ring_shape_def)
  have w: "wr ?S (unat h) objs (slots r) = wr ?S ?i objs (slots r)" by (rule wr_mod) simp
  show ?thesis
  proof (cases "?i + length objs < ?S")
    case True
    then show ?thesis
      using fits_check [OF assms, of h] S w put_objs_wr [of ?i objs ?S "slots r"]
      by (simp add: ENQUEUE_PTRS_def put_quads_eq masked [OF assms(1)] Let_def)
  next
    case False
    let ?k = "?S - ?i"
    have i: "?i < ?S" using S(2) by simp
    have "objs = take ?k objs @ drop ?k objs" by simp
    then have "wr ?S ?i objs (slots r) = wr ?S (?i + ?k) (drop ?k objs) (wr ?S ?i (take ?k objs) (slots r))"
      using False by (metis (no_types, lifting) length_take min.absorb2 le_diff_conv not_less wr_append add.commute)
    also have "\<dots> = wr ?S 0 (drop ?k objs) (wr ?S ?i (take ?k objs) (slots r))" using i by (intro wr_mod) simp
    finally have eq: "wr ?S ?i objs (slots r) = wr ?S 0 (drop ?k objs) (wr ?S ?i (take ?k objs) (slots r))" .
    have "put_objs 0 (drop ?k objs) (wr ?S ?i (take ?k objs) (slots r)) = Inr (wr ?S ?i objs (slots r))"
      unfolding eq by (rule put_objs_wr) (use assms(2) i S(1) in \<open>simp, linarith, simp\<close>)
    moreover have "put_objs ?i (take ?k objs) (slots r) = Inr (wr ?S ?i (take ?k objs) (slots r))"
      by (rule put_objs_wr) (use i S(1) in simp_all)
    ultimately show ?thesis
      using False fits_check [OF assms, of h] w
      by (simp add: ENQUEUE_PTRS_def masked [OF assms(1)] Let_def)
  qed
qed

lemma DEQUEUE_PTRS_rd:
  assumes "ring_shape r" "unat n < unat (ring_size r)"
  shows "DEQUEUE_PTRS r h n = Inr (rd (unat (ring_size r)) (unat h) (unat n) (slots r))"
proof -
  let ?S = "unat (ring_size r)" and ?i = "unat h mod unat (ring_size r)"
  have S: "?S \<le> length (slots r)" "0 < ?S" using assms(1) ring_size_pos(1) by (simp_all add: ring_shape_def)
  have w: "rd ?S (unat h) (unat n) (slots r) = rd ?S ?i (unat n) (slots r)" by (rule rd_mod) simp
  show ?thesis
  proof (cases "?i + unat n < ?S")
    case True
    then show ?thesis
      using fits_check [OF assms, of h] S w get_quads_rd [of ?i "unat n" ?S "slots r"]
      by (simp add: DEQUEUE_PTRS_def masked [OF assms(1)] Let_def)
  next
    case False
    let ?k = "?S - ?i"
    have i: "?i < ?S" using S(2) by simp
    have k: "unat n = ?k + (unat n - ?k)" using False by simp
    have "rd ?S ?i (unat n) (slots r) = rd ?S ?i ?k (slots r) @ rd ?S (?i + ?k) (unat n - ?k) (slots r)"
      using rd_append [of ?S ?i ?k "unat n - ?k" "slots r"] k by simp
    also have "rd ?S (?i + ?k) (unat n - ?k) (slots r) = rd ?S 0 (unat n - ?k) (slots r)" using i by (intro rd_mod) simp
    finally have eq: "rd ?S ?i (unat n) (slots r) = rd ?S ?i ?k (slots r) @ rd ?S 0 (unat n - ?k) (slots r)" .
    have "get_objs 0 (unat n - ?k) (slots r) = Inr (rd ?S 0 (unat n - ?k) (slots r))"
      by (rule get_objs_rd) (use assms(2) i S(1) in \<open>linarith, simp\<close>)
    moreover have "get_objs ?i ?k (slots r) = Inr (rd ?S ?i ?k (slots r))"
      by (rule get_objs_rd) (use i S(1) in simp_all)
    ultimately show ?thesis
      using False fits_check [OF assms, of h] w eq
      by (simp add: DEQUEUE_PTRS_def masked [OF assms(1)] Let_def)
  qed
qed

end
