(* ===== verification/Ufs_RingProps.thy ===== *)
theory Ufs_RingProps
  imports Ufs_Ring
begin

text \<open>
  The buffer ring is a bounded queue: its view as a list, what enqueue and dequeue do to it on
  every branch, also when the counters pass 2 ^ 32, and its interpretation as the contract of
  \<open>Ufs_Fifo\<close>.
\<close>

definition used :: "'a util_ring \<Rightarrow> nat" where
  "used r = unat (tail (producer r) - tail (consumer r))"

text \<open>No operation is under way, and no more objects are stored than the capacity.\<close>

definition ring_ok :: "'a util_ring \<Rightarrow> bool" where
  "ring_ok r \<longleftrightarrow> ring_shape r \<and> head (producer r) = tail (producer r) \<and>
     head (consumer r) = tail (consumer r) \<and> used r \<le> unat (capacity r)"

definition ring_elems :: "'a util_ring \<Rightarrow> 'a list" where
  "ring_elems r = rd (unat (ring_size r)) (unat (tail (consumer r))) (used r) (slots r)"

lemma length_elems [simp]: "length (ring_elems r) = used r"
  by (simp add: ring_elems_def)

lemma unat_add_mod:
  assumes "ring_shape r"
  shows "unat (a + b :: u32) mod unat (ring_size r) = (unat a + unat b) mod unat (ring_size r)"
  using ring_size_pos(3) [OF assms] by (simp add: unat_word_ariths mod_mod_cancel)

lemma room:
  assumes "ring_ok r"
  shows "unat (free_entries r (head (producer r))) = unat (capacity r) - used r"
    "unat (entries r (head (consumer r))) = used r"
proof -
  let ?u = "tail (producer r) - tail (consumer r)"
  have "free_entries r (head (producer r)) = capacity r - ?u"
    using assms by (simp add: ring_ok_def free_entries_def)
  moreover have "?u \<le> capacity r" using assms by (simp add: ring_ok_def used_def word_le_nat_alt)
  ultimately show "unat (free_entries r (head (producer r))) = unat (capacity r) - used r"
    by (simp add: unat_sub used_def)
  show "unat (entries r (head (consumer r))) = used r"
    using assms by (simp add: ring_ok_def entries_def used_def)
qed

lemma capacity_less: "ring_shape r \<Longrightarrow> unat (capacity r) < unat (ring_size r)"
  by (simp add: ring_shape_def word_less_nat_alt)

text \<open>Storing \<open>xs\<close> behind the stored objects; taking the first \<open>n\<close> objects.\<close>

lemma enqueue_effect:
  assumes "ring_ok r" "used r + length xs \<le> unat (capacity r)"
    "r' = r\<lparr>producer := (producer r)\<lparr>head := tail (producer r) + of_nat (length xs),
                                    tail := tail (producer r) + of_nat (length xs)\<rparr>,
            slots := wr (unat (ring_size r)) (unat (tail (producer r))) xs (slots r)\<rparr>"
  shows "ring_ok r'" "ring_elems r' = ring_elems r @ xs" "used r' = used r + length xs"
proof -
  have sh: "ring_shape r" using assms(1) by (simp add: ring_ok_def)
  let ?S = "unat (ring_size r)" and ?pt = "tail (producer r)" and ?ct = "tail (consumer r)"
  have cap: "unat (capacity r) < ?S" "?S \<le> length (slots r)" "?S \<le> 2 ^ 31"
    using capacity_less [OF sh] sh ring_size_pos(2) [OF sh] by (simp_all add: ring_shape_def)
  have n: "unat (of_nat (length xs) :: u32) = length xs" using assms(2) cap by (simp add: unat_of_nat)
  have eq: "?pt + of_nat (length xs) - ?ct = (?pt - ?ct) + of_nat (length xs)" by simp
  have "unat ((?pt - ?ct) + of_nat (length xs)) = unat (?pt - ?ct) + length xs"
    using assms(2) cap n by (simp add: unat_add_no_overflow used_def)
  then have "unat (?pt + of_nat (length xs) - ?ct) = unat (?pt - ?ct) + length xs" unfolding eq .
  then show u: "used r' = used r + length xs" by (simp add: used_def assms(3))
  have "(unat ?ct + used r) mod ?S = unat ?pt mod ?S"
    using unat_add_mod [OF sh, of ?ct "?pt - ?ct"] by (simp add: used_def)
  then have w: "wr ?S (unat ?pt) xs (slots r) = wr ?S (unat ?ct + used r) xs (slots r)"
    by (intro wr_mod) simp
  have el: "ring_elems r' = rd ?S (unat ?ct) (used r + length xs) (slots r')"
    unfolding ring_elems_def u by (simp add: assms(3))
  also have "slots r' = wr ?S (unat ?ct + used r) xs (slots r)" by (simp add: assms(3) w)
  finally show "ring_elems r' = ring_elems r @ xs"
    using rd_wr [of "used r" xs ?S "slots r" "unat ?ct"] assms(2) cap by (simp add: ring_elems_def)
  show "ring_ok r'" using assms(1,2) u unfolding ring_ok_def u by (simp add: assms(3) ring_shape_def)
qed

lemma dequeue_effect:
  assumes "ring_ok r" "unat n \<le> used r"
    "r' = r\<lparr>consumer := (consumer r)\<lparr>head := tail (consumer r) + n, tail := tail (consumer r) + n\<rparr>\<rparr>"
  shows "ring_ok r'" "ring_elems r' = drop (unat n) (ring_elems r)" "used r' = used r - unat n"
    "rd (unat (ring_size r)) (unat (tail (consumer r))) (unat n) (slots r) = take (unat n) (ring_elems r)"
proof -
  have sh: "ring_shape r" using assms(1) by (simp add: ring_ok_def)
  let ?S = "unat (ring_size r)" and ?pt = "tail (producer r)" and ?ct = "tail (consumer r)"
  have "?pt - (?ct + n) = (?pt - ?ct) - n" by simp
  moreover have "n \<le> ?pt - ?ct" using assms(2) by (simp add: used_def word_le_nat_alt)
  ultimately have "unat (?pt - (?ct + n)) = unat (?pt - ?ct) - unat n" by (metis unat_sub)
  then show u: "used r' = used r - unat n" by (simp add: used_def assms(3))
  have "rd ?S (unat (?ct + n)) m (slots r) = rd ?S (unat ?ct + unat n) m (slots r)" for m
    by (rule rd_mod) (rule unat_add_mod [OF sh])
  then show "ring_elems r' = drop (unat n) (ring_elems r)"
    using rd_split(2) [OF assms(2)] unfolding ring_elems_def u by (simp add: assms(3))
  show "ring_ok r'" using assms(1) le_trans [OF diff_le_self] unfolding ring_ok_def u
    by (simp add: assms(3) ring_shape_def)
  show "rd ?S (unat ?ct) (unat n) (slots r) = take (unat n) (ring_elems r)"
    using rd_split(1) [OF assms(2)] by (simp add: ring_elems_def)
qed

text \<open>The number of objects an operation moves.\<close>

definition moved :: "util_ring_queue_behavior \<Rightarrow> nat \<Rightarrow> nat \<Rightarrow> nat" where
  "moved behavior n room =
     (if n \<le> room then n else if behavior = UTIL_RING_QUEUE_FIXED then 0 else room)"

lemma choose_n_moved: "unat (choose_n behavior n w) = moved behavior (unat n) (unat w)"
  by (simp add: choose_n_def moved_def word_less_nat_alt)

lemma do_enqueue_ok:
  assumes "ring_ok r" "length obj_table = unat n" "m = moved behavior (unat n) (unat (capacity r) - used r)"
  shows "\<exists>r'. do_enqueue obj_table n behavior is_sp r =
      Inr ((of_nat m, of_nat (unat (capacity r) - used r - m)), r') \<and> ring_ok r' \<and>
    ring_elems r' = ring_elems r @ take m obj_table \<and> capacity r' = capacity r"
proof -
  have sh: "ring_shape r" and ht: "head (producer r) = tail (producer r)" using assms(1) by (simp_all add: ring_ok_def)
  let ?room = "free_entries r (head (producer r))"
  let ?m = "choose_n behavior n ?room"
  have m: "unat ?m = m" using room(1) [OF assms(1)] by (simp add: choose_n_moved assms(3))
  then have wm: "?m = of_nat m" by (metis of_nat_unat ucast_id)
  have mle: "m \<le> unat (capacity r) - used r" "m \<le> length obj_table" by (simp_all add: assms(2,3) moved_def)
  have left: "?room - ?m = of_nat (unat (capacity r) - used r - m)"
    using mle room(1) [OF assms(1)] m by (metis of_nat_unat ucast_id unat_sub word_le_nat_alt)
  show ?thesis
  proof (cases "m = 0")
    case True
    then have "?m = 0" using wm by simp
    then show ?thesis using True assms(1) left by (simp add: do_enqueue_def move_prod_head_def Let_def)
  next
    case False
    let ?xs = "take m obj_table"
    have len: "length ?xs = m" using mle by simp
    have nz: "?m \<noteq> 0" using False m by auto
    define r1 where "r1 = r\<lparr>producer := (producer r)\<lparr>head := tail (producer r) + of_nat m\<rparr>\<rparr>"
    have sh1: "ring_shape r1" using sh by (simp add: r1_def ring_shape_def)
    have "length ?xs < unat (ring_size r1)"
      using len mle(1) capacity_less [OF sh] by (simp add: r1_def)
    note enq = ENQUEUE_PTRS_wr [OF sh1 this, of "tail (producer r)"]
    define r' where "r' = r\<lparr>producer := (producer r)\<lparr>head := tail (producer r) + of_nat (length ?xs),
        tail := tail (producer r) + of_nat (length ?xs)\<rparr>,
        slots := wr (unat (ring_size r)) (unat (tail (producer r))) ?xs (slots r)\<rparr>"
    have "do_enqueue obj_table n behavior is_sp r = Inr ((of_nat m, ?room - ?m), r')"
      using nz mle(2) wm m enq ht
      by (simp add: do_enqueue_def move_prod_head_def Let_def r1_def [symmetric])
         (simp add: update_tail_def r'_def r1_def len)
    moreover have "used r + length ?xs \<le> unat (capacity r)" using len mle(1) assms(1) unfolding ring_ok_def by linarith
    note enqueue_effect [OF assms(1) this r'_def]
    ultimately show ?thesis using left by (simp add: r'_def)
  qed
qed

lemma do_dequeue_ok:
  assumes "ring_ok r" "m = moved behavior (unat n) (used r)"
  shows "\<exists>r'. do_dequeue n behavior is_sc r =
      Inr ((of_nat m, of_nat (used r - m), take m (ring_elems r)), r') \<and> ring_ok r' \<and>
    ring_elems r' = drop m (ring_elems r) \<and> capacity r' = capacity r"
proof -
  have sh: "ring_shape r" and ht: "head (consumer r) = tail (consumer r)" using assms(1) by (simp_all add: ring_ok_def)
  let ?room = "entries r (head (consumer r))"
  let ?m = "choose_n behavior n ?room"
  have m: "unat ?m = m" using room(2) [OF assms(1)] by (simp add: choose_n_moved assms(2))
  then have wm: "?m = of_nat m" by (metis of_nat_unat ucast_id)
  have mle: "m \<le> used r" by (simp add: assms(2) moved_def)
  have left: "?room - ?m = of_nat (used r - m)"
    using mle room(2) [OF assms(1)] m by (metis of_nat_unat ucast_id unat_sub word_le_nat_alt)
  show ?thesis
  proof (cases "m = 0")
    case True
    then have "?m = 0" using wm by simp
    then show ?thesis using True assms(1) left by (simp add: do_dequeue_def move_cons_head_def Let_def)
  next
    case False
    have nz: "?m \<noteq> 0" using False m by auto
    define r1 where "r1 = r\<lparr>consumer := (consumer r)\<lparr>head := tail (consumer r) + ?m\<rparr>\<rparr>"
    have sh1: "ring_shape r1" using sh by (simp add: r1_def ring_shape_def)
    have "unat ?m < unat (ring_size r1)"
      using m mle capacity_less [OF sh] assms(1) by (simp add: r1_def ring_ok_def)
    note deq = DEQUEUE_PTRS_rd [OF sh1 this, of "tail (consumer r)"]
    define r' where "r' = r\<lparr>consumer := (consumer r)\<lparr>head := tail (consumer r) + ?m, tail := tail (consumer r) + ?m\<rparr>\<rparr>"
    have le: "unat ?m \<le> used r" using m mle by simp
    note eff = dequeue_effect [OF assms(1) le r'_def, unfolded m]
    have "do_dequeue n behavior is_sc r = Inr ((?m, ?room - ?m, take m (ring_elems r)), r')"
      using nz deq ht eff(4) m
      by (simp add: do_dequeue_def move_cons_head_def Let_def r1_def [symmetric])
         (simp add: update_tail_def r'_def r1_def)
    then show ?thesis using left wm eff by (simp add: r'_def)
  qed
qed

subsection \<open>The ring as a bounded queue\<close>

definition ring_push :: "'a list \<Rightarrow> 'a util_ring \<Rightarrow> 'a util_ring option" where
  "ring_push xs r = (case enqueue_bulk xs (of_nat (length xs)) r of
     Inr ((n, _), r') \<Rightarrow> if n \<noteq> 0 then Some r' else None | Inl _ \<Rightarrow> None)"

definition ring_pop :: "nat \<Rightarrow> 'a util_ring \<Rightarrow> 'a util_ring option" where
  "ring_pop n r = (if n = 0 then Some r else
     case dequeue_bulk (of_nat n) r of Inr ((k, _), r') \<Rightarrow> if k \<noteq> 0 then Some r' else None | Inl _ \<Rightarrow> None)"

definition batch_ok :: "'a list \<Rightarrow> bool" where
  "batch_ok xs \<longleftrightarrow> xs \<noteq> [] \<and> length xs < 2 ^ 32"

lemma of_nat_u32: "n < 2 ^ 32 \<Longrightarrow> unat (of_nat n :: u32) = n" "n < 2 ^ 32 \<Longrightarrow> (of_nat n :: u32) = 0 \<longleftrightarrow> n = 0"
  by (simp_all add: unat_of_nat word_unat_eq_iff)

lemma push_cases:
  assumes "ring_ok r" "batch_ok xs"
  shows "used r + length xs \<le> unat (capacity r) \<Longrightarrow>
      \<exists>r'. ring_push xs r = Some r' \<and> ring_ok r' \<and> capacity r' = capacity r \<and> ring_elems r' = ring_elems r @ xs"
    "unat (capacity r) < used r + length xs \<Longrightarrow> ring_push xs r = None"
proof -
  have xs: "0 < length xs" "length xs < 2 ^ 32" using assms(2) by (simp_all add: batch_ok_def)
  note n = of_nat_u32 [OF xs(2)]
  note enq = do_enqueue_ok [OF assms(1), of xs "of_nat (length xs)" _ UTIL_RING_QUEUE_FIXED "single (producer r)", OF n(1) [symmetric] refl]
  show "\<exists>r'. ring_push xs r = Some r' \<and> ring_ok r' \<and> capacity r' = capacity r \<and> ring_elems r' = ring_elems r @ xs"
    if "used r + length xs \<le> unat (capacity r)"
    using enq that xs n by (auto simp: ring_push_def enqueue_bulk_def moved_def)
  show "ring_push xs r = None" if "unat (capacity r) < used r + length xs"
    using enq that xs n assms(1) by (auto simp: ring_push_def enqueue_bulk_def moved_def ring_ok_def)
qed

lemma pop_cases:
  assumes "ring_ok r"
  shows "n \<le> used r \<Longrightarrow>
      \<exists>r'. ring_pop n r = Some r' \<and> ring_ok r' \<and> capacity r' = capacity r \<and> ring_elems r' = drop n (ring_elems r)"
    "used r < n \<Longrightarrow> n \<le> unat (capacity r) \<Longrightarrow> ring_pop n r = None"
proof -
  have cap: "unat (capacity r) < 2 ^ 32" "used r \<le> unat (capacity r)"
    using assms unat_below [of "capacity r"] by (simp_all add: ring_ok_def)
  note deq = do_dequeue_ok [OF assms refl, of "of_nat n" UTIL_RING_QUEUE_FIXED "single (consumer r)"]
  show "\<exists>r'. ring_pop n r = Some r' \<and> ring_ok r' \<and> capacity r' = capacity r \<and> ring_elems r' = drop n (ring_elems r)"
    if "n \<le> used r"
    using deq that cap assms of_nat_u32 [of n] by (auto simp: ring_pop_def dequeue_bulk_def moved_def)
  show "ring_pop n r = None" if "used r < n" "n \<le> unat (capacity r)"
    using deq that cap of_nat_u32 [of n] by (auto simp: ring_pop_def dequeue_bulk_def moved_def)
qed

interpretation rq: bounded_fifo ring_ok ring_elems "\<lambda>r. unat (capacity r)" batch_ok "\<lambda>r xs. xs" ring_push ring_pop
proof unfold_locales
  fix s :: "'a util_ring" and xs :: "'a list" and n :: nat
  assume ok: "ring_ok s"
  show "length (ring_elems s) \<le> unat (capacity s)" using ok by (simp add: ring_ok_def)
  show "\<exists>s'. ring_push xs s = Some s' \<and> ring_ok s' \<and> unat (capacity s') = unat (capacity s) \<and>
      ring_elems s' = ring_elems s @ xs"
    if "batch_ok xs" "length (ring_elems s) + length xs \<le> unat (capacity s)"
    using push_cases(1) [OF ok that(1)] that(2) by auto
  show "ring_push xs s = None" if "batch_ok xs" "unat (capacity s) < length (ring_elems s) + length xs"
    using push_cases(2) [OF ok that(1)] that(2) by auto
  show "\<exists>s'. ring_pop n s = Some s' \<and> ring_ok s' \<and> unat (capacity s') = unat (capacity s) \<and>
      ring_elems s' = drop n (ring_elems s)"
    if "n \<le> length (ring_elems s)"
    using pop_cases(1) [OF ok, of n] that by auto
  show "ring_pop n s = None" if "length (ring_elems s) < n" "n \<le> unat (capacity s)"
    using pop_cases(2) [OF ok, of n] that by auto
qed

subsection \<open>Initialisation\<close>

lemma pow2_and: "n AND (n - 1) = 0 \<Longrightarrow> n = 0 \<or> (\<exists>k. n = 2 ^ k)" for n :: nat
proof (induction n rule: less_induct)
  case (less n)
  show ?case
  proof (cases "n \<le> 1")
    case True
    then show ?thesis by (metis le_Suc_eq le_zero_eq One_nat_def power_0)
  next
    case False
    obtain m where m: "n = 2 * m \<or> n = 2 * m + 1" by (metis oddE evenE)
    show ?thesis
    proof (cases "n = 2 * m")
      case True
      then have "n - 1 = 2 * (m - 1) + 1" using False by simp
      moreover have "(2 * m) AND (2 * (m - 1) + 1) = 2 * (m AND (m - 1))"
        by (subst and_rec) simp
      ultimately have "m AND (m - 1) = 0" using less.prems True by simp
      with less.IH [of m] True False obtain k where "m = 2 ^ k" by auto
      with True have "n = 2 ^ Suc k" by simp
      then show ?thesis by blast
    next
      case odd: False
      with m have n: "n = 2 * m + 1" by simp
      have "(2 * m + 1) AND (2 * m) = 2 * m"
        by (subst and_rec) simp
      with less.prems n False show ?thesis by simp
    qed
  qed
qed

lemma POWEROF2_iff: "POWEROF2 x \<longleftrightarrow> x = 0 \<or> (\<exists>k < 32. unat x = 2 ^ k)"
proof
  assume "POWEROF2 x"
  then have "unat (x AND (x - 1)) = 0" by (simp add: POWEROF2_def and.commute)
  then have and0: "unat x AND unat (x - 1) = 0" by (simp add: unsigned_and_eq)
  show "x = 0 \<or> (\<exists>k < 32. unat x = 2 ^ k)"
  proof (cases "x = 0")
    case False
    then have "unat (x - 1) = unat x - 1" by (simp add: unat_minus_one)
    with and0 False obtain k where k: "unat x = 2 ^ k" using pow2_and [of "unat x"] by (auto simp: unat_eq_0)
    then have "(2 :: nat) ^ k < 2 ^ 32" using unat_below [of x] by simp
    then have "k < 32" by (rule power_less_imp_less_exp [rotated]) simp
    with k show ?thesis by blast
  qed simp
next
  assume "x = 0 \<or> (\<exists>k < 32. unat x = 2 ^ k)"
  then show "POWEROF2 x"
  proof
    assume "\<exists>k < 32. unat x = 2 ^ k"
    then obtain k where k: "k < 32" "unat x = 2 ^ k" by blast
    have "x = of_nat (unat x)" by (simp add: of_nat_unat)
    then have x: "x = 2 ^ k" using k(2) by simp
    have "(x - 1) AND x = take_bit k (2 ^ k)"
      by (simp add: x take_bit_eq_mask and.commute mask_eq_exp_minus_1)
    then show ?thesis by (simp add: POWEROF2_def take_bit_eq_mod)
  qed (simp add: POWEROF2_def)
qed

lemma init_ok:
  assumes "length name < 32" "unat count = 2 ^ k" "k \<le> 30" "unat count \<le> length mem"
  shows "\<exists>r. util_ring_init name count 0 mem = (0, r) \<and> ring_ok r \<and> ring_elems r = [] \<and>
    unat (capacity r) = unat count - 1"
proof -
  have k32: "k < 32" using assms(3) by simp
  then have p2: "POWEROF2 count" using assms(2) unfolding POWEROF2_iff by blast
  have "(2 :: nat) ^ k \<le> 2 ^ 30" using assms(3) by (intro power_increasing) simp_all
  then have le: "\<not> count > UTIL_RING_SZ_MASK" using assms(2) by (simp add: UTIL_RING_SZ_MASK_def word_less_nat_alt)
  have pos: "count \<noteq> 0" using assms(2) by auto
  then have "unat (count - 1) = unat count - 1" by (simp add: unat_minus_one)
  moreover from this pos have "count - 1 < count" by (simp add: word_less_nat_alt unat_gt_0)
  moreover have "\<exists>k \<le> 31. unat count = 2 ^ k" using assms(2,3) by (meson le_trans nat_le_linear numeral_le_iff semiring_norm(68,69,71,72,73))
  ultimately show ?thesis
    using assms(1,4) p2 le
    by (simp add: util_ring_init_def Let_def RING_F_SP_ENQ_def RING_F_SC_DEQ_def RING_F_EXACT_SZ_def ring_ok_def
        ring_shape_def used_def ring_elems_def rd_def)
qed

text \<open>C37: The buffer ring is a bounded queue. Whatever the counters are (they may have passed
  2 ^ 32), an enqueue of \<open>n\<close> objects appends them if they fit; otherwise the fixed variant
  appends nothing and the variable one as many of the first objects as fit. A dequeue likewise
  removes and returns the oldest objects, in order. The number of objects moved and the room
  that is left are reported; no access leaves the ring's memory, and the ring is ready for the
  next operation.\<close>

theorem ring_refines_queue:
  assumes "ring_ok r" "length obj_table = unat n"
  shows "(let room = unat (capacity r) - length (ring_elems r); m = moved behavior (unat n) room in
      \<exists>r'. do_enqueue obj_table n behavior single_user r = Inr ((of_nat m, of_nat (room - m)), r') \<and> ring_ok r' \<and>
        ring_elems r' = ring_elems r @ take m obj_table \<and> capacity r' = capacity r) \<and>
    (let q = ring_elems r; m = moved behavior (unat n) (length q) in
      \<exists>r'. do_dequeue n behavior single_user r = Inr ((of_nat m, of_nat (length q - m), take m q), r') \<and> ring_ok r' \<and>
        ring_elems r' = drop m q \<and> capacity r' = capacity r)"
  using do_enqueue_ok [OF assms refl] do_dequeue_ok [OF assms(1) refl] by (simp add: Let_def)

text \<open>A ring of four places whose counters are about to pass 2 ^ 32.\<close>

definition demo_ring :: "nat util_ring" where
  "demo_ring = \<lparr>ring_name = ''demo'', ring_flags = 0, ring_size = 4, ring_mask = 3, capacity = 3,
     producer = \<lparr>head = 0xffffffff, tail = 0xffffffff, single = False\<rparr>,
     consumer = \<lparr>head = 0xfffffffe, tail = 0xfffffffe, single = False\<rparr>, slots = [10, 11, 12, 13]\<rparr>"

theorem ring_refines_queue_witness:
  "(\<exists>r'. do_enqueue [20, 21] 2 UTIL_RING_QUEUE_FIXED False demo_ring = Inr ((2, 0), r') \<and> ring_elems r' = [12, 20, 21]) \<and>
   (\<exists>r'. do_dequeue 2 UTIL_RING_QUEUE_VARIABLE False demo_ring = Inr ((1, 0, [12]), r') \<and> ring_elems r' = [])"
proof -
  have "unat (4 :: u32) = 2 ^ 2" by simp
  then have ok: "ring_ok demo_ring"
    by (auto simp: ring_ok_def ring_shape_def demo_ring_def used_def intro!: exI [of _ 2])
  have e: "ring_elems demo_ring = [12]" "unat (capacity demo_ring) = 3"
    by (simp_all add: ring_elems_def demo_ring_def used_def rd_def)
  have len: "length [20, 21 :: nat] = unat (2 :: u32)" by simp
  note q = ring_refines_queue [OF ok len]
  from q [THEN conjunct1, of UTIL_RING_QUEUE_FIXED False] q [THEN conjunct2, of UTIL_RING_QUEUE_VARIABLE False] e
  show ?thesis by (simp add: moved_def Let_def) blast
qed

text \<open>A ring of no places is accepted; its capacity is 2 ^ 32 - 1 and the first enqueue writes
  behind the memory of the ring.\<close>

lemma empty_ring_accepted:
  "\<exists>r. util_ring_init ''ring'' 0 0 ([] :: nat list) = (0, r) \<and> capacity r = 0xffffffff \<and> ring_enqueue 7 r = Inl Abort"
  by (simp add: util_ring_init_def Let_def POWEROF2_def RING_F_EXACT_SZ_def ring_enqueue_def enqueue_bulk_def do_enqueue_def
      move_prod_head_def free_entries_def choose_n_def ENQUEUE_PTRS_def UTIL_RING_SZ_MASK_def)

end
