(* ===== verification/Ufs_RingMt.thy ===== *)
theory Ufs_RingMt
  imports Ufs_RingProps
begin

text \<open>
  The buffer ring used by many threads at once (the multi-producer and multi-consumer variants,
  which \<open>OpRingBuffer\<close> uses). Each rule is one atomic access: loading a head, reading the other
  side's tail, the compare-and-swap of a head, storing or loading one object, and advancing a
  tail, which waits for the operations that reserved before. History variables record what was
  reserved, published and delivered; the program does not read them, nor the positions that
  threads carry along.
\<close>

subsection \<open>Threads and steps\<close>

text \<open>
  Where a thread is: an enqueue of \<open>xs\<close> (and then of its first objects \<open>ys\<close>, of which \<open>i\<close> are
  stored) or a dequeue of \<open>n\<close> objects (of which \<open>acc\<close> are loaded); \<open>old\<close> is the head it loaded
  and \<open>g\<close> the same position counted without wrap-around, \<open>t\<close> the position of the tail it read.
\<close>

datatype 'a thread =
    Idle
  | PLoad "'a list" util_ring_queue_behavior
  | PHead "'a list" util_ring_queue_behavior u32 nat
  | PCas "'a list" util_ring_queue_behavior u32 u32 nat nat
  | PCopy "'a list" nat u32 nat
  | CLoad u32 util_ring_queue_behavior
  | CHead u32 util_ring_queue_behavior u32 nat
  | CCas u32 util_ring_queue_behavior u32 u32 nat nat
  | CCopy nat "'a list" u32 nat

record 'a mt =
  ring :: "'a util_ring"
  threads :: "nat \<Rightarrow> 'a thread"
  reserved :: "'a list"
  published :: "'a list"
  claimed :: nat
  delivered :: "'a list"

definition set_thread :: "nat \<Rightarrow> 'a thread \<Rightarrow> 'a mt \<Rightarrow> 'a mt" where
  "set_thread t x s = s\<lparr>threads := (threads s)(t := x)\<rparr>"

text \<open>The accesses of \<open>__util_ring_move_prod_head\<close>, one step each. A thread does not sleep
  between its load and its compare-and-swap while 2 ^ 32 objects pass.\<close>

definition prod_load :: "nat \<Rightarrow> 'a list \<Rightarrow> util_ring_queue_behavior \<Rightarrow> 'a mt \<Rightarrow> 'a mt" where
  "prod_load t xs b s = set_thread t (PHead xs b (head (producer (ring s))) (length (reserved s))) s"

definition prod_room :: "nat \<Rightarrow> 'a list \<Rightarrow> util_ring_queue_behavior \<Rightarrow> u32 \<Rightarrow> nat \<Rightarrow> 'a mt \<Rightarrow> 'a mt" where
  "prod_room t xs b old g s =
     (let n = choose_n b (of_nat (length xs)) (free_entries (ring s) old)
      in set_thread t (if n = 0 then Idle else PCas xs b n old g (length (delivered s))) s)"

definition prod_cas :: "nat \<Rightarrow> 'a list \<Rightarrow> util_ring_queue_behavior \<Rightarrow> u32 \<Rightarrow> u32 \<Rightarrow> 'a mt \<Rightarrow> 'a mt" where
  "prod_cas t xs b n old s =
     (let r = ring s
      in if head (producer r) = old
         then set_thread t (PCopy (take (unat n) xs) 0 old (length (reserved s)))
                (s\<lparr>ring := r\<lparr>producer := (producer r)\<lparr>head := old + n\<rparr>\<rparr>,
                   reserved := reserved s @ take (unat n) xs\<rparr>)
         else set_thread t (PLoad xs b) s)"

text \<open>One store of \<open>ENQUEUE_PTRS\<close> and the end of the enqueue.\<close>

definition prod_store :: "nat \<Rightarrow> 'a list \<Rightarrow> nat \<Rightarrow> u32 \<Rightarrow> nat \<Rightarrow> 'a mt \<Rightarrow> 'a mt" where
  "prod_store t ys i old g s =
     (let r = ring s
      in set_thread t (PCopy ys (Suc i) old g)
           (s\<lparr>ring := r\<lparr>slots := (slots r)[unat ((old + of_nat i) AND ring_mask r) := ys ! i]\<rparr>\<rparr>))"

definition prod_publish :: "nat \<Rightarrow> 'a list \<Rightarrow> u32 \<Rightarrow> 'a mt \<Rightarrow> 'a mt res" where
  "prod_publish t ys old s =
     res_bind (update_tail old (old + of_nat (length ys)) False (producer (ring s))) (\<lambda>ht.
       Inr (set_thread t Idle (s\<lparr>ring := (ring s)\<lparr>producer := ht\<rparr>, published := published s @ ys\<rparr>)))"

definition cons_load :: "nat \<Rightarrow> u32 \<Rightarrow> util_ring_queue_behavior \<Rightarrow> 'a mt \<Rightarrow> 'a mt" where
  "cons_load t n b s = set_thread t (CHead n b (head (consumer (ring s))) (claimed s)) s"

definition cons_room :: "nat \<Rightarrow> u32 \<Rightarrow> util_ring_queue_behavior \<Rightarrow> u32 \<Rightarrow> nat \<Rightarrow> 'a mt \<Rightarrow> 'a mt" where
  "cons_room t n0 b old g s =
     (let n = choose_n b n0 (entries (ring s) old)
      in set_thread t (if n = 0 then Idle else CCas n0 b n old g (length (published s))) s)"

definition cons_cas :: "nat \<Rightarrow> u32 \<Rightarrow> util_ring_queue_behavior \<Rightarrow> u32 \<Rightarrow> u32 \<Rightarrow> 'a mt \<Rightarrow> 'a mt" where
  "cons_cas t n0 b n old s =
     (let r = ring s
      in if head (consumer r) = old
         then set_thread t (CCopy (unat n) [] old (claimed s))
                (s\<lparr>ring := r\<lparr>consumer := (consumer r)\<lparr>head := old + n\<rparr>\<rparr>, claimed := claimed s + unat n\<rparr>)
         else set_thread t (CLoad n0 b) s)"

definition cons_fetch :: "nat \<Rightarrow> nat \<Rightarrow> 'a list \<Rightarrow> u32 \<Rightarrow> nat \<Rightarrow> 'a mt \<Rightarrow> 'a mt" where
  "cons_fetch t n acc old g s =
     (let r = ring s
      in set_thread t (CCopy n (acc @ [slots r ! unat ((old + of_nat (length acc)) AND ring_mask r)]) old g) s)"

definition cons_release :: "nat \<Rightarrow> nat \<Rightarrow> 'a list \<Rightarrow> u32 \<Rightarrow> 'a mt \<Rightarrow> 'a mt res" where
  "cons_release t n acc old s =
     res_bind (update_tail old (old + of_nat n) False (consumer (ring s))) (\<lambda>ht.
       Inr (set_thread t Idle (s\<lparr>ring := (ring s)\<lparr>consumer := ht\<rparr>, delivered := delivered s @ acc\<rparr>)))"

inductive mt_step :: "'a mt \<Rightarrow> 'a mt \<Rightarrow> bool" where
  enq: "threads s t = Idle \<Longrightarrow> length xs < 2 ^ 32 \<Longrightarrow> mt_step s (set_thread t (PLoad xs b) s)"
| p_load: "threads s t = PLoad xs b \<Longrightarrow> mt_step s (prod_load t xs b s)"
| p_room: "threads s t = PHead xs b old g \<Longrightarrow> mt_step s (prod_room t xs b old g s)"
| p_cas: "threads s t = PCas xs b n old g d \<Longrightarrow> length (reserved s) < g + 2 ^ 32 \<Longrightarrow>
    mt_step s (prod_cas t xs b n old s)"
| p_store: "threads s t = PCopy ys i old g \<Longrightarrow> i < length ys \<Longrightarrow> mt_step s (prod_store t ys i old g s)"
| p_publish: "threads s t = PCopy ys (length ys) old g \<Longrightarrow> prod_publish t ys old s = Inr s' \<Longrightarrow> mt_step s s'"
| deq: "threads s t = Idle \<Longrightarrow> mt_step s (set_thread t (CLoad n b) s)"
| c_load: "threads s t = CLoad n b \<Longrightarrow> mt_step s (cons_load t n b s)"
| c_room: "threads s t = CHead n b old g \<Longrightarrow> mt_step s (cons_room t n b old g s)"
| c_cas: "threads s t = CCas n0 b n old g d \<Longrightarrow> claimed s < g + 2 ^ 32 \<Longrightarrow> mt_step s (cons_cas t n0 b n old s)"
| c_fetch: "threads s t = CCopy n acc old g \<Longrightarrow> length acc < n \<Longrightarrow> mt_step s (cons_fetch t n acc old g s)"
| c_release: "threads s t = CCopy n acc old g \<Longrightarrow> length acc = n \<Longrightarrow> cons_release t n acc old s = Inr s' \<Longrightarrow>
    mt_step s s'"

definition mt_start :: "'a util_ring \<Rightarrow> 'a mt" where
  "mt_start r = \<lparr>ring = r, threads = (\<lambda>_. Idle), reserved = [], published = [], claimed = 0, delivered = []\<rparr>"

inductive mt_reach :: "'a util_ring \<Rightarrow> 'a mt \<Rightarrow> bool" for r0 where
  start: "mt_reach r0 (mt_start r0)"
| step: "mt_reach r0 s \<Longrightarrow> mt_step s s' \<Longrightarrow> mt_reach r0 s'"

subsection \<open>The invariant\<close>

definition counters_ok :: "'a mt \<Rightarrow> bool" where
  "counters_ok s \<longleftrightarrow> ring_shape (ring s) \<and>
     head (producer (ring s)) = of_nat (length (reserved s)) \<and>
     tail (producer (ring s)) = of_nat (length (published s)) \<and>
     head (consumer (ring s)) = of_nat (claimed s) \<and>
     tail (consumer (ring s)) = of_nat (length (delivered s)) \<and>
     length (delivered s) \<le> claimed s \<and> claimed s \<le> length (published s) \<and>
     length (published s) \<le> length (reserved s) \<and>
     length (reserved s) \<le> length (delivered s) + unat (capacity (ring s)) \<and>
     published s = take (length (published s)) (reserved s) \<and>
     delivered s = take (length (delivered s)) (reserved s)"

definition agrees :: "'a list \<Rightarrow> nat \<Rightarrow> 'a list \<Rightarrow> bool" where
  "agrees L g ys \<longleftrightarrow> (\<forall>j < length ys. g + j < length L \<and> L ! (g + j) = ys ! j)"

fun thread_ok :: "'a mt \<Rightarrow> 'a thread \<Rightarrow> bool" where
  "thread_ok s (PHead xs b old g) \<longleftrightarrow> old = of_nat g \<and> g \<le> length (reserved s)"
| "thread_ok s (PCas xs b n old g d) \<longleftrightarrow> old = of_nat g \<and> g \<le> length (reserved s) \<and> n \<noteq> 0 \<and>
     unat n \<le> length xs \<and> d \<le> length (delivered s) \<and> (d \<le> g \<longrightarrow> g + unat n \<le> d + unat (capacity (ring s)))"
| "thread_ok s (PCopy ys i old g) \<longleftrightarrow> old = of_nat g \<and> ys \<noteq> [] \<and> i \<le> length ys \<and> agrees (reserved s) g ys"
| "thread_ok s (CHead n b old g) \<longleftrightarrow> old = of_nat g \<and> g \<le> claimed s"
| "thread_ok s (CCas n0 b n old g d) \<longleftrightarrow> old = of_nat g \<and> g \<le> claimed s \<and> n \<noteq> 0 \<and>
     d \<le> length (published s) \<and> g + unat n \<le> d"
| "thread_ok s (CCopy n acc old g) \<longleftrightarrow> old = of_nat g \<and> 0 < n \<and> length acc \<le> n \<and> agrees (reserved s) g acc"
| "thread_ok s _ \<longleftrightarrow> True"

text \<open>The positions a thread has reserved, and those it has not stored yet.\<close>

fun pspan :: "'a thread \<Rightarrow> nat set" where
  "pspan (PCopy ys i old g) = {g..<g + length ys}"
| "pspan _ = {}"

fun pending :: "'a thread \<Rightarrow> nat set" where
  "pending (PCopy ys i old g) = {g + i..<g + length ys}"
| "pending _ = {}"

fun cspan :: "'a thread \<Rightarrow> nat set" where
  "cspan (CCopy n acc old g) = {g..<g + n}"
| "cspan _ = {}"

definition spans_ok :: "('a thread \<Rightarrow> nat set) \<Rightarrow> nat \<Rightarrow> nat \<Rightarrow> (nat \<Rightarrow> 'a thread) \<Rightarrow> bool" where
  "spans_ok f lo hi T \<longleftrightarrow> (\<forall>t t'. t \<noteq> t' \<longrightarrow> f (T t) \<inter> f (T t') = {}) \<and> (\<Union>t. f (T t)) = {lo..<hi}"

definition slots_ok :: "'a mt \<Rightarrow> bool" where
  "slots_ok s \<longleftrightarrow> (\<forall>q. length (delivered s) \<le> q \<and> q < length (reserved s) \<and> (\<forall>t. q \<notin> pending (threads s t)) \<longrightarrow>
     slots (ring s) ! (q mod unat (ring_size (ring s))) = reserved s ! q)"

definition mt_ok :: "'a mt \<Rightarrow> bool" where
  "mt_ok s \<longleftrightarrow> counters_ok s \<and> (\<forall>t. thread_ok s (threads s t)) \<and>
     spans_ok pspan (length (published s)) (length (reserved s)) (threads s) \<and>
     spans_ok cspan (length (delivered s)) (claimed s) (threads s) \<and> slots_ok s"

lemma pending_pspan: "pending x \<subseteq> pspan x"
  by (cases x) auto

text \<open>What other threads know stays true while the counters advance.\<close>

definition advances :: "'a mt \<Rightarrow> 'a mt \<Rightarrow> bool" where
  "advances s s' \<longleftrightarrow> (\<exists>zs. reserved s' = reserved s @ zs) \<and> length (published s) \<le> length (published s') \<and>
     claimed s \<le> claimed s' \<and> length (delivered s) \<le> length (delivered s') \<and> capacity (ring s') = capacity (ring s)"

lemma agrees_append: "agrees L g ys \<Longrightarrow> agrees (L @ zs) g ys"
  by (auto simp: agrees_def nth_append)

lemma thread_ok_mono: "thread_ok s x \<Longrightarrow> advances s s' \<Longrightarrow> thread_ok s' x"
  by (cases x) (auto simp: advances_def agrees_append)

lemma spans_same:
  assumes "spans_ok f lo hi T" "f x = f (T t)"
  shows "spans_ok f lo hi (T(t := x))"
proof -
  have "f ((T(t := x)) u) = f (T u)" for u using assms(2) by simp
  then show ?thesis using assms(1) unfolding spans_ok_def by presburger
qed

text \<open>Reserving at the upper end, and giving back at the lower end.\<close>

lemma spans_reserve:
  assumes "spans_ok f lo hi T" "f (T t) = {}" "f x = {hi..<hi + n}" "lo \<le> hi"
  shows "spans_ok f lo (hi + n) (T(t := x))"
proof -
  have sub: "f (T u) \<subseteq> {lo..<hi}" for u using assms(1) by (auto simp: spans_ok_def)
  have "(\<Union>u. f ((T(t := x)) u)) = (\<Union>u. f (T u)) \<union> {hi..<hi + n}"
    using assms(2,3) by (auto split: if_splits) (metis empty_iff)
  also have "\<dots> = {lo..<hi + n}" using assms(1,4) by (auto simp: spans_ok_def)
  finally have u: "(\<Union>u. f ((T(t := x)) u)) = {lo..<hi + n}" .
  have "f ((T(t := x)) u) \<inter> f ((T(t := x)) v) = {}" if "u \<noteq> v" for u v
    using that assms(1,3) sub [of u] sub [of v] by (auto simp: spans_ok_def)
  with u show ?thesis by (simp add: spans_ok_def)
qed

lemma spans_release:
  assumes "spans_ok f lo hi T" "f (T t) = {lo..<lo + n}" "f x = {}"
  shows "spans_ok f (lo + n) hi (T(t := x))"
proof -
  have disj: "u \<noteq> v \<Longrightarrow> f (T u) \<inter> f (T v) = {}" for u v using assms(1) by (auto simp: spans_ok_def)
  have "(\<Union>u. f ((T(t := x)) u)) = (\<Union>u. f (T u)) - f (T t)"
    using assms(3) disj by (auto split: if_splits) blast
  also have "\<dots> = {lo + n..<hi}" using assms(1,2) by (auto simp: spans_ok_def)
  finally have u: "(\<Union>u. f ((T(t := x)) u)) = {lo + n..<hi}" .
  have "f ((T(t := x)) u) \<inter> f ((T(t := x)) v) = {}" if "u \<noteq> v" for u v
    using disj [OF that] assms(3) by auto
  with u show ?thesis by (simp add: spans_ok_def)
qed

lemma spans_sub: "spans_ok f lo hi T \<Longrightarrow> f (T t) \<subseteq> {lo..<hi}"
  by (auto simp: spans_ok_def)

lemma spans_bounds:
  assumes "spans_ok f lo hi T" "f (T t) = {g..<g + n}" "0 < n"
  shows "lo \<le> g" "g + n \<le> hi"
  using atLeastLessThan_subset_iff [of g "g + n" lo hi] spans_sub [OF assms(1), of t] assms(2,3) by auto

subsection \<open>Every step keeps the invariant\<close>

lemma set_thread_fields [simp]:
  "ring (set_thread t x s) = ring s" "reserved (set_thread t x s) = reserved s"
  "published (set_thread t x s) = published s" "claimed (set_thread t x s) = claimed s"
  "delivered (set_thread t x s) = delivered s" "threads (set_thread t x s) = (threads s)(t := x)"
  by (simp_all add: set_thread_def)

lemma counters_set_thread [simp]: "counters_ok (set_thread t x s) = counters_ok s"
  by (simp add: counters_ok_def)

lemma advances_set_thread: "advances s (set_thread t x s')  = advances s s'"
  by (simp add: advances_def)

lemma advances_refl: "advances s s"
  by (simp add: advances_def)

text \<open>A step of one thread: what is left to show.\<close>

lemma mt_okI:
  assumes "mt_ok s" "advances s s1" "counters_ok s1" "threads s1 = threads s" "thread_ok s1 x"
    "spans_ok pspan (length (published s1)) (length (reserved s1)) ((threads s)(t := x))"
    "spans_ok cspan (length (delivered s1)) (claimed s1) ((threads s)(t := x))"
    "slots_ok (set_thread t x s1)"
  shows "mt_ok (set_thread t x s1)"
proof -
  have adv: "advances s1 (set_thread t x s1)" by (simp add: advances_set_thread advances_refl)
  have "thread_ok (set_thread t x s1) (threads (set_thread t x s1) u)" for u
  proof (cases "u = t")
    case True
    then show ?thesis using thread_ok_mono [OF assms(5) adv] by simp
  next
    case False
    have "thread_ok s (threads s u)" using assms(1) by (simp add: mt_ok_def)
    from thread_ok_mono [OF thread_ok_mono [OF this assms(2)] adv] False show ?thesis by (simp add: assms(4))
  qed
  then show ?thesis using assms by (simp add: mt_ok_def)
qed

lemma set_thread_ok:
  assumes "mt_ok s" "thread_ok s x" "pspan x = pspan (threads s t)" "cspan x = cspan (threads s t)"
    "pending x = pending (threads s t)"
  shows "mt_ok (set_thread t x s)"
proof (rule mt_okI [OF assms(1) advances_refl _ refl assms(2)])
  have "pending (((threads s)(t := x)) u) = pending (threads s u)" for u using assms(5) by simp
  then show "slots_ok (set_thread t x s)" using assms(1) by (simp add: mt_ok_def slots_ok_def)
qed (use assms in \<open>auto simp: mt_ok_def intro: spans_same\<close>)

lemma of_nat_u32_eq:
  assumes "(of_nat a :: u32) = of_nat b" "a \<le> b" "b < a + 2 ^ 32"
  shows "a = b"
proof -
  have "a mod 2 ^ 32 = b mod 2 ^ 32" using assms(1) by (simp add: word_unat_eq_iff unat_of_nat)
  then have "2 ^ 32 dvd b - a" using assms(2) by (metis mod_eq_dvd_iff_nat)
  moreover have "b - a < 2 ^ 32" using assms(3) by simp
  ultimately show ?thesis using assms(2) by (metis diff_is_0_eq dvd_imp_le le_antisym not_le zero_less_iff_neq_zero)
qed

lemma unat_of_nat_le: "unat (of_nat n :: u32) \<le> n"
  by (simp add: unat_of_nat mod_less_eq_dividend)

lemma choose_n_le: "unat (choose_n b n w) \<le> unat n" "unat (choose_n b n w) \<le> unat w"
  by (auto simp: choose_n_def word_less_nat_alt)

lemma room_ok:
  assumes "mt_ok s" "threads s t = PHead xs b old g"
    "n = choose_n b (of_nat (length xs)) (free_entries (ring s) old)" "n \<noteq> 0"
  shows "thread_ok s (PCas xs b n old g (length (delivered s)))"
proof -
  have c: "counters_ok s" and th: "old = of_nat g" "g \<le> length (reserved s)"
    using assms(1,2) by (auto simp: mt_ok_def dest: spec [of _ t])
  let ?d = "length (delivered s)" and ?cap = "capacity (ring s)"
  have "g + unat n \<le> ?d + unat ?cap" if "?d \<le> g"
  proof -
    have le: "g \<le> ?d + unat ?cap" using c th(2) by (simp add: counters_ok_def)
    have "free_entries (ring s) old = ?cap + of_nat ?d - of_nat g"
      using c th(1) by (simp add: free_entries_def counters_ok_def)
    also have "?cap = of_nat (unat ?cap)" by (simp add: of_nat_unat)
    finally have "free_entries (ring s) old = of_nat (?d + unat ?cap - g)" using le by (simp add: of_nat_diff add.commute)
    then have "unat n \<le> ?d + unat ?cap - g"
      using choose_n_le(2) [of b "of_nat (length xs)"] unat_of_nat_le assms(3) by (metis le_trans)
    then show ?thesis using le by simp
  qed
  moreover have "unat n \<le> length xs" using choose_n_le(1) unat_of_nat_le assms(3) by (metis le_trans)
  ultimately show ?thesis using th assms(4) by simp
qed

lemma entries_ok_mt:
  assumes "mt_ok s" "threads s t = CHead n0 b old g" "n = choose_n b n0 (entries (ring s) old)" "n \<noteq> 0"
  shows "thread_ok s (CCas n0 b n old g (length (published s)))"
proof -
  have c: "counters_ok s" and th: "old = of_nat g" "g \<le> claimed s"
    using assms(1,2) by (auto simp: mt_ok_def dest: spec [of _ t])
  have le: "g \<le> length (published s)" using c th(2) by (simp add: counters_ok_def)
  have "entries (ring s) old = of_nat (length (published s) - g)"
    using c th(1) le by (simp add: entries_def counters_ok_def of_nat_diff)
  then have "unat n \<le> length (published s) - g"
    using choose_n_le(2) [of b n0] unat_of_nat_le assms(3) by (metis le_trans)
  then show ?thesis using th assms(4) le by simp
qed

lemma prod_cas_ok:
  assumes "mt_ok s" "threads s t = PCas xs b n old g d" "length (reserved s) < g + 2 ^ 32"
  shows "mt_ok (prod_cas t xs b n old s)"
proof (cases "head (producer (ring s)) = old")
  case False
  then show ?thesis using assms(1,2) by (simp add: prod_cas_def set_thread_ok Let_def)
next
  case True
  have c: "counters_ok s" and th: "old = of_nat g" "g \<le> length (reserved s)" "n \<noteq> 0" "unat n \<le> length xs"
    "d \<le> length (delivered s)" "d \<le> g \<longrightarrow> g + unat n \<le> d + unat (capacity (ring s))"
    and sp: "spans_ok pspan (length (published s)) (length (reserved s)) (threads s)"
    "spans_ok cspan (length (delivered s)) (claimed s) (threads s)" and sl: "slots_ok s"
    using assms(1,2) by (auto simp: mt_ok_def dest: spec [of _ t])
  have "(of_nat g :: u32) = of_nat (length (reserved s))" using True c th(1) by (simp add: counters_ok_def)
  then have g: "g = length (reserved s)" using of_nat_u32_eq th(2) assms(3) by blast
  then have fits: "length (reserved s) + unat n \<le> length (delivered s) + unat (capacity (ring s))"
    using th(5,6) c by (simp add: counters_ok_def)
  let ?ys = "take (unat n) xs"
  have len: "length ?ys = unat n" "?ys \<noteq> []" using th(3,4) by (auto simp: unat_eq_0)
  define s1 where "s1 = s\<lparr>ring := (ring s)\<lparr>producer := (producer (ring s))\<lparr>head := old + n\<rparr>\<rparr>, reserved := reserved s @ ?ys\<rparr>"
  have eq: "prod_cas t xs b n old s = set_thread t (PCopy ?ys 0 old g) s1"
    using True g by (simp add: prod_cas_def s1_def Let_def)
  have "mt_ok (set_thread t (PCopy ?ys 0 old g) s1)"
  proof (rule mt_okI [OF assms(1)])
    show "advances s s1" by (simp add: advances_def s1_def)
    have "old + n = of_nat (length (reserved s) + unat n)" using th(1) g by (simp add: of_nat_unat)
    moreover have "published s = take (length (published s)) (reserved s @ ?ys)"
      "delivered s = take (length (delivered s)) (reserved s @ ?ys)"
      using c by (simp_all add: counters_ok_def)
    ultimately show "counters_ok s1" using c fits len
      by (simp add: counters_ok_def s1_def ring_shape_def)
    show "threads s1 = threads s" by (simp add: s1_def)
    show "thread_ok s1 (PCopy ?ys 0 old g)" using th(1) len(2) g by (simp add: s1_def agrees_def nth_append)
    have "spans_ok pspan (length (published s)) (length (reserved s) + unat n) ((threads s)(t := PCopy ?ys 0 old g))"
      by (rule spans_reserve [OF sp(1)]) (use assms(2) g len c in \<open>auto simp: counters_ok_def\<close>)
    then show "spans_ok pspan (length (published s1)) (length (reserved s1)) ((threads s)(t := PCopy ?ys 0 old g))"
      using len by (simp add: s1_def)
    show "spans_ok cspan (length (delivered s1)) (claimed s1) ((threads s)(t := PCopy ?ys 0 old g))"
      using spans_same [OF sp(2), of "PCopy ?ys 0 old g" t] assms(2) by (simp add: s1_def)
    show "slots_ok (set_thread t (PCopy ?ys 0 old g) s1)"
      unfolding slots_ok_def
    proof (intro allI impI)
      fix q
      assume q: "length (delivered (set_thread t (PCopy ?ys 0 old g) s1)) \<le> q \<and>
        q < length (reserved (set_thread t (PCopy ?ys 0 old g) s1)) \<and>
        (\<forall>u. q \<notin> pending (threads (set_thread t (PCopy ?ys 0 old g) s1) u))"
      have "pending (PCopy ?ys 0 old g) = {g..<g + length ?ys}" by simp
      moreover have "q \<notin> pending (PCopy ?ys 0 old g)" using q [THEN conjunct2, THEN conjunct2, rule_format, of t] by simp
      ultimately have "q < length (reserved s)" using q len g by (auto simp: s1_def)
      moreover have "q \<notin> pending (threads s u)" for u
        using q [THEN conjunct2, THEN conjunct2, rule_format, of u] assms(2) by (cases "u = t") (simp_all add: s1_def)
      ultimately show "slots (ring (set_thread t (PCopy ?ys 0 old g) s1)) !
          (q mod unat (ring_size (ring (set_thread t (PCopy ?ys 0 old g) s1)))) = reserved (set_thread t (PCopy ?ys 0 old g) s1) ! q"
        using sl q by (simp add: slots_ok_def s1_def nth_append)
    qed
  qed
  with eq show ?thesis by simp
qed

lemma slots_ok_mono:
  assumes "slots_ok s" "slots (ring s') = slots (ring s)" "ring_size (ring s') = ring_size (ring s)"
    "reserved s' = reserved s" "length (delivered s) \<le> length (delivered s')"
    "\<And>u. pending (threads s' u) = pending (threads s u)"
  shows "slots_ok s'"
  using assms(1) unfolding slots_ok_def assms(2-4,6) using assms(5) by (meson le_trans)

text \<open>A position in the window of stored objects has its own place.\<close>

lemma window_distinct:
  assumes "counters_ok s" "length (delivered s) \<le> p" "p < length (reserved s)"
    "length (delivered s) \<le> q" "q < length (reserved s)" "p \<noteq> q"
  shows "p mod unat (ring_size (ring s)) \<noteq> q mod unat (ring_size (ring s))"
proof -
  have w: "length (reserved s) < length (delivered s) + unat (ring_size (ring s))"
    using assms(1) capacity_less by (fastforce simp: counters_ok_def)
  have "a mod unat (ring_size (ring s)) \<noteq> b mod unat (ring_size (ring s))"
    if "length (delivered s) \<le> a" "b < length (reserved s)" "a < b" for a b
    using mod_distinct [of a b "unat (ring_size (ring s))" 0] that w by simp
  then show ?thesis using assms by (metis nat_neq_iff)
qed

lemma place:
  assumes "counters_ok s" "old = of_nat g"
  shows "unat ((old + of_nat i) AND ring_mask (ring s)) = (g + i) mod unat (ring_size (ring s))"
proof -
  have sh: "ring_shape (ring s)" using assms(1) by (simp add: counters_ok_def)
  have "unat (of_nat (g + i) :: u32) mod unat (ring_size (ring s)) = (g + i) mod unat (ring_size (ring s))"
    using ring_size_pos(3) [OF sh] by (simp only: unat_of_nat mod_mod_cancel) (simp add: mod_mod_cancel)
  then show ?thesis by (simp add: masked [OF sh] assms(2))
qed

lemma prod_store_ok:
  assumes "mt_ok s" "threads s t = PCopy ys i old g" "i < length ys"
  shows "mt_ok (prod_store t ys i old g s)"
proof -
  have c: "counters_ok s" and th: "old = of_nat g" "ys \<noteq> []" "agrees (reserved s) g ys"
    and sp: "spans_ok pspan (length (published s)) (length (reserved s)) (threads s)"
    "spans_ok cspan (length (delivered s)) (claimed s) (threads s)" and sl: "slots_ok s"
    using assms(1,2) by (auto simp: mt_ok_def dest: spec [of _ t])
  let ?S = "unat (ring_size (ring s))"
  define s1 where "s1 = s\<lparr>ring := (ring s)\<lparr>slots := (slots (ring s))[(g + i) mod ?S := ys ! i]\<rparr>\<rparr>"
  have eq: "prod_store t ys i old g s = set_thread t (PCopy ys (Suc i) old g) s1"
    by (simp add: prod_store_def s1_def place [OF c th(1)] Let_def)
  have gi: "length (published s) \<le> g + i" "g + i < length (reserved s)"
    using spans_sub [OF sp(1), of t] assms(2,3) by auto
  then have gd: "length (delivered s) \<le> g + i" using c by (simp add: counters_ok_def)
  have "mt_ok (set_thread t (PCopy ys (Suc i) old g) s1)"
  proof (rule mt_okI [OF assms(1)])
    show "advances s s1" "threads s1 = threads s" by (simp_all add: advances_def s1_def)
    show "counters_ok s1" using c by (simp add: counters_ok_def s1_def ring_shape_def)
    show "thread_ok s1 (PCopy ys (Suc i) old g)" using th assms(3) by (simp add: s1_def)
    show "spans_ok pspan (length (published s1)) (length (reserved s1)) ((threads s)(t := PCopy ys (Suc i) old g))"
      using spans_same [OF sp(1), of "PCopy ys (Suc i) old g" t] assms(2) by (simp add: s1_def)
    show "spans_ok cspan (length (delivered s1)) (claimed s1) ((threads s)(t := PCopy ys (Suc i) old g))"
      using spans_same [OF sp(2), of "PCopy ys (Suc i) old g" t] assms(2) by (simp add: s1_def)
    show "slots_ok (set_thread t (PCopy ys (Suc i) old g) s1)"
      unfolding slots_ok_def
    proof (intro allI impI)
      fix q
      assume a: "length (delivered (set_thread t (PCopy ys (Suc i) old g) s1)) \<le> q \<and>
        q < length (reserved (set_thread t (PCopy ys (Suc i) old g) s1)) \<and>
        (\<forall>u. q \<notin> pending (threads (set_thread t (PCopy ys (Suc i) old g) s1) u))"
      then have q: "length (delivered s) \<le> q" "q < length (reserved s)" by (simp_all add: s1_def)
      have pen: "q \<notin> pending (((threads s)(t := PCopy ys (Suc i) old g)) u)" for u using a by (simp add: s1_def)
      have "slots (ring s1) ! (q mod ?S) = reserved s ! q"
      proof (cases "q = g + i")
        case True
        have "(g + i) mod ?S < ?S" using ring_size_pos(1) [of "ring s"] c by (intro mod_less_divisor) (simp add: counters_ok_def)
        moreover have "?S \<le> length (slots (ring s))" using c by (simp add: counters_ok_def ring_shape_def)
        ultimately show ?thesis using True th(3) assms(3) by (simp add: s1_def agrees_def)
      next
        case False
        have "q \<notin> pending (threads s u)" for u
          using pen [of u] False assms(2) by (cases "u = t") auto
        with sl q have "slots (ring s) ! (q mod ?S) = reserved s ! q" by (simp add: slots_ok_def)
        moreover have "(g + i) mod ?S \<noteq> q mod ?S" using window_distinct [OF c gd gi(2) q] False by simp
        ultimately show ?thesis by (simp add: s1_def)
      qed
      then show "slots (ring (set_thread t (PCopy ys (Suc i) old g) s1)) !
          (q mod unat (ring_size (ring (set_thread t (PCopy ys (Suc i) old g) s1)))) =
          reserved (set_thread t (PCopy ys (Suc i) old g) s1) ! q"
        by (simp add: s1_def)
    qed
  qed
  with eq show ?thesis by simp
qed

lemma prod_publish_ok:
  assumes "mt_ok s" "threads s t = PCopy ys (length ys) old g" "prod_publish t ys old s = Inr s'"
  shows "mt_ok s'"
proof -
  have c: "counters_ok s" and th: "old = of_nat g" "ys \<noteq> []" "agrees (reserved s) g ys"
    and sp: "spans_ok pspan (length (published s)) (length (reserved s)) (threads s)"
    "spans_ok cspan (length (delivered s)) (claimed s) (threads s)" and sl: "slots_ok s"
    using assms(1,2) by (auto simp: mt_ok_def dest: spec [of _ t])
  have tl: "tail (producer (ring s)) = old"
    using assms(3) by (auto simp: prod_publish_def update_tail_def split: if_splits)
  define s1 where "s1 = s\<lparr>ring := (ring s)\<lparr>producer := (producer (ring s))\<lparr>tail := old + of_nat (length ys)\<rparr>\<rparr>,
    published := published s @ ys\<rparr>"
  have eq: "s' = set_thread t Idle s1" using assms(3) tl by (simp add: prod_publish_def update_tail_def s1_def)
  have gb: "length (published s) \<le> g" "g + length ys \<le> length (reserved s)"
    using spans_bounds [OF sp(1), of t g "length ys"] assms(2) th(2) by auto
  have cap: "length (reserved s) \<le> length (delivered s) + unat (capacity (ring s))" using c by (simp add: counters_ok_def)
  have pd: "length (delivered s) \<le> length (published s)" using c by (simp add: counters_ok_def)
  have "g < length (published s) + 2 ^ 32"
    using gb cap pd th(2) unat_below [of "capacity (ring s)"] by (cases ys) auto
  moreover have "(of_nat (length (published s)) :: u32) = of_nat g" using tl c th(1) by (simp add: counters_ok_def)
  ultimately have g: "g = length (published s)" using of_nat_u32_eq [of "length (published s)" g] gb(1) by simp
  have ys: "take (length ys) (drop g (reserved s)) = ys"
    using th(3) gb(2) by (intro nth_equalityI) (auto simp: agrees_def)
  have pub: "published s @ ys = take (length (published s) + length ys) (reserved s)"
    using c ys g by (simp add: take_add counters_ok_def)
  have "mt_ok (set_thread t Idle s1)"
  proof (rule mt_okI [OF assms(1)])
    show "advances s s1" "threads s1 = threads s" by (simp_all add: advances_def s1_def)
    show "counters_ok s1" using c gb(2) pub g th(1) by (simp add: counters_ok_def s1_def ring_shape_def)
    show "thread_ok s1 Idle" by simp
    show "spans_ok pspan (length (published s1)) (length (reserved s1)) ((threads s)(t := Idle))"
      using spans_release [OF sp(1), of t "length ys" Idle] assms(2) g by (simp add: s1_def)
    show "spans_ok cspan (length (delivered s1)) (claimed s1) ((threads s)(t := Idle))"
      using spans_same [OF sp(2), of Idle t] assms(2) by (simp add: s1_def)
    show "slots_ok (set_thread t Idle s1)"
      by (rule slots_ok_mono [OF sl]) (use assms(2) in \<open>simp_all add: s1_def\<close>)
  qed
  with eq show ?thesis by simp
qed

lemma cons_cas_ok:
  assumes "mt_ok s" "threads s t = CCas n0 b n old g d" "claimed s < g + 2 ^ 32"
  shows "mt_ok (cons_cas t n0 b n old s)"
proof (cases "head (consumer (ring s)) = old")
  case False
  then show ?thesis using assms(1,2) by (simp add: cons_cas_def set_thread_ok Let_def)
next
  case True
  have c: "counters_ok s" and th: "old = of_nat g" "g \<le> claimed s" "n \<noteq> 0" "d \<le> length (published s)" "g + unat n \<le> d"
    and sp: "spans_ok pspan (length (published s)) (length (reserved s)) (threads s)"
    "spans_ok cspan (length (delivered s)) (claimed s) (threads s)" and sl: "slots_ok s"
    using assms(1,2) by (auto simp: mt_ok_def dest: spec [of _ t])
  have "(of_nat g :: u32) = of_nat (claimed s)" using True c th(1) by (simp add: counters_ok_def)
  then have g: "g = claimed s" using of_nat_u32_eq th(2) assms(3) by blast
  define s1 where "s1 = s\<lparr>ring := (ring s)\<lparr>consumer := (consumer (ring s))\<lparr>head := old + n\<rparr>\<rparr>, claimed := claimed s + unat n\<rparr>"
  have eq: "cons_cas t n0 b n old s = set_thread t (CCopy (unat n) [] old g) s1"
    using True g by (simp add: cons_cas_def s1_def Let_def)
  have "mt_ok (set_thread t (CCopy (unat n) [] old g) s1)"
  proof (rule mt_okI [OF assms(1)])
    show "advances s s1" "threads s1 = threads s" by (simp_all add: advances_def s1_def)
    have "old + n = of_nat (claimed s + unat n)" using th(1) g by (simp add: of_nat_unat)
    then show "counters_ok s1" using c th(4,5) g by (simp add: counters_ok_def s1_def ring_shape_def)
    show "thread_ok s1 (CCopy (unat n) [] old g)" using th(1,3) by (simp add: agrees_def unat_gt_0)
    show "spans_ok pspan (length (published s1)) (length (reserved s1)) ((threads s)(t := CCopy (unat n) [] old g))"
      using spans_same [OF sp(1), of "CCopy (unat n) [] old g" t] assms(2) by (simp add: s1_def)
    have "spans_ok cspan (length (delivered s)) (claimed s + unat n) ((threads s)(t := CCopy (unat n) [] old g))"
      by (rule spans_reserve [OF sp(2)]) (use assms(2) g c in \<open>auto simp: counters_ok_def\<close>)
    then show "spans_ok cspan (length (delivered s1)) (claimed s1) ((threads s)(t := CCopy (unat n) [] old g))"
      by (simp add: s1_def)
    show "slots_ok (set_thread t (CCopy (unat n) [] old g) s1)"
      by (rule slots_ok_mono [OF sl]) (use assms(2) in \<open>simp_all add: s1_def\<close>)
  qed
  with eq show ?thesis by simp
qed

lemma cons_fetch_ok:
  assumes "mt_ok s" "threads s t = CCopy n acc old g" "length acc < n"
  shows "mt_ok (cons_fetch t n acc old g s)"
proof -
  have c: "counters_ok s" and th: "old = of_nat g" "0 < n" "agrees (reserved s) g acc"
    and sp: "spans_ok pspan (length (published s)) (length (reserved s)) (threads s)"
    "spans_ok cspan (length (delivered s)) (claimed s) (threads s)" and sl: "slots_ok s"
    using assms(1,2) by (auto simp: mt_ok_def dest: spec [of _ t])
  let ?q = "g + length acc" and ?S = "unat (ring_size (ring s))"
  have "length (delivered s) \<le> g" "g + n \<le> claimed s" using spans_bounds [OF sp(2), of t g n] assms(2) th(2) by auto
  then have q: "length (delivered s) \<le> ?q" "?q < length (published s)" "?q < length (reserved s)"
    using c assms(3) by (auto simp: counters_ok_def)
  have "?q \<notin> pending (threads s u)" for u
    using spans_sub [OF sp(1), of u] pending_pspan [of "threads s u"] q(2) by fastforce
  with sl q have v: "slots (ring s) ! (?q mod ?S) = reserved s ! ?q" by (simp add: slots_ok_def)
  have "agrees (reserved s) g (acc @ [reserved s ! ?q])"
    using th(3) q(3) by (auto simp: agrees_def nth_append less_Suc_eq)
  moreover have "cons_fetch t n acc old g s = set_thread t (CCopy n (acc @ [reserved s ! ?q]) old g) s"
    unfolding cons_fetch_def Let_def place [OF c th(1)] v ..
  ultimately show ?thesis using assms th(1,2) by (simp only:) (rule set_thread_ok, simp_all)
qed

lemma cons_release_ok:
  assumes "mt_ok s" "threads s t = CCopy n acc old g" "length acc = n" "cons_release t n acc old s = Inr s'"
  shows "mt_ok s'"
proof -
  have c: "counters_ok s" and th: "old = of_nat g" "0 < n" "agrees (reserved s) g acc"
    and sp: "spans_ok pspan (length (published s)) (length (reserved s)) (threads s)"
    "spans_ok cspan (length (delivered s)) (claimed s) (threads s)" and sl: "slots_ok s"
    using assms(1,2) by (auto simp: mt_ok_def dest: spec [of _ t])
  have tl: "tail (consumer (ring s)) = old"
    using assms(4) by (auto simp: cons_release_def update_tail_def split: if_splits)
  define s1 where "s1 = s\<lparr>ring := (ring s)\<lparr>consumer := (consumer (ring s))\<lparr>tail := old + of_nat n\<rparr>\<rparr>,
    delivered := delivered s @ acc\<rparr>"
  have eq: "s' = set_thread t Idle s1" using assms(4) tl by (simp add: cons_release_def update_tail_def s1_def)
  have gb: "length (delivered s) \<le> g" "g + n \<le> claimed s" using spans_bounds [OF sp(2), of t g n] assms(2) th(2) by auto
  have le: "claimed s \<le> length (reserved s)" "length (reserved s) \<le> length (delivered s) + unat (capacity (ring s))"
    using c by (simp_all add: counters_ok_def)
  have "g < length (delivered s) + 2 ^ 32" using gb le th(2) unat_below [of "capacity (ring s)"] by simp
  moreover have "(of_nat (length (delivered s)) :: u32) = of_nat g" using tl c th(1) by (simp add: counters_ok_def)
  ultimately have g: "g = length (delivered s)" using of_nat_u32_eq [of "length (delivered s)" g] gb(1) by simp
  have "take n (drop g (reserved s)) = acc"
    using th(3) gb(2) le assms(3) by (intro nth_equalityI) (auto simp: agrees_def)
  then have del: "delivered s @ acc = take (length (delivered s) + n) (reserved s)"
    using c g by (simp add: take_add counters_ok_def)
  have "mt_ok (set_thread t Idle s1)"
  proof (rule mt_okI [OF assms(1)])
    show "advances s s1" "threads s1 = threads s" by (simp_all add: advances_def s1_def)
    show "counters_ok s1" using c gb(2) del g th(1) assms(3) by (simp add: counters_ok_def s1_def ring_shape_def)
    show "thread_ok s1 Idle" by simp
    show "spans_ok pspan (length (published s1)) (length (reserved s1)) ((threads s)(t := Idle))"
      using spans_same [OF sp(1), of Idle t] assms(2) by (simp add: s1_def)
    show "spans_ok cspan (length (delivered s1)) (claimed s1) ((threads s)(t := Idle))"
      using spans_release [OF sp(2), of t n Idle] assms(2,3) g by (simp add: s1_def)
    show "slots_ok (set_thread t Idle s1)"
      by (rule slots_ok_mono [OF sl]) (use assms(2) in \<open>simp_all add: s1_def\<close>)
  qed
  with eq show ?thesis by simp
qed

lemma mt_step_ok: "mt_step s s' \<Longrightarrow> mt_ok s \<Longrightarrow> mt_ok s'"
proof (induction rule: mt_step.induct)
  case (p_load s t xs b)
  then show ?case unfolding prod_load_def
    by (intro set_thread_ok) (auto simp: mt_ok_def counters_ok_def)
next
  case (p_room s t xs b old g)
  then show ?case unfolding prod_room_def Let_def
    by (intro set_thread_ok) (auto simp del: thread_ok.simps(2) intro: room_ok)
next
  case (c_load s t n b)
  then show ?case unfolding cons_load_def
    by (intro set_thread_ok) (auto simp: mt_ok_def counters_ok_def)
next
  case (c_room s t n b old g)
  then show ?case unfolding cons_room_def Let_def
    by (intro set_thread_ok) (auto simp del: thread_ok.simps(5) intro: entries_ok_mt)
qed (auto intro: prod_cas_ok prod_store_ok prod_publish_ok cons_cas_ok cons_fetch_ok cons_release_ok set_thread_ok)

lemma mt_start_ok:
  assumes "ring_ok r" "tail (producer r) = 0" "tail (consumer r) = 0"
  shows "mt_ok (mt_start r)"
  using assms by (simp add: mt_ok_def mt_start_def counters_ok_def spans_ok_def slots_ok_def ring_ok_def)

lemma mt_reach_ok:
  assumes "mt_reach r0 s" "ring_ok r0" "tail (producer r0) = 0" "tail (consumer r0) = 0"
  shows "mt_ok s"
  using assms(1) by induction (use assms(2-4) in \<open>auto intro: mt_start_ok mt_step_ok\<close>)

lemma mt_capacity: "mt_step s s' \<Longrightarrow> capacity (ring s') = capacity (ring s)"
  by (induction rule: mt_step.induct)
     (auto simp: prod_load_def prod_room_def prod_cas_def prod_store_def prod_publish_def cons_load_def cons_room_def
       cons_cas_def cons_fetch_def cons_release_def update_tail_def Let_def split: if_splits)

lemma mt_reach_capacity: "mt_reach r0 s \<Longrightarrow> capacity (ring s) = capacity r0"
  by (induction rule: mt_reach.induct) (simp_all add: mt_start_def mt_capacity)

text \<open>C34: Many threads share the ring as one queue. From an initialised ring, in every
  interleaving of the atomic accesses of any number of producers and consumers: the objects
  delivered so far are a prefix of the objects published so far, which are a prefix of the
  objects of all accepted enqueues in the order of their reservations; so no object is lost,
  delivered twice, reordered or made up. At most the ring's capacity of reserved objects is not
  delivered yet, and what a consumer has loaded while it is still at work are the reserved
  objects at its position.\<close>

theorem mt_ring_fifo:
  assumes "mt_reach r0 s" "ring_ok r0" "tail (producer r0) = 0" "tail (consumer r0) = 0"
  shows "(\<exists>rest. published s = delivered s @ rest) \<and> (\<exists>rest. reserved s = published s @ rest) \<and>
    length (reserved s) \<le> length (delivered s) + unat (capacity r0) \<and>
    (\<forall>t n acc old g. threads s t = CCopy n acc old g \<longrightarrow> acc = take (length acc) (drop g (published s)))"
proof -
  note ok = mt_reach_ok [OF assms]
  then have c: "counters_ok s" by (simp add: mt_ok_def)
  let ?d = "length (delivered s)" and ?p = "length (published s)" and ?R = "reserved s"
  have len: "?d \<le> ?p" "?p \<le> length ?R" and eq: "published s = take ?p ?R" "delivered s = take ?d ?R"
    using c unfolding counters_ok_def by auto
  have "published s = delivered s @ drop ?d (published s)"
    using eq len by (metis append_take_drop_id min.absorb1 take_take)
  moreover have "?R = published s @ drop ?p ?R" using eq by (metis append_take_drop_id)
  moreover have "acc = take (length acc) (drop g (published s))" if "threads s t = CCopy n acc old g" for t n acc old g
  proof -
    have th: "0 < n" "length acc \<le> n" "agrees ?R g acc" using ok that by (auto simp: mt_ok_def dest: spec [of _ t])
    have "g + n \<le> claimed s" using spans_bounds [of cspan ?d "claimed s" "threads s" t g n] ok that th(1) by (simp add: mt_ok_def)
    then have "g + n \<le> ?p" using c by (simp add: counters_ok_def)
    then have "g + length acc \<le> ?p" using th(2) by simp
    then have "take (length acc) (drop g (take ?p ?R)) = acc"
      using th(3) len(2) by (intro nth_equalityI) (auto simp: agrees_def)
    then show ?thesis using eq(1) by simp
  qed
  moreover have "length ?R \<le> ?d + unat (capacity r0)"
    using c mt_reach_capacity [OF assms(1)] by (simp add: counters_ok_def)
  ultimately show ?thesis by blast
qed

text \<open>C36: Waiting for earlier operations is not a deadlock. Whenever some producer has reserved
  places (it may be waiting for the tail to reach its position), the producer at the position of
  the tail exists, and it can take a step: it has an object left to store, or its update of the
  tail goes through. The same holds for consumers.\<close>

theorem mt_ring_progress:
  assumes "mt_reach r0 s" "ring_ok r0" "tail (producer r0) = 0" "tail (consumer r0) = 0"
  shows "(\<forall>u ys i old g. threads s u = PCopy ys i old g \<longrightarrow>
      (\<exists>t zs j old'. threads s t = PCopy zs j old' (length (published s)) \<and>
        (j < length zs \<or> j = length zs \<and> (\<exists>s'. prod_publish t zs old' s = Inr s')))) \<and>
    (\<forall>u n acc old g. threads s u = CCopy n acc old g \<longrightarrow>
      (\<exists>t m bs old'. threads s t = CCopy m bs old' (length (delivered s)) \<and>
        (length bs < m \<or> length bs = m \<and> (\<exists>s'. cons_release t m bs old' s = Inr s'))))"
proof (intro conjI allI impI)
  note ok = mt_reach_ok [OF assms]
  then have c: "counters_ok s" and sp: "spans_ok pspan (length (published s)) (length (reserved s)) (threads s)"
    "spans_ok cspan (length (delivered s)) (claimed s) (threads s)" and th: "\<And>t. thread_ok s (threads s t)"
    by (simp_all add: mt_ok_def)
  fix u ys i old g assume u: "threads s u = PCopy ys i old g"
  have "length (published s) < length (reserved s)"
    using spans_bounds [OF sp(1), of u g "length ys"] u th [of u] by (cases ys) auto
  then have "length (published s) \<in> (\<Union>t. pspan (threads s t))" using sp(1) by (simp add: spans_ok_def)
  then obtain t where t: "length (published s) \<in> pspan (threads s t)" by blast
  then obtain zs j old' g' where x: "threads s t = PCopy zs j old' g'" by (cases "threads s t") auto
  have "zs \<noteq> []" "j \<le> length zs" "old' = of_nat g'" using th [of t] x by simp_all
  moreover have "g' = length (published s)"
    using t x spans_bounds(1) [OF sp(1), of t g' "length zs"] \<open>zs \<noteq> []\<close> by simp
  ultimately show "\<exists>t zs j old'. threads s t = PCopy zs j old' (length (published s)) \<and>
      (j < length zs \<or> j = length zs \<and> (\<exists>s'. prod_publish t zs old' s = Inr s'))"
    using x c by (auto simp: prod_publish_def update_tail_def counters_ok_def intro!: exI [of _ t])
next
  note ok = mt_reach_ok [OF assms]
  then have c: "counters_ok s" and sp: "spans_ok cspan (length (delivered s)) (claimed s) (threads s)"
    and th: "\<And>t. thread_ok s (threads s t)"
    by (simp_all add: mt_ok_def)
  fix u n acc old g assume u: "threads s u = CCopy n acc old g"
  have "length (delivered s) < claimed s" using spans_bounds [OF sp, of u g n] u th [of u] by auto
  then have "length (delivered s) \<in> (\<Union>t. cspan (threads s t))" using sp by (simp add: spans_ok_def)
  then obtain t where t: "length (delivered s) \<in> cspan (threads s t)" by blast
  then obtain m bs old' g' where x: "threads s t = CCopy m bs old' g'" by (cases "threads s t") auto
  have "0 < m" "length bs \<le> m" "old' = of_nat g'" using th [of t] x by simp_all
  moreover have "g' = length (delivered s)" using t x spans_bounds(1) [OF sp, of t g' m] \<open>0 < m\<close> by simp
  ultimately show "\<exists>t m bs old'. threads s t = CCopy m bs old' (length (delivered s)) \<and>
      (length bs < m \<or> length bs = m \<and> (\<exists>s'. cons_release t m bs old' s = Inr s'))"
    using x c by (intro exI [of _ t] exI [of _ m] exI [of _ bs] exI [of _ old'])
      (auto simp: cons_release_def update_tail_def counters_ok_def)
qed

text \<open>A run: thread 0 enqueues an object, thread 1 loads it.\<close>

definition mt_ring0 :: "nat util_ring" where
  "mt_ring0 = snd (util_ring_init ''demo'' 4 0 [0, 0, 0, 0])"

definition mt_demo_copy :: "nat mt" where
  "mt_demo_copy = prod_cas 0 [7] UTIL_RING_QUEUE_FIXED 1 0 (prod_room 0 [7] UTIL_RING_QUEUE_FIXED 0 0
     (prod_load 0 [7] UTIL_RING_QUEUE_FIXED (set_thread 0 (PLoad [7] UTIL_RING_QUEUE_FIXED) (mt_start mt_ring0))))"

definition mt_demo_sent :: "nat mt" where
  "mt_demo_sent = (case prod_publish 0 [7] 0 (prod_store 0 [7] 0 0 0 mt_demo_copy) of Inr s \<Rightarrow> s)"

definition mt_demo_got :: "nat mt" where
  "mt_demo_got = cons_fetch 1 1 [] 0 0 (cons_cas 1 1 UTIL_RING_QUEUE_FIXED 1 0 (cons_room 1 1 UTIL_RING_QUEUE_FIXED 0 0
     (cons_load 1 1 UTIL_RING_QUEUE_FIXED (set_thread 1 (CLoad 1 UTIL_RING_QUEUE_FIXED) mt_demo_sent))))"

lemmas mt_demo_defs = mt_demo_copy_def mt_demo_sent_def mt_demo_got_def mt_ring0_def mt_start_def util_ring_init_def
  prod_cas_def prod_room_def prod_load_def prod_store_def prod_publish_def cons_fetch_def cons_cas_def cons_room_def
  cons_load_def choose_n_def free_entries_def entries_def update_tail_def UTIL_RING_SZ_MASK_def POWEROF2_def
  RING_F_SP_ENQ_def RING_F_SC_DEQ_def RING_F_EXACT_SZ_def Let_def

lemma mt_demo_ring: "ring_ok mt_ring0" "tail (producer mt_ring0) = 0" "tail (consumer mt_ring0) = 0"
proof -
  show "ring_ok mt_ring0" using init_ok [of "''demo''" 4 2 "[0, 0, 0, 0 :: nat]"] by (auto simp: mt_ring0_def)
qed (simp_all add: mt_demo_defs)

lemma mt_demo_copy_reached: "mt_reach mt_ring0 mt_demo_copy"
proof -
  let ?s1 = "set_thread 0 (PLoad [7] UTIL_RING_QUEUE_FIXED) (mt_start mt_ring0)"
  let ?s2 = "prod_load 0 [7] UTIL_RING_QUEUE_FIXED ?s1"
  let ?s3 = "prod_room 0 [7] UTIL_RING_QUEUE_FIXED 0 0 ?s2"
  have "mt_reach mt_ring0 ?s1"
    by (rule mt_reach.step [OF mt_reach.start]) (rule mt_step.enq; simp add: mt_demo_defs)
  then have "mt_reach mt_ring0 ?s2"
    by (rule mt_reach.step) (rule mt_step.p_load; simp)
  then have "mt_reach mt_ring0 ?s3"
    by (rule mt_reach.step) (rule mt_step.p_room; simp add: mt_demo_defs)
  then show ?thesis unfolding mt_demo_copy_def
    by (rule mt_reach.step) (rule mt_step.p_cas [where g = 0 and d = 0]; simp add: mt_demo_defs)
qed

lemma mt_demo_got_reached: "mt_reach mt_ring0 mt_demo_got"
proof -
  let ?c1 = "set_thread 1 (CLoad 1 UTIL_RING_QUEUE_FIXED) mt_demo_sent"
  let ?c2 = "cons_load 1 1 UTIL_RING_QUEUE_FIXED ?c1"
  let ?c3 = "cons_room 1 1 UTIL_RING_QUEUE_FIXED 0 0 ?c2"
  let ?c4 = "cons_cas 1 1 UTIL_RING_QUEUE_FIXED 1 0 ?c3"
  have "mt_reach mt_ring0 (prod_store 0 [7] 0 0 0 mt_demo_copy)"
    by (rule mt_reach.step [OF mt_demo_copy_reached]) (rule mt_step.p_store; simp add: mt_demo_defs)
  then have "mt_reach mt_ring0 mt_demo_sent"
    by (rule mt_reach.step) (rule mt_step.p_publish [where ys = "[7]" and old = 0 and g = 0 and t = 0]; simp add: mt_demo_defs)
  then have "mt_reach mt_ring0 ?c1"
    by (rule mt_reach.step) (rule mt_step.deq; simp add: mt_demo_defs)
  then have "mt_reach mt_ring0 ?c2"
    by (rule mt_reach.step) (rule mt_step.c_load; simp)
  then have "mt_reach mt_ring0 ?c3"
    by (rule mt_reach.step) (rule mt_step.c_room; simp add: mt_demo_defs)
  then have "mt_reach mt_ring0 ?c4"
    by (rule mt_reach.step) (rule mt_step.c_cas [where g = 0 and d = 1]; simp add: mt_demo_defs)
  then show ?thesis unfolding mt_demo_got_def
    by (rule mt_reach.step) (rule mt_step.c_fetch; simp add: mt_demo_defs)
qed

theorem mt_ring_fifo_witness:
  "threads mt_demo_got 1 = CCopy 1 [7] 0 0 \<and> published mt_demo_got = [7] \<and>
   [7] = take (length [7 :: nat]) (drop 0 (published mt_demo_got))"
proof -
  have "threads mt_demo_got 1 = CCopy 1 [7] 0 0" "published mt_demo_got = [7]"
    by (simp_all add: mt_demo_defs)
  with mt_ring_fifo [OF mt_demo_got_reached mt_demo_ring] show ?thesis by blast
qed

theorem mt_ring_progress_witness:
  "\<exists>t zs j old'. threads mt_demo_copy t = PCopy zs j old' (length (published mt_demo_copy)) \<and>
     (j < length zs \<or> j = length zs \<and> (\<exists>s'. prod_publish t zs old' mt_demo_copy = Inr s'))"
proof -
  have "threads mt_demo_copy 0 = PCopy [7] 0 0 0" by (simp add: mt_demo_defs)
  with mt_ring_progress [OF mt_demo_copy_reached mt_demo_ring] show ?thesis by blast
qed

end
