(* ===== verification/Ufs_Shmipc.thy ===== *)
theory Ufs_Shmipc
  imports Ufs_Codec Ufs_Fifo Ufs_Layout
begin

text \<open>
  The shared-memory message ring between applications and workers (\<open>shmipc.h\<close>, \<open>shmipc.c\<close>) and
  the message rings among workers built from it (\<open>FsProc_Messenger.h\<close>, \<open>FsProc_Messenger.cc\<close>).
  A ring is a list of messages; each user has a manager with its own \<open>next\<close>. Waiting loops that
  nobody would end here are \<^const>\<open>Spin\<close>; \<open>Ufs_ShmipcMt\<close> interleaves clients and the server.
\<close>

subsection \<open>Messages and managers\<close>

record shmipc_msg =
  retval :: u64
  msg_status :: u8
  msg_type :: u8
  msg_flags :: u8
  inline_data :: bytes

record shmipc_mgr =
  mgr_capacity :: u64
  mgr_mask :: u64
  mgr_next :: u64

abbreviation STATUS_EMPTY :: u8 where "STATUS_EMPTY \<equiv> 0"
abbreviation STATUS_RESERVED :: u8 where "STATUS_RESERVED \<equiv> 1"
abbreviation STATUS_READY_FOR_SERVER :: u8 where "STATUS_READY_FOR_SERVER \<equiv> 2"
abbreviation STATUS_IN_PROGRESS :: u8 where "STATUS_IN_PROGRESS \<equiv> 3"
abbreviation STATUS_READY_FOR_CLIENT :: u8 where "STATUS_READY_FOR_CLIENT \<equiv> 4"

definition zero_msg :: shmipc_msg where
  "zero_msg = \<lparr>retval = 0, msg_status = 0, msg_type = 0, msg_flags = 0, inline_data = replicate 53 0\<rparr>"

definition IDX_TO_MSG :: "shmipc_msg list \<Rightarrow> u64 \<Rightarrow> shmipc_msg res" where
  "IDX_TO_MSG ring i = (if unat i < length ring then Inr (ring ! unat i) else Inl Abort)"

definition set_msg :: "u64 \<Rightarrow> shmipc_msg \<Rightarrow> shmipc_msg list \<Rightarrow> shmipc_msg list" where
  "set_msg i m ring = ring[unat i := m]"

subsection \<open>The memory region\<close>

definition XREQ_MAX_ELEM_SIZE :: nat where "XREQ_MAX_ELEM_SIZE = 2048"
definition DATA_MAX_ELEM_SIZE :: nat where "DATA_MAX_ELEM_SIZE = 32768"

definition mem_required :: "nat \<Rightarrow> nat" where
  "mem_required rsize = rsize * 64 + rsize * XREQ_MAX_ELEM_SIZE + rsize * DATA_MAX_ELEM_SIZE"

definition msg_offset :: "nat \<Rightarrow> nat \<Rightarrow> nat" where
  "msg_offset rsize i = i * 64"

definition xreq_offset :: "nat \<Rightarrow> nat \<Rightarrow> nat" where
  "xreq_offset rsize i = rsize * 64 + i * XREQ_MAX_ELEM_SIZE"

definition data_offset :: "nat \<Rightarrow> nat \<Rightarrow> nat" where
  "data_offset rsize i = rsize * 64 + rsize * XREQ_MAX_ELEM_SIZE + i * DATA_MAX_ELEM_SIZE"

text \<open>The memory is there: \<open>shm_open\<close> and \<open>mmap\<close> have succeeded.\<close>

definition shmipc_mgr_init :: "u64 \<Rightarrow> shmipc_mgr option" where
  "shmipc_mgr_init rsize =
     (if rsize < 4 \<or> (rsize AND (rsize - 1)) \<noteq> 0 then None
      else Some \<lparr>mgr_capacity = rsize, mgr_mask = rsize - 1, mgr_next = 0\<rparr>)"

definition shmipc_mgr_init_client :: "u64 \<Rightarrow> shmipc_mgr option" where
  "shmipc_mgr_init_client rsize =
     (if rsize < 4 \<or> (rsize AND (rsize - 1)) \<noteq> 0 then None
      else Some \<lparr>mgr_capacity = rsize, mgr_mask = rsize - 1, mgr_next = 0\<rparr>)"

definition server_reset :: "shmipc_mgr \<Rightarrow> shmipc_mgr" where
  "server_reset mgr = mgr\<lparr>mgr_next := 0\<rparr>"

definition client_reset :: "shmipc_mgr \<Rightarrow> shmipc_msg list \<Rightarrow> shmipc_mgr \<times> shmipc_msg list" where
  "client_reset mgr ring = (mgr\<lparr>mgr_next := 0\<rparr>, map (\<lambda>_. zero_msg) ring)"

subsection \<open>Server side\<close>

definition get_msg_nowait :: "shmipc_msg list \<Rightarrow> shmipc_mgr \<Rightarrow> (u64 option \<times> shmipc_mgr) res" where
  "get_msg_nowait ring mgr =
     (let ring_idx = mgr_next mgr AND mgr_mask mgr
      in res_bind (IDX_TO_MSG ring ring_idx) (\<lambda>msg.
           if msg_status msg \<noteq> STATUS_READY_FOR_SERVER then Inr (None, mgr)
           else Inr (Some ring_idx, mgr\<lparr>mgr_next := mgr_next mgr + 1\<rparr>)))"

definition get_msg :: "shmipc_msg list \<Rightarrow> shmipc_mgr \<Rightarrow> (u64 \<times> shmipc_mgr) res" where
  "get_msg ring mgr =
     (let ring_idx = mgr_next mgr AND mgr_mask mgr
      in res_bind (IDX_TO_MSG ring ring_idx) (\<lambda>msg.
           if msg_status msg \<noteq> STATUS_READY_FOR_SERVER then Inl Spin
           else Inr (ring_idx, mgr\<lparr>mgr_next := mgr_next mgr + 1\<rparr>)))"

text \<open>The worker takes a message (\<open>pollReqFromApps\<close>) and reports its completion
  (\<open>FsReq::markComplete\<close>).\<close>

definition take_msg :: "shmipc_msg list \<Rightarrow> shmipc_mgr \<Rightarrow> (u64 option \<times> shmipc_msg list \<times> shmipc_mgr) res" where
  "take_msg ring mgr =
     res_bind (get_msg_nowait ring mgr) (\<lambda>(r, mgr').
       case r of
         None \<Rightarrow> Inr (None, ring, mgr')
       | Some i \<Rightarrow> res_bind (IDX_TO_MSG ring i) (\<lambda>msg.
           Inr (Some i, set_msg i (msg\<lparr>msg_status := STATUS_IN_PROGRESS\<rparr>) ring, mgr')))"

definition markComplete :: "u64 \<Rightarrow> shmipc_msg list \<Rightarrow> shmipc_msg list res" where
  "markComplete i ring = res_bind (IDX_TO_MSG ring i) (\<lambda>msg.
     Inr (set_msg i (msg\<lparr>msg_status := STATUS_READY_FOR_CLIENT\<rparr>) ring))"

subsection \<open>Client side\<close>

text \<open>\<open>shmipc_mgr_alloc_slot\<close>: the atomic increment, and then waiting for the slot.\<close>

definition take_ticket :: "shmipc_mgr \<Rightarrow> u64 \<times> shmipc_mgr" where
  "take_ticket mgr = (mgr_next mgr AND mgr_mask mgr, mgr\<lparr>mgr_next := mgr_next mgr + 1\<rparr>)"

definition reserve_slot :: "u64 \<Rightarrow> shmipc_msg list \<Rightarrow> shmipc_msg list res" where
  "reserve_slot i ring = res_bind (IDX_TO_MSG ring i) (\<lambda>rmsg.
     Inr (set_msg i (rmsg\<lparr>msg_status := STATUS_RESERVED\<rparr>) ring))"

definition alloc_slot :: "shmipc_msg list \<Rightarrow> shmipc_mgr \<Rightarrow> (u64 \<times> shmipc_msg list \<times> shmipc_mgr) res" where
  "alloc_slot ring mgr =
     (case take_ticket mgr of (i, mgr') \<Rightarrow>
        res_bind (IDX_TO_MSG ring i) (\<lambda>rmsg.
          if msg_status rmsg \<noteq> STATUS_EMPTY then Inl Spin
          else res_bind (reserve_slot i ring) (\<lambda>ring'. Inr (i, ring', mgr'))))"

definition dealloc_slot :: "u64 \<Rightarrow> shmipc_msg list \<Rightarrow> shmipc_msg list res" where
  "dealloc_slot i ring = res_bind (IDX_TO_MSG ring i) (\<lambda>_. Inr (set_msg i zero_msg ring))"

text \<open>The copy starts behind \<open>retval\<close> and \<open>status\<close>.\<close>

definition put_msg_nowait :: "u64 \<Rightarrow> shmipc_msg \<Rightarrow> shmipc_msg list \<Rightarrow> shmipc_msg list res" where
  "put_msg_nowait i msg ring = res_bind (IDX_TO_MSG ring i) (\<lambda>rmsg.
     Inr (set_msg i (rmsg\<lparr>msg_type := msg_type msg, msg_flags := msg_flags msg, inline_data := inline_data msg,
                          msg_status := STATUS_READY_FOR_SERVER\<rparr>) ring))"

definition poll_msg :: "u64 \<Rightarrow> shmipc_msg \<Rightarrow> shmipc_msg list \<Rightarrow> (int \<times> shmipc_msg) res" where
  "poll_msg i msg ring = res_bind (IDX_TO_MSG ring i) (\<lambda>rmsg.
     if msg_status rmsg \<noteq> STATUS_READY_FOR_CLIENT then Inr (-1, msg) else Inr (0, rmsg))"

definition wait_msg :: "u64 \<Rightarrow> shmipc_msg list \<Rightarrow> shmipc_msg res" where
  "wait_msg i ring = res_bind (IDX_TO_MSG ring i) (\<lambda>rmsg.
     if msg_status rmsg \<noteq> STATUS_READY_FOR_CLIENT then Inl Spin else Inr rmsg)"

text \<open>\<open>shmipc_mgr_put_msg\<close> with what the server does to the ring in between.\<close>

definition put_msg :: "(shmipc_msg list \<Rightarrow> shmipc_msg list) \<Rightarrow> u64 \<Rightarrow> shmipc_msg \<Rightarrow> shmipc_msg list \<Rightarrow>
    (shmipc_msg \<times> shmipc_msg list) res" where
  "put_msg serve i msg ring =
     res_bind (put_msg_nowait i msg ring) (\<lambda>ring1.
       let ring2 = serve ring1 in res_bind (wait_msg i ring2) (\<lambda>m. Inr (m, ring2)))"

subsection \<open>Messages among workers\<close>

record FsProcMessage =
  fm_type :: u8
  ctx :: u64

record FsProcMsgRing =
  producer_mgr :: shmipc_mgr
  consumer_mgr :: shmipc_mgr
  msgs :: "shmipc_msg list"

text \<open>The assertion of the constructor asks for more than four messages.\<close>

definition initShmipcMgr :: "u64 \<Rightarrow> shmipc_mgr" where
  "initShmipcMgr cap = \<lparr>mgr_capacity = cap, mgr_mask = cap - 1, mgr_next = 0\<rparr>"

definition FsProcMsgRing_new :: "u64 \<Rightarrow> FsProcMsgRing res" where
  "FsProcMsgRing_new cap =
     (if \<not> (cap > 4 \<and> (cap AND (cap - 1)) = 0) then Inl Abort
      else Inr \<lparr>producer_mgr = initShmipcMgr cap, consumer_mgr = initShmipcMgr cap, msgs = replicate (unat cap) zero_msg\<rparr>)"

text \<open>The message is a local variable; \<open>junk\<close> is what its flags and its other bytes hold.\<close>

definition put_message :: "u8 \<times> bytes \<Rightarrow> FsProcMessage \<Rightarrow> FsProcMsgRing \<Rightarrow> FsProcMsgRing res" where
  "put_message junk m q =
     (let msg = \<lparr>retval = 0, msg_status = STATUS_RESERVED, msg_type = fm_type m, msg_flags = fst junk,
                 inline_data = put64 (ctx m) @ snd junk\<rparr>
      in res_bind (alloc_slot (msgs q) (producer_mgr q)) (\<lambda>(i, ring, mgr).
           res_bind (put_msg_nowait i msg ring) (\<lambda>ring'.
             Inr (q\<lparr>msgs := ring', producer_mgr := mgr\<rparr>))))"

definition get_message :: "FsProcMsgRing \<Rightarrow> (FsProcMessage option \<times> FsProcMsgRing) res" where
  "get_message q =
     res_bind (get_msg_nowait (msgs q) (consumer_mgr q)) (\<lambda>(r, mgr).
       case r of
         None \<Rightarrow> Inr (None, q)
       | Some i \<Rightarrow> res_bind (IDX_TO_MSG (msgs q) i) (\<lambda>msg.
           case get64 (inline_data msg) of
             None \<Rightarrow> Inl Abort
           | Some (p, _) \<Rightarrow> res_bind (dealloc_slot i (msgs q)) (\<lambda>ring.
               Inr (Some \<lparr>fm_type = msg_type msg, ctx = p\<rparr>, q\<lparr>msgs := ring, consumer_mgr := mgr\<rparr>))))"

text \<open>The rings of all workers and, in the last place, of the load manager, which replaces the
  ring of a worker of that number; a worker without ring is \<^const>\<open>None\<close>
  and following its null pointer is undefined.\<close>

definition kLmWid :: nat where "kLmWid = NMAX_FSP_WORKER"

type_synonym FsProcMessenger = "FsProcMsgRing option list"

definition FsProcMessenger_new :: "nat \<Rightarrow> u64 \<Rightarrow> FsProcMessenger res" where
  "FsProcMessenger_new n_workers ring_size =
     (if n_workers > NMAX_FSP_WORKER + 1 then Inl Abort
      else res_bind (FsProcMsgRing_new ring_size) (\<lambda>q.
        Inr (replicate (min n_workers NMAX_FSP_WORKER) (Some q) @ replicate (NMAX_FSP_WORKER - n_workers) None @ [Some q])))"

definition send_message :: "u8 \<times> bytes \<Rightarrow> nat \<Rightarrow> FsProcMessage \<Rightarrow> FsProcMessenger \<Rightarrow> FsProcMessenger res" where
  "send_message junk wid m rings =
     (case (if wid < length rings then rings ! wid else None) of
        None \<Rightarrow> Inl Abort
      | Some q \<Rightarrow> res_bind (put_message junk m q) (\<lambda>q'. Inr (rings[wid := Some q'])))"

definition recv_message :: "nat \<Rightarrow> FsProcMessenger \<Rightarrow> (FsProcMessage option \<times> FsProcMessenger) res" where
  "recv_message wid rings =
     (case (if wid < length rings then rings ! wid else None) of
        None \<Rightarrow> Inl Abort
      | Some q \<Rightarrow> res_bind (get_message q) (\<lambda>(m, q'). Inr (m, rings[wid := Some q'])))"

definition send_message_to_loadmonitor :: "u8 \<times> bytes \<Rightarrow> nat \<Rightarrow> FsProcMessage \<Rightarrow> FsProcMessenger \<Rightarrow> FsProcMessenger res" where
  "send_message_to_loadmonitor junk fromWid m rings = send_message junk kLmWid m rings"

subsection \<open>A message ring is a bounded queue\<close>

definition ring_len :: "FsProcMsgRing \<Rightarrow> nat" where
  "ring_len q = unat (mgr_next (producer_mgr q) - mgr_next (consumer_mgr q))"

abbreviation cap :: "FsProcMsgRing \<Rightarrow> nat" where
  "cap q \<equiv> unat (mgr_capacity (producer_mgr q))"

text \<open>The message at distance \<open>i\<close> from the consumer.\<close>

definition nth_msg :: "FsProcMsgRing \<Rightarrow> nat \<Rightarrow> shmipc_msg" where
  "nth_msg q i = msgs q ! ((unat (mgr_next (consumer_mgr q)) + i) mod cap q)"

definition msgring_ok :: "FsProcMsgRing \<Rightarrow> bool" where
  "msgring_ok q \<longleftrightarrow> (\<exists>k. cap q = 2 ^ k) \<and> mgr_mask (producer_mgr q) = mgr_capacity (producer_mgr q) - 1 \<and>
     mgr_mask (consumer_mgr q) = mgr_capacity (producer_mgr q) - 1 \<and> length (msgs q) = cap q \<and>
     ring_len q \<le> cap q \<and>
     (\<forall>i < ring_len q. msg_status (nth_msg q i) = STATUS_READY_FOR_SERVER \<and> 8 \<le> length (inline_data (nth_msg q i))) \<and>
     (\<forall>i. ring_len q \<le> i \<and> i < cap q \<longrightarrow> msg_status (nth_msg q i) = STATUS_EMPTY)"

definition message_of :: "shmipc_msg \<Rightarrow> FsProcMessage" where
  "message_of msg = \<lparr>fm_type = msg_type msg, ctx = fst (the (get64 (inline_data msg)))\<rparr>"

definition ring_msgs :: "FsProcMsgRing \<Rightarrow> FsProcMessage list" where
  "ring_msgs q = map (\<lambda>i. message_of (nth_msg q i)) [0..<ring_len q]"

lemma masked_next:
  assumes "msgring_ok q"
  shows "unat (w AND mgr_mask (producer_mgr q)) = unat w mod cap q" "unat (w AND mgr_mask (consumer_mgr q)) = unat w mod cap q"
    "0 < cap q"
  using assms unat_and_pow2 [of "mgr_capacity (producer_mgr q)" _ w] by (auto simp: msgring_ok_def)

lemma producer_slot:
  assumes "msgring_ok q"
  shows "unat (mgr_next (producer_mgr q)) mod cap q = (unat (mgr_next (consumer_mgr q)) + ring_len q) mod cap q"
proof -
  obtain k where k: "cap q = 2 ^ k" using assms by (auto simp: msgring_ok_def)
  show ?thesis
    using unat_add_mod_pow2 [OF k, of "mgr_next (consumer_mgr q)" "mgr_next (producer_mgr q) - mgr_next (consumer_mgr q)"]
    by (simp add: ring_len_def)
qed

lemma put_message_full:
  assumes "msgring_ok q" "ring_len q = cap q"
  shows "put_message junk m q = Inl Spin"
proof -
  let ?i = "mgr_next (producer_mgr q) AND mgr_mask (producer_mgr q)"
  have pos: "0 < ring_len q" "length (msgs q) = cap q" using assms masked_next(3) [OF assms(1)] by (simp_all add: msgring_ok_def)
  have i: "unat ?i = (unat (mgr_next (consumer_mgr q)) + ring_len q) mod cap q"
    using producer_slot [OF assms(1)] masked_next(1) [OF assms(1)] by simp
  then have "msgs q ! unat ?i = nth_msg q 0" using assms(2) by (simp add: nth_msg_def)
  moreover have "msg_status (nth_msg q 0) = STATUS_READY_FOR_SERVER" using assms(1) pos(1) by (simp add: msgring_ok_def)
  moreover have "unat ?i < length (msgs q)" unfolding i pos(2) by (rule mod_less_divisor) (rule masked_next(3) [OF assms(1)])
  ultimately show ?thesis
    by (simp add: put_message_def alloc_slot_def take_ticket_def IDX_TO_MSG_def Let_def)
qed

lemma put_message_ok:
  assumes "msgring_ok q" "ring_len q < cap q"
  shows "\<exists>q'. put_message junk m q = Inr q' \<and> msgring_ok q' \<and> cap q' = cap q \<and> ring_msgs q' = ring_msgs q @ [m]"
proof -
  let ?i = "mgr_next (producer_mgr q) AND mgr_mask (producer_mgr q)" and ?n = "ring_len q"
  let ?p = "(unat (mgr_next (consumer_mgr q)) + ?n) mod cap q"
  have i: "unat ?i = ?p" using producer_slot [OF assms(1)] masked_next(1) [OF assms(1)] by simp
  have len: "length (msgs q) = cap q" using assms(1) by (simp add: msgring_ok_def)
  have lt: "?p < length (msgs q)" unfolding len by (rule mod_less_divisor) (rule masked_next(3) [OF assms(1)])
  define m' where "m' = (nth_msg q ?n)\<lparr>msg_type := fm_type m, msg_flags := fst junk,
    inline_data := put64 (ctx m) @ snd junk, msg_status := STATUS_READY_FOR_SERVER\<rparr>"
  define q' where "q' = q\<lparr>msgs := (msgs q)[?p := m'],
    producer_mgr := (producer_mgr q)\<lparr>mgr_next := mgr_next (producer_mgr q) + 1\<rparr>\<rparr>"
  have st: "msg_status (nth_msg q ?n) = STATUS_EMPTY" using assms by (simp add: msgring_ok_def)
  have res: "put_message junk m q = Inr q'"
    using i lt st by (simp add: put_message_def alloc_slot_def take_ticket_def IDX_TO_MSG_def Let_def reserve_slot_def
        set_msg_def put_msg_nowait_def nth_msg_def [of q ?n, symmetric]) (simp add: q'_def m'_def)
  have n': "ring_len q' = Suc ?n"
  proof -
    let ?d = "mgr_next (producer_mgr q) - mgr_next (consumer_mgr q)"
    have eq: "mgr_next (producer_mgr q) + 1 - mgr_next (consumer_mgr q) = ?d + 1" by simp
    have "?n + 1 < 2 ^ 64" using assms(2) unat_below [of "mgr_capacity (producer_mgr q)"] by simp
    then have "unat (?d + 1) = Suc ?n" using unat_add_no_overflow [of ?d 1] by (simp add: ring_len_def)
    then have "unat (mgr_next (producer_mgr q) + 1 - mgr_next (consumer_mgr q)) = Suc ?n" unfolding eq .
    then show ?thesis by (simp add: ring_len_def q'_def)
  qed
  have nth: "nth_msg q' j = (if j = ?n then m' else nth_msg q j)" if "j < cap q" for j
    using mod_distinct_below [OF that assms(2), of "unat (mgr_next (consumer_mgr q))"] lt
    by (auto simp: nth_msg_def q'_def)
  have c: "cap q' = cap q" by (simp add: q'_def)
  have "\<forall>j < ring_len q'. msg_status (nth_msg q' j) = STATUS_READY_FOR_SERVER \<and> 8 \<le> length (inline_data (nth_msg q' j))"
    using assms nth n' by (auto simp: msgring_ok_def less_Suc_eq m'_def)
  moreover have "\<forall>j. ring_len q' \<le> j \<and> j < cap q' \<longrightarrow> msg_status (nth_msg q' j) = STATUS_EMPTY"
    using assms(1) nth n' c by (auto simp: msgring_ok_def)
  ultimately have ok: "msgring_ok q'"
    using assms n' unfolding msgring_ok_def c by (simp add: q'_def)
  have "ring_msgs q' = ring_msgs q @ [m]"
    using nth assms(2) by (simp add: ring_msgs_def n' m'_def message_of_def)
  with res ok c show ?thesis by (intro exI [of _ q']) simp
qed

lemma get_message_empty:
  assumes "msgring_ok q" "ring_len q = 0"
  shows "get_message q = Inr (None, q)"
proof -
  let ?i = "mgr_next (consumer_mgr q) AND mgr_mask (consumer_mgr q)"
  have i: "unat ?i = unat (mgr_next (consumer_mgr q)) mod cap q" using masked_next(2) [OF assms(1)] .
  have "msg_status (nth_msg q 0) = STATUS_EMPTY" using assms masked_next(3) [OF assms(1)] by (simp add: msgring_ok_def)
  moreover have "unat ?i < length (msgs q)"
    using assms(1) masked_next(3) [OF assms(1)] unfolding i by (simp add: msgring_ok_def)
  ultimately show ?thesis
    using i by (simp add: get_message_def get_msg_nowait_def IDX_TO_MSG_def Let_def nth_msg_def)
qed

lemma get_message_ok:
  assumes "msgring_ok q" "0 < ring_len q"
  shows "\<exists>q'. get_message q = Inr (Some (hd (ring_msgs q)), q') \<and> msgring_ok q' \<and> cap q' = cap q \<and>
    ring_msgs q' = tl (ring_msgs q)"
proof -
  let ?i = "mgr_next (consumer_mgr q) AND mgr_mask (consumer_mgr q)" and ?c = "unat (mgr_next (consumer_mgr q))"
  have i: "unat ?i = ?c mod cap q" using masked_next(2) [OF assms(1)] .
  have len: "length (msgs q) = cap q" using assms(1) by (simp add: msgring_ok_def)
  have pos: "0 < cap q" by (rule masked_next(3) [OF assms(1)])
  have lt: "?c mod cap q < length (msgs q)" unfolding len by (rule mod_less_divisor) (rule pos)
  have m0: "msgs q ! (?c mod cap q) = nth_msg q 0" by (simp add: nth_msg_def)
  have st: "msg_status (nth_msg q 0) = STATUS_READY_FOR_SERVER" "8 \<le> length (inline_data (nth_msg q 0))"
    using assms by (simp_all add: msgring_ok_def)
  then obtain p rest where p: "get64 (inline_data (nth_msg q 0)) = Some (p, rest)" by (simp add: get_word_def)
  define q' where "q' = q\<lparr>msgs := (msgs q)[?c mod cap q := zero_msg],
    consumer_mgr := (consumer_mgr q)\<lparr>mgr_next := mgr_next (consumer_mgr q) + 1\<rparr>\<rparr>"
  have hd: "hd (ring_msgs q) = \<lparr>fm_type = msg_type (nth_msg q 0), ctx = p\<rparr>"
    using assms(2) p by (simp add: ring_msgs_def message_of_def upt_conv_Cons)
  have res: "get_message q = Inr (Some (hd (ring_msgs q)), q')"
    unfolding hd using i lt st(1) m0 p
    by (simp add: get_message_def get_msg_nowait_def IDX_TO_MSG_def Let_def dealloc_slot_def set_msg_def q'_def)
  have n': "ring_len q' = ring_len q - 1"
  proof -
    let ?d = "mgr_next (producer_mgr q) - mgr_next (consumer_mgr q)"
    have eq: "mgr_next (producer_mgr q) - (mgr_next (consumer_mgr q) + 1) = ?d - 1" by simp
    have "?d \<noteq> 0" using assms(2) by (auto simp: ring_len_def)
    then have "unat (?d - 1) = unat ?d - 1" by (rule unat_minus_one)
    then have "unat (mgr_next (producer_mgr q) - (mgr_next (consumer_mgr q) + 1)) = unat ?d - 1" unfolding eq .
    then show ?thesis by (simp add: ring_len_def q'_def)
  qed
  have c: "cap q' = cap q" by (simp add: q'_def)
  obtain k where k: "cap q = 2 ^ k" using assms(1) by (auto simp: msgring_ok_def)
  have shift: "(unat (mgr_next (consumer_mgr q) + 1) + j) mod cap q = (?c + Suc j) mod cap q" for j
    using mod_shift [of "unat (mgr_next (consumer_mgr q) + 1)" "cap q" "?c + 1" j]
      unat_add_mod_pow2 [OF k, of "mgr_next (consumer_mgr q)" 1] by simp
  have nth: "nth_msg q' j = (if Suc j = cap q then zero_msg else nth_msg q (Suc j))" if "j < cap q" for j
  proof (cases "Suc j = cap q")
    case True
    then have "(?c + Suc j) mod cap q = ?c mod cap q" by simp
    then show ?thesis using True lt shift [of j] by (simp add: nth_msg_def q'_def)
  next
    case False
    then have "(?c + Suc j) mod cap q \<noteq> (?c + 0) mod cap q" using that by (intro mod_distinct_below) auto
    then show ?thesis using False shift [of j] by (simp add: nth_msg_def q'_def)
  qed
  have "\<forall>j < ring_len q'. msg_status (nth_msg q' j) = STATUS_READY_FOR_SERVER \<and> 8 \<le> length (inline_data (nth_msg q' j))"
    using assms nth n' by (auto simp: msgring_ok_def)
  moreover have "\<forall>j. ring_len q' \<le> j \<and> j < cap q' \<longrightarrow> msg_status (nth_msg q' j) = STATUS_EMPTY"
    using assms nth n' c by (auto simp: msgring_ok_def zero_msg_def)
  moreover have "mgr_mask (producer_mgr q') = mgr_capacity (producer_mgr q') - 1"
    "mgr_mask (consumer_mgr q') = mgr_capacity (producer_mgr q') - 1" "length (msgs q') = cap q" "ring_len q' \<le> cap q"
    using assms(1) n' by (auto simp: msgring_ok_def) (simp_all add: q'_def)
  ultimately have ok: "msgring_ok q'" using k unfolding msgring_ok_def c by blast
  have tl: "ring_msgs q' = tl (ring_msgs q)"
  proof -
    have "ring_len q \<le> cap q" using assms(1) by (simp add: msgring_ok_def)
    then have "ring_msgs q' = map (\<lambda>j. message_of (nth_msg q (Suc j))) [0..<ring_len q - 1]"
      using nth n' by (auto simp: ring_msgs_def)
    also have "\<dots> = map (\<lambda>i. message_of (nth_msg q i)) [Suc 0..<ring_len q]"
      using map_Suc_upt [of 0 "ring_len q - 1"] assms(2) by (intro nth_equalityI) simp_all
    also have "\<dots> = tl (ring_msgs q)" using assms(2) by (simp add: ring_msgs_def upt_conv_Cons)
    finally show ?thesis .
  qed
  from res ok c tl show ?thesis by (intro exI [of _ q']) simp
qed

text \<open>The message ring as a provider of the queue contract.\<close>

definition mr_push :: "(u8 \<times> bytes) \<times> FsProcMessage \<Rightarrow> FsProcMsgRing \<Rightarrow> FsProcMsgRing option" where
  "mr_push p q = (case put_message (fst p) (snd p) q of Inr q' \<Rightarrow> Some q' | Inl _ \<Rightarrow> None)"

fun mr_pop :: "nat \<Rightarrow> FsProcMsgRing \<Rightarrow> FsProcMsgRing option" where
  "mr_pop 0 q = Some q"
| "mr_pop (Suc n) q = (case get_message q of Inr (Some m, q') \<Rightarrow> mr_pop n q' | _ \<Rightarrow> None)"

lemma length_ring_msgs [simp]: "length (ring_msgs q) = ring_len q"
  by (simp add: ring_msgs_def)

lemma mr_pop_ok:
  assumes "msgring_ok q"
  shows "n \<le> ring_len q \<Longrightarrow>
      \<exists>q'. mr_pop n q = Some q' \<and> msgring_ok q' \<and> cap q' = cap q \<and> ring_msgs q' = drop n (ring_msgs q)"
    "ring_len q < n \<Longrightarrow> mr_pop n q = None"
  using assms
proof (atomize (full), induction n arbitrary: q)
  case 0
  then show ?case by simp
next
  case (Suc n)
  show ?case
  proof (cases "ring_len q")
    case 0
    then show ?thesis using get_message_empty [OF Suc.prems 0] by simp
  next
    case pos: (Suc l)
    then obtain q1 where q1: "get_message q = Inr (Some (hd (ring_msgs q)), q1)" "msgring_ok q1" "cap q1 = cap q"
      "ring_msgs q1 = tl (ring_msgs q)"
      using get_message_ok [OF Suc.prems] by auto
    have "ring_len q1 = l" using q1(4) pos by (metis diff_Suc_1 length_ring_msgs length_tl)
    then show ?thesis using Suc.IH [OF q1(2)] q1 pos by (simp add: drop_Suc)
  qed
qed

interpretation mq: bounded_fifo msgring_ok ring_msgs cap "\<lambda>_. True" "\<lambda>q p. [snd p]" mr_push mr_pop
proof unfold_locales
  fix s :: FsProcMsgRing and p :: "(u8 \<times> bytes) \<times> FsProcMessage" and n :: nat
  assume ok: "msgring_ok s"
  show "length (ring_msgs s) \<le> cap s" using ok by (simp add: msgring_ok_def)
  show "\<exists>s'. mr_push p s = Some s' \<and> msgring_ok s' \<and> cap s' = cap s \<and> ring_msgs s' = ring_msgs s @ [snd p]"
    if "True" "length (ring_msgs s) + length [snd p] \<le> cap s"
    using put_message_ok [OF ok, of "fst p" "snd p"] that by (auto simp: mr_push_def)
  show "mr_push p s = None" if "True" "cap s < length (ring_msgs s) + length [snd p]"
    using put_message_full [OF ok, of "fst p" "snd p"] that ok by (simp add: mr_push_def msgring_ok_def)
  show "\<exists>s'. mr_pop n s = Some s' \<and> msgring_ok s' \<and> cap s' = cap s \<and> ring_msgs s' = drop n (ring_msgs s)"
    if "n \<le> length (ring_msgs s)"
    using mr_pop_ok(1) [OF ok] that by simp
  show "mr_pop n s = None" if "length (ring_msgs s) < n" "n \<le> cap s"
    using mr_pop_ok(2) [OF ok] that by simp
qed

lemma new_msgring:
  assumes "FsProcMsgRing_new cp = Inr q" "unat cp = 2 ^ k"
  shows "msgring_ok q" "ring_msgs q = []" "cap q = unat cp"
proof -
  have q: "q = \<lparr>producer_mgr = \<lparr>mgr_capacity = cp, mgr_mask = cp - 1, mgr_next = 0\<rparr>,
      consumer_mgr = \<lparr>mgr_capacity = cp, mgr_mask = cp - 1, mgr_next = 0\<rparr>, msgs = replicate (unat cp) zero_msg\<rparr>"
    using assms(1) by (auto simp: FsProcMsgRing_new_def initShmipcMgr_def split: if_splits)
  then show "msgring_ok q" "ring_msgs q = []" "cap q = unat cp"
    using assms(2) by (auto simp: msgring_ok_def ring_len_def nth_msg_def ring_msgs_def zero_msg_def)
qed

text \<open>C38: Messages to a worker arrive in order, unless its ring is full. In every state of a
  worker's ring, sending appends the message to those not received yet, with its type and
  pointer intact, as long as there are fewer than the ring's size; when the ring is full, the
  sender spins. Receiving takes the oldest message, or reports that there is none, and frees its
  slot. Other workers' rings are not touched.\<close>

theorem messenger_fifo:
  assumes "wid < length rings" "rings ! wid = Some q" "msgring_ok q"
  shows "(if length (ring_msgs q) < cap q
       then \<exists>q'. send_message junk wid m rings = Inr (rings[wid := Some q']) \<and> msgring_ok q' \<and>
              ring_msgs q' = ring_msgs q @ [m]
       else send_message junk wid m rings = Inl Spin) \<and>
    (case ring_msgs q of
       [] \<Rightarrow> recv_message wid rings = Inr (None, rings)
     | m0 # ms \<Rightarrow> \<exists>q'. recv_message wid rings = Inr (Some m0, rings[wid := Some q']) \<and> msgring_ok q' \<and>
                   ring_msgs q' = ms)"
proof (intro conjI)
  have le: "ring_len q \<le> cap q" using assms(3) by (simp add: msgring_ok_def)
  show "if length (ring_msgs q) < cap q
      then \<exists>q'. send_message junk wid m rings = Inr (rings[wid := Some q']) \<and> msgring_ok q' \<and> ring_msgs q' = ring_msgs q @ [m]
      else send_message junk wid m rings = Inl Spin"
    using put_message_ok [OF assms(3), of junk m] put_message_full [OF assms(3), of junk m] le assms(1,2)
    by (auto simp: send_message_def) blast
  show "case ring_msgs q of
       [] \<Rightarrow> recv_message wid rings = Inr (None, rings)
     | m0 # ms \<Rightarrow> \<exists>q'. recv_message wid rings = Inr (Some m0, rings[wid := Some q']) \<and> msgring_ok q' \<and> ring_msgs q' = ms"
  proof (cases "ring_msgs q")
    case Nil
    then have "ring_len q = 0" by (metis length_ring_msgs list.size(3))
    then show ?thesis using get_message_empty [OF assms(3)] assms(1,2) Nil by (simp add: recv_message_def list_update_same_conv)
  next
    case (Cons m0 ms)
    then have "0 < ring_len q" by (metis length_greater_0_conv length_ring_msgs list.distinct(1))
    then show ?thesis using get_message_ok [OF assms(3)] assms(1,2) Cons by (auto simp: recv_message_def)
  qed
qed

definition demo_rings :: FsProcMessenger where
  "demo_rings = (case FsProcMessenger_new 2 8 of Inr r \<Rightarrow> r)"

theorem messenger_fifo_witness:
  "\<exists>q'. send_message (7, []) 1 \<lparr>fm_type = 3, ctx = 77\<rparr> demo_rings = Inr (demo_rings[1 := Some q']) \<and>
     ring_msgs q' = [\<lparr>fm_type = 3, ctx = 77\<rparr>]"
proof -
  obtain q where q: "FsProcMsgRing_new 8 = Inr q" by (simp add: FsProcMsgRing_new_def initShmipcMgr_def)
  have "unat (8 :: u64) = 2 ^ 3" by simp
  note ok = new_msgring [OF q this]
  have "1 < length demo_rings" "demo_rings ! 1 = Some q"
    using q by (simp_all add: demo_rings_def FsProcMessenger_new_def NMAX_FSP_WORKER_def numeral_2_eq_2)
  from messenger_fifo [OF this ok(1), of "(7, [])" "\<lparr>fm_type = 3, ctx = 77\<rparr>"] ok(2,3) show ?thesis by auto
qed

end
