(* ===== verification/Ufs_ShmipcMt.thy ===== *)
theory Ufs_ShmipcMt
  imports Ufs_Shmipc
begin

text \<open>
  Clients and the server on one shared-memory ring. A client thread takes a ticket, waits for its
  slot, reserves it, fills in the request, sends it, waits for the answer and frees the slot
  (\<open>shmipc_mgr_alloc_slot\<close>, \<open>shmipc_mgr_put_msg\<close>, \<open>shmipc_mgr_dealloc_slot\<close> as the library
  uses them); the server takes messages in slot order and completes them in any order. Each
  action is one atomic access. Requests and answers are in the slot's part of the \<open>xreq\<close>
  region, and \<open>answer\<close> is what the file system makes of a request. With at most as many threads
  as slots every client gets the answer to its own request; with one thread more two clients can
  own the same slot.
\<close>

subsection \<open>Actions\<close>

text \<open>A client carries its request, its ticket (counted without wrap-around, for the proofs) and
  its slot.\<close>

datatype 'x client =
    Off
  | Waiting 'x nat u64
  | Cleared 'x nat u64
  | Owner 'x nat u64
  | Filled 'x nat u64
  | Sent 'x nat u64
  | Answered 'x nat u64 'x

record 'x chan =
  cring :: "shmipc_msg list"
  xreq :: "'x list"
  cmgr :: shmipc_mgr
  smgr :: shmipc_mgr
  clients :: "nat \<Rightarrow> 'x client"
  working :: "u64 list"
  issued :: nat
  served :: nat

datatype 'x act = Start nat 'x | Check nat | Reserve nat | Fill nat | Send nat shmipc_msg | Serve | Complete u64 |
  Receive nat | Finish nat

definition to_option :: "'a res \<Rightarrow> 'a option" where
  "to_option r = (case r of Inl _ \<Rightarrow> None | Inr x \<Rightarrow> Some x)"

definition set_client :: "nat \<Rightarrow> 'x client \<Rightarrow> 'x chan \<Rightarrow> 'x chan" where
  "set_client c x s = s\<lparr>clients := (clients s)(c := x)\<rparr>"

text \<open>An action that is not possible in a state (a client in another phase, a loop that goes on
  waiting) is \<^const>\<open>None\<close>. There are \<open>N\<close> client threads.\<close>

fun exec :: "('x \<Rightarrow> 'x) \<Rightarrow> nat \<Rightarrow> 'x act \<Rightarrow> 'x chan \<Rightarrow> 'x chan option" where
  "exec answer N (Start c req) s =
     (if c < N \<and> clients s c = Off
      then case take_ticket (cmgr s) of (i, mgr) \<Rightarrow>
             Some (set_client c (Waiting req (issued s) i) (s\<lparr>cmgr := mgr, issued := issued s + 1\<rparr>))
      else None)"
| "exec answer N (Check c) s =
     (case clients s c of
        Waiting req k i \<Rightarrow> do {
          m \<leftarrow> to_option (IDX_TO_MSG (cring s) i);
          if msg_status m = STATUS_EMPTY then Some (set_client c (Cleared req k i) s) else None }
      | _ \<Rightarrow> None)"
| "exec answer N (Reserve c) s =
     (case clients s c of
        Cleared req k i \<Rightarrow> do {
          ring \<leftarrow> to_option (reserve_slot i (cring s));
          Some (set_client c (Owner req k i) (s\<lparr>cring := ring\<rparr>)) }
      | _ \<Rightarrow> None)"
| "exec answer N (Fill c) s =
     (case clients s c of
        Owner req k i \<Rightarrow> Some (set_client c (Filled req k i) (s\<lparr>xreq := (xreq s)[unat i := req]\<rparr>))
      | _ \<Rightarrow> None)"
| "exec answer N (Send c msg) s =
     (case clients s c of
        Filled req k i \<Rightarrow> do {
          ring \<leftarrow> to_option (put_msg_nowait i msg (cring s));
          Some (set_client c (Sent req k i) (s\<lparr>cring := ring\<rparr>)) }
      | _ \<Rightarrow> None)"
| "exec answer N Serve s = do {
     (r, ring, mgr) \<leftarrow> to_option (take_msg (cring s) (smgr s));
     case r of
       None \<Rightarrow> None
     | Some i \<Rightarrow> Some (s\<lparr>cring := ring, smgr := mgr, working := working s @ [i], served := served s + 1\<rparr>) }"
| "exec answer N (Complete i) s =
     (if i \<in> set (working s)
      then do { ring \<leftarrow> to_option (markComplete i (cring s));
                Some (s\<lparr>xreq := (xreq s)[unat i := answer (xreq s ! unat i)], cring := ring,
                        working := remove1 i (working s)\<rparr>) }
      else None)"
| "exec answer N (Receive c) s =
     (case clients s c of
        Sent req k i \<Rightarrow> do {
          m \<leftarrow> to_option (wait_msg i (cring s));
          Some (set_client c (Answered req k i (xreq s ! unat i)) s) }
      | _ \<Rightarrow> None)"
| "exec answer N (Finish c) s =
     (case clients s c of
        Answered req k i v \<Rightarrow> do {
          ring \<leftarrow> to_option (dealloc_slot i (cring s));
          Some (set_client c Off (s\<lparr>cring := ring\<rparr>)) }
      | _ \<Rightarrow> None)"

fun run_acts :: "('x \<Rightarrow> 'x) \<Rightarrow> nat \<Rightarrow> 'x act list \<Rightarrow> 'x chan \<Rightarrow> 'x chan option" where
  "run_acts answer N [] s = Some s"
| "run_acts answer N (a # as) s = do { s' \<leftarrow> exec answer N a s; run_acts answer N as s' }"

text \<open>A fresh ring: all slots empty, both managers at 0.\<close>

definition chan_new :: "u64 \<Rightarrow> 'x \<Rightarrow> 'x chan" where
  "chan_new rsize x0 =
     (let mgr = \<lparr>mgr_capacity = rsize, mgr_mask = rsize - 1, mgr_next = 0\<rparr>
      in \<lparr>cring = replicate (unat rsize) zero_msg, xreq = replicate (unat rsize) x0, cmgr = mgr, smgr = mgr,
          clients = (\<lambda>_. Off), working = [], issued = 0, served = 0\<rparr>)"

subsection \<open>More threads than slots\<close>

text \<open>With more threads than slots, a client can get the answer to another client's request.
  On a ring of four slots, five threads take tickets, so the first and the last wait for the same
  slot; both see it empty, both reserve it, and the second overwrites the first one's request
  before the server takes it. The server answers once, and the first client receives the answer
  to the second one's request.\<close>

theorem shmipc_slot_race:
  "\<exists>s. shmipc_mgr_init 4 \<noteq> None \<and>
     run_acts answer 5 ([Start 0 a, Start 1 x, Start 2 x, Start 3 x, Start 4 b, Check 0, Check 4, Reserve 0, Fill 0,
        Reserve 4, Fill 4, Send 0 zero_msg, Send 4 zero_msg, Serve, Complete 0, Receive 0]) (chan_new 4 x) = Some s \<and>
     clients s 0 = Answered a 0 0 (answer b) \<and> clients s 4 = Sent b 4 0"
  by (simp add: chan_new_def Let_def take_ticket_def set_client_def to_option_def IDX_TO_MSG_def reserve_slot_def
      set_msg_def put_msg_nowait_def take_msg_def get_msg_nowait_def markComplete_def wait_msg_def zero_msg_def
      shmipc_mgr_init_def)

subsection \<open>At most as many threads as slots\<close>

fun ticket_of :: "'x client \<Rightarrow> nat option" where
  "ticket_of Off = None"
| "ticket_of (Waiting req k i) = Some k"
| "ticket_of (Cleared req k i) = Some k"
| "ticket_of (Owner req k i) = Some k"
| "ticket_of (Filled req k i) = Some k"
| "ticket_of (Sent req k i) = Some k"
| "ticket_of (Answered req k i v) = Some k"

text \<open>The slot a client has seen empty or owns.\<close>

fun held :: "'x client \<Rightarrow> u64 option" where
  "held (Cleared req k i) = Some i"
| "held (Owner req k i) = Some i"
| "held (Filled req k i) = Some i"
| "held (Sent req k i) = Some i"
| "held (Answered req k i v) = Some i"
| "held _ = None"

abbreviation stat :: "'x chan \<Rightarrow> u64 \<Rightarrow> u8" where "stat s i \<equiv> msg_status (cring s ! unat i)"
abbreviation cell :: "'x chan \<Rightarrow> u64 \<Rightarrow> 'x" where "cell s i \<equiv> xreq s ! unat i"

fun client_ok :: "('x \<Rightarrow> 'x) \<Rightarrow> 'x chan \<Rightarrow> 'x client \<Rightarrow> bool" where
  "client_ok answer s Off = True"
| "client_ok answer s (Waiting req k i) = (served s \<le> k)"
| "client_ok answer s (Cleared req k i) = (served s \<le> k \<and> stat s i = STATUS_EMPTY \<and> i \<notin> set (working s))"
| "client_ok answer s (Owner req k i) = (served s \<le> k \<and> stat s i = STATUS_RESERVED \<and> i \<notin> set (working s))"
| "client_ok answer s (Filled req k i) =
     (served s \<le> k \<and> stat s i = STATUS_RESERVED \<and> i \<notin> set (working s) \<and> cell s i = req)"
| "client_ok answer s (Sent req k i) =
     (if served s \<le> k then stat s i = STATUS_READY_FOR_SERVER \<and> i \<notin> set (working s) \<and> cell s i = req
      else stat s i = STATUS_IN_PROGRESS \<and> i \<in> set (working s) \<and> cell s i = req \<or>
           stat s i = STATUS_READY_FOR_CLIENT \<and> i \<notin> set (working s) \<and> cell s i = answer req)"
| "client_ok answer s (Answered req k i v) =
     (k < served s \<and> stat s i = STATUS_READY_FOR_CLIENT \<and> i \<notin> set (working s) \<and> v = answer req)"

fun slot_ok :: "nat \<Rightarrow> nat \<Rightarrow> 'x client \<Rightarrow> bool" where
  "slot_ok S n Off = True"
| "slot_ok S n (Waiting req k i) = (k < n \<and> unat i = k mod S)"
| "slot_ok S n (Cleared req k i) = (k < n \<and> unat i = k mod S)"
| "slot_ok S n (Owner req k i) = (k < n \<and> unat i = k mod S)"
| "slot_ok S n (Filled req k i) = (k < n \<and> unat i = k mod S)"
| "slot_ok S n (Sent req k i) = (k < n \<and> unat i = k mod S)"
| "slot_ok S n (Answered req k i v) = (k < n \<and> unat i = k mod S)"

definition mgrs_ok :: "u64 \<Rightarrow> 'x chan \<Rightarrow> bool" where
  "mgrs_ok rsize s \<longleftrightarrow> (\<exists>k. unat rsize = 2 ^ k) \<and> mgr_mask (cmgr s) = rsize - 1 \<and> mgr_mask (smgr s) = rsize - 1 \<and>
     mgr_next (cmgr s) = of_nat (issued s) \<and> mgr_next (smgr s) = of_nat (served s) \<and>
     length (cring s) = unat rsize \<and> length (xreq s) = unat rsize \<and> served s \<le> issued s"

definition tickets_ok :: "nat \<Rightarrow> nat \<Rightarrow> nat \<Rightarrow> (nat \<Rightarrow> 'x client) \<Rightarrow> bool" where
  "tickets_ok N lo hi C \<longleftrightarrow> (\<forall>c \<ge> N. C c = Off) \<and>
     (\<forall>c c' k. ticket_of (C c) = Some k \<and> ticket_of (C c') = Some k \<longrightarrow> c = c') \<and>
     (\<forall>k. lo \<le> k \<and> k < hi \<longrightarrow> (\<exists>c. ticket_of (C c) = Some k))"

definition owners_ok :: "'x chan \<Rightarrow> bool" where
  "owners_ok s \<longleftrightarrow>
     (\<forall>c c' i. held (clients s c) = Some i \<and> held (clients s c') = Some i \<longrightarrow> c = c') \<and>
     (\<forall>i. unat i < length (cring s) \<and> (\<forall>c. held (clients s c) \<noteq> Some i) \<longrightarrow> stat s i = STATUS_EMPTY) \<and>
     distinct (working s) \<and> (\<forall>i \<in> set (working s). \<exists>c req k. clients s c = Sent req k i \<and> k < served s)"

definition chan_ok :: "('x \<Rightarrow> 'x) \<Rightarrow> nat \<Rightarrow> u64 \<Rightarrow> 'x chan \<Rightarrow> bool" where
  "chan_ok answer N rsize s \<longleftrightarrow> mgrs_ok rsize s \<and> tickets_ok N (served s) (issued s) (clients s) \<and> owners_ok s \<and>
     (\<forall>c. slot_ok (unat rsize) (issued s) (clients s c) \<and> client_ok answer s (clients s c))"

text \<open>The tickets that are not served belong to different threads, so there are at most \<open>N\<close>.\<close>

lemma open_tickets:
  assumes "tickets_ok N lo hi C"
  shows "hi \<le> lo + N"
proof -
  have "{lo..<hi} \<subseteq> (\<lambda>c. the (ticket_of (C c))) ` {..<N}"
  proof
    fix k assume "k \<in> {lo..<hi}"
    then obtain c where c: "ticket_of (C c) = Some k" using assms by (auto simp: tickets_ok_def)
    then have "C c \<noteq> Off" by auto
    then have "c < N" using assms by (meson not_le tickets_ok_def)
    with c show "k \<in> (\<lambda>c. the (ticket_of (C c))) ` {..<N}" by (intro image_eqI [of _ _ c]) simp_all
  qed
  then have "card {lo..<hi} \<le> card {..<N}" using card_image_le [of "{..<N}"] card_mono finite_imageI finite_lessThan
    by (metis (no_types, lifting) le_trans)
  then show ?thesis by simp
qed

lemma same_slot_ticket:
  assumes "tickets_ok N lo hi C" "N \<le> S" "lo \<le> k" "k < hi" "lo \<le> k'" "k' < hi" "k mod S = k' mod S"
  shows "k = k'"
proof -
  have hi: "hi \<le> lo + S" using open_tickets [OF assms(1)] assms(2) by simp
  have "(lo + (k - lo)) mod S = (lo + (k' - lo)) mod S" using assms by simp
  then have "k - lo = k' - lo" using mod_distinct_below [of "k - lo" S "k' - lo" lo] assms hi by fastforce
  then show ?thesis using assms(3,5) by simp
qed

lemma slot_bound: "slot_ok S n x \<Longrightarrow> held x = Some i \<Longrightarrow> 0 < S \<Longrightarrow> unat i < S"
  by (cases x) auto

lemma slot_ok_ticket: "slot_ok S n x \<Longrightarrow> held x = Some i \<Longrightarrow> \<exists>k. ticket_of x = Some k \<and> k < n \<and> unat i = k mod S"
  by (cases x) auto

lemma slot_ok_mono: "slot_ok S n x \<Longrightarrow> n \<le> m \<Longrightarrow> slot_ok S m x"
  by (cases x) auto

text \<open>What the state of a slot says about its holder.\<close>

lemma holder_status:
  assumes "client_ok answer s x" "held x = Some i"
  shows "stat s i = STATUS_EMPTY \<Longrightarrow> \<exists>req k. x = Cleared req k i \<and> served s \<le> k"
    "stat s i = STATUS_READY_FOR_SERVER \<Longrightarrow> \<exists>req k. x = Sent req k i \<and> served s \<le> k"
    "i \<in> set (working s) \<Longrightarrow> \<exists>req k. x = Sent req k i \<and> k < served s \<and> stat s i = STATUS_IN_PROGRESS \<and> cell s i = req"
  using assms by (cases x; auto split: if_splits)+

text \<open>A client's state only depends on its own slot.\<close>

lemma client_ok_frame:
  assumes "client_ok answer s x" "served s' = served s"
    "\<And>i. held x = Some i \<Longrightarrow> stat s' i = stat s i \<and> cell s' i = cell s i \<and> (i \<in> set (working s') \<longleftrightarrow> i \<in> set (working s))"
  shows "client_ok answer s' x"
  using assms by (cases x) auto

lemma set_client_fields [simp]:
  "cring (set_client c x s) = cring s" "xreq (set_client c x s) = xreq s" "cmgr (set_client c x s) = cmgr s"
  "smgr (set_client c x s) = smgr s" "working (set_client c x s) = working s" "issued (set_client c x s) = issued s"
  "served (set_client c x s) = served s" "clients (set_client c x s) = (clients s)(c := x)"
  by (simp_all add: set_client_def)

lemma chan_okD:
  assumes "chan_ok answer N rsize s"
  shows "mgrs_ok rsize s" "tickets_ok N (served s) (issued s) (clients s)" "owners_ok s"
    "slot_ok (unat rsize) (issued s) (clients s c)" "client_ok answer s (clients s c)" "0 < unat rsize"
  using assms by (auto simp: chan_ok_def mgrs_ok_def)

lemma holder_unique:
  "owners_ok s \<Longrightarrow> held (clients s c) = Some i \<Longrightarrow> held (clients s c') = Some i \<Longrightarrow> c' = c"
  by (auto simp: owners_ok_def)

lemma tickets_same:
  assumes "tickets_ok N lo hi C" "ticket_of x = ticket_of (C c)" "c < N"
  shows "tickets_ok N lo hi (C(c := x))"
proof -
  have t: "ticket_of ((C(c := x)) u) = ticket_of (C u)" for u using assms(2) by simp
  show ?thesis unfolding tickets_ok_def t using assms(1,3) by (auto simp: tickets_ok_def)
qed

lemma active_below: "tickets_ok N lo hi C \<Longrightarrow> ticket_of (C c) \<noteq> None \<Longrightarrow> c < N"
  by (metis not_le ticket_of.simps(1) tickets_ok_def)

text \<open>A client that works on the slot it holds.\<close>

lemma own_step:
  assumes ok: "chan_ok answer N rsize s" and hx: "held (clients s c) = Some i" "held x = Some i"
    and tx: "ticket_of x = ticket_of (clients s c)" and sl: "slot_ok (unat rsize) (issued s) x"
    and nw: "i \<notin> set (working s)"
    and s': "s' = set_client c x (s\<lparr>cring := (cring s)[unat i := m], xreq := (xreq s)[unat i := v]\<rparr>)"
    and cx: "client_ok answer s' x"
  shows "chan_ok answer N rsize s'"
proof -
  note D = chan_okD [OF ok]
  have f: "served s' = served s" "issued s' = issued s" "working s' = working s" "clients s' = (clients s)(c := x)"
    "cmgr s' = cmgr s" "smgr s' = smgr s" "length (cring s') = length (cring s)" "length (xreq s') = length (xreq s)"
    by (simp_all add: s')
  have hs: "held (clients s' u) = held (clients s u)" for u using hx by (simp add: f(4))
  have other: "stat s' j = stat s j \<and> cell s' j = cell s j" if "j \<noteq> i" for j
    using that by (simp add: s' word_unat_eq_iff)
  have cl: "client_ok answer s' (clients s' u)" for u
  proof (cases "u = c")
    case False
    then have "j \<noteq> i" if "held (clients s u) = Some j" for j using holder_unique [OF D(3) hx(1)] that by auto
    then show ?thesis using client_ok_frame [OF D(5) [of u], of s'] other f False by auto
  qed (use cx in \<open>simp add: f(4)\<close>)
  have "c < N" using active_below [OF D(2)] hx(1) by (cases "clients s c") auto
  then have t: "tickets_ok N (served s') (issued s') (clients s')" using tickets_same [OF D(2) tx] by (simp add: f)
  have o: "owners_ok s'"
    unfolding owners_ok_def hs f(1,3,7)
  proof (intro conjI)
    show "\<forall>j. unat j < length (cring s) \<and> (\<forall>u. held (clients s u) \<noteq> Some j) \<longrightarrow> stat s' j = STATUS_EMPTY"
      using D(3) other hx(1) unfolding owners_ok_def by metis
    show "\<forall>w \<in> set (working s). \<exists>u req k. clients s' u = Sent req k w \<and> k < served s"
    proof
      fix w assume w: "w \<in> set (working s)"
      then obtain u req k where u: "clients s u = Sent req k w" "k < served s" using D(3) by (auto simp: owners_ok_def)
      then have "u \<noteq> c" using w nw hx(1) by auto
      with u show "\<exists>u req k. clients s' u = Sent req k w \<and> k < served s" by (auto simp: f(4))
    qed
  qed (use D(3) in \<open>auto simp: owners_ok_def\<close>)
  have "mgrs_ok rsize s'" using D(1) by (simp add: mgrs_ok_def f)
  moreover have "slot_ok (unat rsize) (issued s') (clients s' u)" for u using D(4) [of u] sl by (simp add: f)
  ultimately show ?thesis using t o cl by (simp add: chan_ok_def)
qed

lemma ring_at:
  assumes "chan_ok answer N rsize s" "held (clients s c) = Some i"
  shows "IDX_TO_MSG (cring s) i = Inr (cring s ! unat i)" "unat i < length (cring s)" "unat i < length (xreq s)"
proof -
  note D = chan_okD [OF assms(1)]
  have "unat i < unat rsize" using slot_bound [OF D(4) assms(2) D(6)] .
  then show "IDX_TO_MSG (cring s) i = Inr (cring s ! unat i)" "unat i < length (cring s)" "unat i < length (xreq s)"
    using D(1) by (simp_all add: IDX_TO_MSG_def mgrs_ok_def)
qed

lemma working_keep:
  assumes "owners_ok s" "\<And>r k i. clients s c \<noteq> Sent r k i" "w \<in> set (working s)"
  shows "\<exists>u r k. ((clients s)(c := x)) u = Sent r k w \<and> k < served s"
proof -
  obtain u r k where "clients s u = Sent r k w" "k < served s" using assms(1,3) by (auto simp: owners_ok_def)
  then show ?thesis using assms(2) by (intro exI [of _ u]) auto
qed

lemma start_ok:
  assumes ok: "chan_ok answer N rsize s" and st: "exec answer N (Start c req) s = Some s'"
  shows "chan_ok answer N rsize s'"
proof -
  note D = chan_okD [OF ok]
  obtain k2 where k2: "unat rsize = 2 ^ k2" using D(1) by (auto simp: mgrs_ok_def)
  let ?i = "mgr_next (cmgr s) AND mgr_mask (cmgr s)"
  have c: "c < N" "clients s c = Off" and s': "s' = set_client c (Waiting req (issued s) ?i)
      (s\<lparr>cmgr := (cmgr s)\<lparr>mgr_next := mgr_next (cmgr s) + 1\<rparr>, issued := issued s + 1\<rparr>)"
    using st by (auto simp: take_ticket_def split: if_splits)
  have i: "unat ?i = issued s mod unat rsize"
    using D(1) unat_and_pow2 [OF k2, of "mgr_next (cmgr s)"] unat_of_nat_mod_pow2 [OF k2, of "issued s"]
    by (simp add: mgrs_ok_def)
  have old: "k < issued s" if "ticket_of (clients s u) = Some k" for u k
    using that D(4) [of u] by (cases "clients s u") auto
  have t: "tickets_ok N (served s) (Suc (issued s)) ((clients s)(c := Waiting req (issued s) ?i))"
    unfolding tickets_ok_def
  proof (intro conjI allI impI)
    fix u u' k assume a: "ticket_of (((clients s)(c := Waiting req (issued s) ?i)) u) = Some k \<and>
      ticket_of (((clients s)(c := Waiting req (issued s) ?i)) u') = Some k"
    then show "u = u'" using D(2) old [of u k] old [of u' k] by (auto simp: tickets_ok_def split: if_splits)
  next
    fix k assume k: "served s \<le> k \<and> k < Suc (issued s)"
    show "\<exists>u. ticket_of (((clients s)(c := Waiting req (issued s) ?i)) u) = Some k"
    proof (cases "k = issued s")
      case False
      then obtain u where "ticket_of (clients s u) = Some k" using k D(2) by (auto simp: tickets_ok_def less_Suc_eq)
      then show ?thesis using c(2) by (intro exI [of _ u]) auto
    qed (auto intro: exI [of _ c])
  qed (use D(2) c(1) in \<open>auto simp: tickets_ok_def\<close>)
  have hs: "held (clients s' u) = held (clients s u)" for u using c(2) by (simp add: s')
  have o: "owners_ok s'"
    unfolding owners_ok_def hs using D(3) c(2) by (auto simp: s' owners_ok_def) (metis client.distinct(9))
  have "served s \<le> issued s" using D(1) by (simp add: mgrs_ok_def)
  have cl: "client_ok answer s' (clients s' u) \<and> slot_ok (unat rsize) (issued s') (clients s' u)" for u
  proof (cases "u = c")
    case True
    then show ?thesis using i \<open>served s \<le> issued s\<close> by (simp add: s')
  next
    case False
    then show ?thesis using client_ok_frame [OF D(5) [of u], of s'] slot_ok_mono [OF D(4) [of u], of "Suc (issued s)"]
      by (simp add: s')
  qed
  have "mgrs_ok rsize s'" using D(1) by (simp add: mgrs_ok_def s')
  then show ?thesis using t o cl by (simp add: chan_ok_def s')
qed

lemma own_steps_ok:
  assumes ok: "chan_ok answer N rsize s"
  shows "exec answer N (Reserve c) s = Some s' \<Longrightarrow> chan_ok answer N rsize s'"
    "exec answer N (Fill c) s = Some s' \<Longrightarrow> chan_ok answer N rsize s'"
    "exec answer N (Send c msg) s = Some s' \<Longrightarrow> chan_ok answer N rsize s'"
    "exec answer N (Receive c) s = Some s' \<Longrightarrow> chan_ok answer N rsize s'"
proof -
  note D = chan_okD [OF ok]
  show "chan_ok answer N rsize s'" if st: "exec answer N (Reserve c) s = Some s'"
  proof -
    from st obtain req k i where x: "clients s c = Cleared req k i" by (auto split: client.splits)
    then have h: "held (clients s c) = Some i" by simp
    show ?thesis
      by (rule own_step [OF ok h, where x = "Owner req k i" and v = "xreq s ! unat i"
            and m = "(cring s ! unat i)\<lparr>msg_status := STATUS_RESERVED\<rparr>"])
         (use st x D(4) [of c] D(5) [of c] ring_at [OF ok h] in
           \<open>auto simp: to_option_def reserve_slot_def set_msg_def set_client_def\<close>)
  qed
  show "chan_ok answer N rsize s'" if st: "exec answer N (Fill c) s = Some s'"
  proof -
    from st obtain req k i where x: "clients s c = Owner req k i" by (auto split: client.splits)
    then have h: "held (clients s c) = Some i" by simp
    show ?thesis
      by (rule own_step [OF ok h, where x = "Filled req k i" and v = req and m = "cring s ! unat i"])
         (use st x D(4) [of c] D(5) [of c] ring_at [OF ok h] in \<open>auto simp: set_client_def\<close>)
  qed
  show "chan_ok answer N rsize s'" if st: "exec answer N (Send c msg) s = Some s'"
  proof -
    from st obtain req k i where x: "clients s c = Filled req k i" by (auto split: client.splits)
    then have h: "held (clients s c) = Some i" by simp
    show ?thesis
      by (rule own_step [OF ok h, where x = "Sent req k i" and v = "xreq s ! unat i"
            and m = "(cring s ! unat i)\<lparr>msg_type := msg_type msg, msg_flags := msg_flags msg,
                 inline_data := inline_data msg, msg_status := STATUS_READY_FOR_SERVER\<rparr>"])
         (use st x D(4) [of c] D(5) [of c] ring_at [OF ok h] in
           \<open>auto simp: to_option_def put_msg_nowait_def set_msg_def set_client_def\<close>)
  qed
  show "chan_ok answer N rsize s'" if st: "exec answer N (Receive c) s = Some s'"
  proof -
    from st obtain req k i where x: "clients s c = Sent req k i" by (auto split: client.splits)
    then have h: "held (clients s c) = Some i" by simp
    have rfc: "stat s i = STATUS_READY_FOR_CLIENT"
      using st x ring_at(1) [OF ok h] by (auto simp: to_option_def wait_msg_def split: if_splits)
    then have a: "k < served s" "i \<notin> set (working s)" "cell s i = answer req"
      using D(5) [of c] x by (auto split: if_splits)
    have "s' = set_client c (Answered req k i (cell s i)) s"
      using st x ring_at(1) [OF ok h] rfc by (simp add: to_option_def wait_msg_def)
    then have s': "s' = set_client c (Answered req k i (cell s i))
        (s\<lparr>cring := (cring s)[unat i := cring s ! unat i], xreq := (xreq s)[unat i := xreq s ! unat i]\<rparr>)"
      by simp
    show ?thesis
      by (rule own_step [OF ok h _ _ _ a(2) s']) (use x D(4) [of c] a rfc in \<open>simp_all add: s'\<close>)
  qed
qed

lemma check_ok:
  assumes ok: "chan_ok answer N rsize s" and N: "N \<le> unat rsize" and st: "exec answer N (Check c) s = Some s'"
  shows "chan_ok answer N rsize s'"
proof -
  note D = chan_okD [OF ok]
  from st obtain req k i where x: "clients s c = Waiting req k i" by (auto split: client.splits)
  have k: "served s \<le> k" "k < issued s" "unat i = k mod unat rsize" using D(4) [of c] D(5) [of c] x by simp_all
  have len: "unat i < length (cring s)" using D(1,6) k(3) by (simp add: mgrs_ok_def)
  have em: "stat s i = STATUS_EMPTY" and s': "s' = set_client c (Cleared req k i) s"
    using st x len by (auto simp: to_option_def IDX_TO_MSG_def split: if_splits)
  have alone: "held (clients s u) \<noteq> Some i" for u
  proof
    assume h: "held (clients s u) = Some i"
    from holder_status(1) [OF D(5) h em] obtain r k' where u: "clients s u = Cleared r k' i" "served s \<le> k'" by blast
    then have "k' < issued s" "unat i = k' mod unat rsize" using D(4) [of u] by simp_all
    then have "k = k'" using same_slot_ticket [OF D(2) N k(1,2) u(2)] k(3) by simp
    then have "u = c" using D(2) x u(1) by (auto simp: tickets_ok_def)
    with x u(1) show False by simp
  qed
  have nw: "i \<notin> set (working s)"
  proof
    assume "i \<in> set (working s)"
    then obtain u r k' where "clients s u = Sent r k' i" using D(3) by (auto simp: owners_ok_def)
    with alone [of u] show False by simp
  qed
  have "c < N" using active_below [OF D(2), of c] x by simp
  then have t: "tickets_ok N (served s) (issued s) ((clients s)(c := Cleared req k i))"
    using tickets_same [OF D(2), of "Cleared req k i" c] x by simp
  have o: "owners_ok s'"
    unfolding owners_ok_def
  proof (intro conjI)
    show "\<forall>u u' j. held (clients s' u) = Some j \<and> held (clients s' u') = Some j \<longrightarrow> u = u'"
      using D(3) alone by (auto simp: owners_ok_def s')
    show "\<forall>j. unat j < length (cring s') \<and> (\<forall>u. held (clients s' u) \<noteq> Some j) \<longrightarrow> stat s' j = STATUS_EMPTY"
    proof (intro allI impI)
      fix j assume j: "unat j < length (cring s') \<and> (\<forall>u. held (clients s' u) \<noteq> Some j)"
      then have "held (clients s u) \<noteq> Some j" for u using x by (cases "u = c") (auto simp: s' dest: spec [of _ u])
      with j D(3) show "stat s' j = STATUS_EMPTY" by (simp add: owners_ok_def s')
    qed
    show "\<forall>w \<in> set (working s'). \<exists>u r k. clients s' u = Sent r k w \<and> k < served s'"
      using working_keep [OF D(3), of c] x by (simp add: s')
  qed (use D(3) in \<open>simp add: owners_ok_def s'\<close>)
  have "client_ok answer s' (clients s' u) \<and> slot_ok (unat rsize) (issued s') (clients s' u)" for u
  proof (cases "u = c")
    case True
    then show ?thesis using k em nw by (simp add: s')
  next
    case False
    then show ?thesis using client_ok_frame [OF D(5) [of u], of s'] D(4) [of u] by (simp add: s')
  qed
  moreover have "mgrs_ok rsize s'" using D(1) by (simp add: mgrs_ok_def s')
  ultimately show ?thesis using t o by (simp add: chan_ok_def s')
qed

lemma finish_ok:
  assumes ok: "chan_ok answer N rsize s" and st: "exec answer N (Finish c) s = Some s'"
  shows "chan_ok answer N rsize s'"
proof -
  note D = chan_okD [OF ok]
  from st obtain req k i v where x: "clients s c = Answered req k i v" by (auto split: client.splits)
  then have h: "held (clients s c) = Some i" by simp
  have k: "k < served s" "i \<notin> set (working s)" using D(5) [of c] x by simp_all
  have s': "s' = set_client c Off (s\<lparr>cring := (cring s)[unat i := zero_msg]\<rparr>)"
    using st x ring_at [OF ok h] by (auto simp: to_option_def dealloc_slot_def set_msg_def)
  have other: "stat s' j = stat s j" if "j \<noteq> i" for j using that by (simp add: s' word_unat_eq_iff)
  have t: "tickets_ok N (served s) (issued s) ((clients s)(c := Off))"
    unfolding tickets_ok_def
  proof (intro conjI allI impI)
    fix k' assume k': "served s \<le> k' \<and> k' < issued s"
    then obtain u where "ticket_of (clients s u) = Some k'" using D(2) by (auto simp: tickets_ok_def)
    then show "\<exists>u. ticket_of (((clients s)(c := Off)) u) = Some k'" using x k(1) k' by (intro exI [of _ u]) auto
  qed (use D(2) in \<open>auto simp: tickets_ok_def split: if_splits\<close>)
  have o: "owners_ok s'"
    unfolding owners_ok_def
  proof (intro conjI)
    show "\<forall>j. unat j < length (cring s') \<and> (\<forall>u. held (clients s' u) \<noteq> Some j) \<longrightarrow> stat s' j = STATUS_EMPTY"
    proof (intro allI impI)
      fix j assume j: "unat j < length (cring s') \<and> (\<forall>u. held (clients s' u) \<noteq> Some j)"
      show "stat s' j = STATUS_EMPTY"
      proof (cases "j = i")
        case True
        then show ?thesis using ring_at(2) [OF ok h] by (simp add: s' zero_msg_def)
      next
        case False
        then have "held (clients s u) \<noteq> Some j" for u using j h by (cases "u = c") (auto simp: s' dest: spec [of _ u])
        with j D(3) show ?thesis using other [OF False] by (simp add: owners_ok_def s')
      qed
    qed
    show "\<forall>w \<in> set (working s'). \<exists>u r k. clients s' u = Sent r k w \<and> k < served s'"
      using working_keep [OF D(3), of c] x by (simp add: s')
  qed (use D(3) in \<open>auto simp: owners_ok_def s'\<close>)
  have "client_ok answer s' (clients s' u) \<and> slot_ok (unat rsize) (issued s') (clients s' u)" for u
  proof (cases "u = c")
    case False
    then have "j \<noteq> i" if "held (clients s u) = Some j" for j using holder_unique [OF D(3) h] that by auto
    then show ?thesis using client_ok_frame [OF D(5) [of u], of s'] D(4) [of u] other False by (simp add: s')
  qed (simp add: s')
  moreover have "mgrs_ok rsize s'" using D(1) by (simp add: mgrs_ok_def s')
  ultimately show ?thesis using t o by (simp add: chan_ok_def s')
qed

lemma complete_ok:
  assumes ok: "chan_ok answer N rsize s" and st: "exec answer N (Complete i) s = Some s'"
  shows "chan_ok answer N rsize s'"
proof -
  note D = chan_okD [OF ok]
  have w: "i \<in> set (working s)" using st by (auto split: if_splits)
  then obtain c req k where x: "clients s c = Sent req k i" "k < served s" using D(3) by (auto simp: owners_ok_def)
  then have h: "held (clients s c) = Some i" by simp
  have cell: "cell s i = req" using holder_status(3) [OF D(5) h w] x by auto
  let ?m = "(cring s ! unat i)\<lparr>msg_status := STATUS_READY_FOR_CLIENT\<rparr>"
  have s': "s' = s\<lparr>xreq := (xreq s)[unat i := answer req], cring := (cring s)[unat i := ?m], working := remove1 i (working s)\<rparr>"
    using st w ring_at [OF ok h] cell by (auto simp: to_option_def markComplete_def set_msg_def)
  have wk: "set (working s') = set (working s) - {i}" using D(3) by (simp add: s' owners_ok_def)
  have other: "stat s' j = stat s j \<and> cell s' j = cell s j \<and> (j \<in> set (working s') \<longleftrightarrow> j \<in> set (working s))"
    if "j \<noteq> i" for j
    using that wk by (simp add: s' word_unat_eq_iff)
  have o: "owners_ok s'"
    unfolding owners_ok_def
  proof (intro conjI)
    show "\<forall>j. unat j < length (cring s') \<and> (\<forall>u. held (clients s' u) \<noteq> Some j) \<longrightarrow> stat s' j = STATUS_EMPTY"
    proof (intro allI impI)
      fix j assume j: "unat j < length (cring s') \<and> (\<forall>u. held (clients s' u) \<noteq> Some j)"
      then have "j \<noteq> i" using h by (auto simp: s')
      with j D(3) other [of j] show "stat s' j = STATUS_EMPTY" by (simp add: owners_ok_def s')
    qed
    show "\<forall>w \<in> set (working s'). \<exists>u r k. clients s' u = Sent r k w \<and> k < served s'"
      using D(3) wk by (simp add: owners_ok_def s')
  qed (use D(3) in \<open>auto simp: owners_ok_def s'\<close>)
  have "client_ok answer s' (clients s' u)" for u
  proof (cases "u = c")
    case True
    then show ?thesis using x wk ring_at(2,3) [OF ok h] by (simp add: s')
  next
    case False
    then have "j \<noteq> i" if "held (clients s u) = Some j" for j using holder_unique [OF D(3) h] that by auto
    then show ?thesis using client_ok_frame [OF D(5) [of u], of s'] other by (simp add: s')
  qed
  moreover have "mgrs_ok rsize s'" using D(1) by (simp add: mgrs_ok_def s')
  ultimately show ?thesis using D(2,4) o by (simp add: chan_ok_def s')
qed

text \<open>The message the server finds is the one with the oldest ticket that is not served.\<close>

lemma client_ok_serve:
  assumes "client_ok answer s x" "\<And>k. ticket_of x = Some k \<Longrightarrow> k \<noteq> served s" "served s' = Suc (served s)"
    "\<And>i. held x = Some i \<Longrightarrow> stat s' i = stat s i \<and> cell s' i = cell s i \<and> (i \<in> set (working s') \<longleftrightarrow> i \<in> set (working s))"
  shows "client_ok answer s' x"
  using assms by (cases x) (auto split: if_splits)

lemma serve_ok:
  assumes ok: "chan_ok answer N rsize s" and N: "N \<le> unat rsize" and st: "exec answer N Serve s = Some s'"
  shows "chan_ok answer N rsize s'"
proof -
  note D = chan_okD [OF ok]
  obtain k2 where k2: "unat rsize = 2 ^ k2" using D(1) by (auto simp: mgrs_ok_def)
  define i where "i = mgr_next (smgr s) AND mgr_mask (smgr s)"
  have i: "unat i = served s mod unat rsize"
    using D(1) unat_and_pow2 [OF k2, of "mgr_next (smgr s)"] unat_of_nat_mod_pow2 [OF k2, of "served s"]
    by (simp add: mgrs_ok_def i_def)
  have len: "unat i < length (cring s)" using D(1,6) i by (simp add: mgrs_ok_def)
  let ?m = "(cring s ! unat i)\<lparr>msg_status := STATUS_IN_PROGRESS\<rparr>"
  have rd: "stat s i = STATUS_READY_FOR_SERVER"
    and s': "s' = s\<lparr>cring := (cring s)[unat i := ?m], smgr := (smgr s)\<lparr>mgr_next := mgr_next (smgr s) + 1\<rparr>,
      working := working s @ [i], served := Suc (served s)\<rparr>"
    using st len
    by (auto simp: to_option_def take_msg_def get_msg_nowait_def IDX_TO_MSG_def set_msg_def Let_def i_def [symmetric]
        split: if_splits)
  obtain c where h: "held (clients s c) = Some i"
  proof -
    have "\<not> (\<forall>c. held (clients s c) \<noteq> Some i)" using D(3) len rd by (auto simp: owners_ok_def)
    with that show ?thesis by blast
  qed
  from holder_status(2) [OF D(5) h rd] obtain req k where x: "clients s c = Sent req k i" "served s \<le> k" by blast
  have k: "k < issued s" "unat i = k mod unat rsize" using D(4) [of c] x by simp_all
  have "served s < issued s" using x(2) k(1) by simp
  then have ks: "k = served s" using same_slot_ticket [OF D(2) N x(2) k(1) le_refl] i k(2) by simp
  have nw: "i \<notin> set (working s)" "cell s i = req" using D(5) [of c] x by simp_all
  have other: "stat s' j = stat s j \<and> cell s' j = cell s j \<and> (j \<in> set (working s') \<longleftrightarrow> j \<in> set (working s))"
    if "j \<noteq> i" for j
    using that by (simp add: s' word_unat_eq_iff)
  have t: "tickets_ok N (Suc (served s)) (issued s) (clients s)" using D(2) by (auto simp: tickets_ok_def)
  have o: "owners_ok s'"
    unfolding owners_ok_def
  proof (intro conjI)
    show "\<forall>j. unat j < length (cring s') \<and> (\<forall>u. held (clients s' u) \<noteq> Some j) \<longrightarrow> stat s' j = STATUS_EMPTY"
    proof (intro allI impI)
      fix j assume j: "unat j < length (cring s') \<and> (\<forall>u. held (clients s' u) \<noteq> Some j)"
      then have "j \<noteq> i" using h by (auto simp: s')
      with j D(3) other [of j] show "stat s' j = STATUS_EMPTY" by (simp add: owners_ok_def s')
    qed
    show "\<forall>w \<in> set (working s'). \<exists>u r k. clients s' u = Sent r k w \<and> k < served s'"
    proof
      fix w assume "w \<in> set (working s')"
      then consider "w = i" | "w \<in> set (working s)" by (auto simp: s')
      then show "\<exists>u r k. clients s' u = Sent r k w \<and> k < served s'"
      proof cases
        case 1
        then show ?thesis using x(1) ks by (auto simp: s' intro!: exI [of _ c])
      next
        case 2
        then obtain u r k' where "clients s u = Sent r k' w" "k' < served s" using D(3) by (auto simp: owners_ok_def)
        then show ?thesis by (intro exI [of _ u]) (simp add: s')
      qed
    qed
  qed (use D(3) nw in \<open>auto simp: owners_ok_def s'\<close>)
  have "client_ok answer s' (clients s' u)" for u
  proof (cases "u = c")
    case True
    then show ?thesis using x ks nw len by (simp add: s')
  next
    case False
    then have "j \<noteq> i" if "held (clients s u) = Some j" for j using holder_unique [OF D(3) h] that by auto
    moreover have "k' \<noteq> served s" if "ticket_of (clients s u) = Some k'" for k'
      using False that x(1) ks D(2) by (auto simp: tickets_ok_def)
    ultimately show ?thesis using client_ok_serve [OF D(5) [of u], of s'] other by (simp add: s')
  qed
  moreover have "mgrs_ok rsize s'" using D(1) x(2) k(1) by (simp add: mgrs_ok_def s')
  ultimately show ?thesis using D(4) t o by (simp add: chan_ok_def s')
qed

lemma exec_ok:
  assumes "chan_ok answer N rsize s" "N \<le> unat rsize" "exec answer N a s = Some s'"
  shows "chan_ok answer N rsize s'"
  using assms(3)
  by (cases a) (use start_ok [OF assms(1)] check_ok [OF assms(1,2)] own_steps_ok [OF assms(1)] serve_ok [OF assms(1,2)]
      complete_ok [OF assms(1)] finish_ok [OF assms(1)] in \<open>simp_all only:\<close>)

lemma chan_new_ok:
  assumes "unat rsize = 2 ^ k"
  shows "chan_ok answer N rsize (chan_new rsize x0)"
  using assms by (auto simp: chan_ok_def chan_new_def mgrs_ok_def tickets_ok_def owners_ok_def zero_msg_def Let_def)

lemma run_ok:
  assumes "run_acts answer N as s = Some s'" "chan_ok answer N rsize s" "N \<le> unat rsize"
  shows "chan_ok answer N rsize s'"
  using assms by (induction as arbitrary: s) (auto split: bind_splits intro: exec_ok)

text \<open>C35: Every client gets the answer to its own request. On a ring with as many slots as there
  are client threads, or more, in every interleaving of the accesses of clients and server: no two clients
  hold the same slot; a client that has received an answer has received what the server made of
  the client's own request; and the slots the server works on hold the requests of the clients
  that wait there.\<close>

theorem shmipc_own_answer:
  assumes "run_acts answer N as (chan_new rsize x0) = Some s" "unat rsize = 2 ^ k" "N \<le> unat rsize"
  shows "(\<forall>c c' i. held (clients s c) = Some i \<and> held (clients s c') = Some i \<longrightarrow> c = c') \<and>
    (\<forall>c req t i v. clients s c = Answered req t i v \<longrightarrow> v = answer req) \<and>
    (\<forall>i \<in> set (working s). \<exists>c req t. clients s c = Sent req t i \<and> xreq s ! unat i = req)"
proof (intro conjI)
  note D = chan_okD [OF run_ok [OF assms(1) chan_new_ok [OF assms(2)] assms(3)]]
  show "\<forall>c c' i. held (clients s c) = Some i \<and> held (clients s c') = Some i \<longrightarrow> c = c'"
    using D(3) by (auto simp: owners_ok_def)
  show "\<forall>c req t i v. clients s c = Answered req t i v \<longrightarrow> v = answer req"
  proof (intro allI impI)
    fix c req t i v assume "clients s c = Answered req t i v"
    then show "v = answer req" using D(5) [of c] by simp
  qed
  show "\<forall>i \<in> set (working s). \<exists>c req t. clients s c = Sent req t i \<and> xreq s ! unat i = req"
  proof
    fix i assume w: "i \<in> set (working s)"
    then obtain c req t where c: "clients s c = Sent req t i" using D(3) by (auto simp: owners_ok_def)
    then have "held (clients s c) = Some i" by simp
    from holder_status(3) [OF D(5) this w] c show "\<exists>c req t. clients s c = Sent req t i \<and> xreq s ! unat i = req"
      by auto
  qed
qed

theorem shmipc_own_answer_witness:
  "\<exists>s :: nat chan. run_acts Suc 2 [Start 0 10, Start 1 20, Check 1, Reserve 1, Fill 1, Send 1 zero_msg, Check 0,
      Reserve 0, Fill 0, Send 0 zero_msg, Serve, Serve, Complete 1, Receive 1] (chan_new 4 0) = Some s \<and>
     clients s 1 = Answered 20 1 1 21 \<and> (\<forall>c req t i v. clients s c = Answered req t i v \<longrightarrow> v = Suc req)"
proof -
  let ?as = "[Start 0 10, Start 1 20, Check 1, Reserve 1, Fill 1, Send 1 zero_msg, Check 0, Reserve 0, Fill 0,
    Send 0 zero_msg, Serve, Serve, Complete 1, Receive 1] :: nat act list"
  obtain s where s: "run_acts Suc 2 ?as (chan_new 4 0) = Some s" "clients s 1 = Answered 20 1 1 21"
    by (simp add: chan_new_def Let_def take_ticket_def set_client_def to_option_def IDX_TO_MSG_def reserve_slot_def
      set_msg_def put_msg_nowait_def take_msg_def get_msg_nowait_def markComplete_def wait_msg_def zero_msg_def)
  have "unat (4 :: u64) = 2 ^ 2" "2 \<le> unat (4 :: u64)" by simp_all
  from shmipc_own_answer [OF s(1) this] s show ?thesis by blast
qed

end
