(* ===== verification/Spec2Isabelle.thy ===== *)
theory Spec2Isabelle
  imports Ufs_Bitmap Ufs_AllocLoop Ufs_BitmapCheckpoint Ufs_Layout Ufs_LogReplay Ufs_JournalOrder Ufs_BufferMove Ufs_FileIo Ufs_RingMt Ufs_RingProps Ufs_ShmipcMt
begin

text \<open>Header.\<close>

end
